(* ===== verification/Prelude.thy ===== *)
theory Prelude
  imports Main "HOL-Library.Word"
begin

text \<open>
  Shared base of the development: the machine types of the C++ sources as words, byte
  buffers as lists of bytes, \<^verbatim>\<open>memcpy\<close>-style block reads and writes, and the
  little-endian coding loops that \<^verbatim>\<open>page.cpp\<close>, \<^verbatim>\<open>index_file.cpp\<close>,
  \<^verbatim>\<open>wal_manager.cpp\<close> and \<^verbatim>\<open>serializer.cpp\<close> each spell out for their own buffers.
  The collections \<open>buf_simps\<close> (block reads and writes) and \<open>le_simps\<close> (little-endian
  reads after writes) carry the component proofs.
\<close>

unbundle bit_operations_syntax

named_theorems buf_simps "reads and writes of byte blocks"
named_theorems le_simps "little-endian reads and writes"

type_synonym byte = "8 word"
type_synonym u8 = "8 word"
type_synonym u16 = "16 word"
type_synonym u32 = "32 word"
type_synonym u64 = "64 word"
type_synonym bytes = "byte list"

section \<open>Exceptions\<close>

text \<open>
  The C++ standard exceptions the sources throw or receive from the library, with the message
  given to the constructor. A function that may throw returns \<open>exn + 'a\<close>.
\<close>

datatype exn = Invalid_argument string | Out_of_range string | Runtime_error string

definition bindE :: "'e + 'a \<Rightarrow> ('a \<Rightarrow> 'e + 'b) \<Rightarrow> 'e + 'b" where
  "bindE r f = (case r of Inl e \<Rightarrow> Inl e | Inr x \<Rightarrow> f x)"

lemma bindE_simps [simp]: "bindE (Inl e) f = Inl e" "bindE (Inr x) f = f x"
  by (simp_all add: bindE_def)

lemma bindE_Inr_iff: "bindE r f = Inr y \<longleftrightarrow> (\<exists>x. r = Inr x \<and> f x = Inr y)"
  by (cases r) simp_all

lemma bindE_Inl_iff: "bindE r f = Inl e \<longleftrightarrow> r = Inl e \<or> (\<exists>x. r = Inr x \<and> f x = Inl e)"
  by (cases r) simp_all

text \<open>An access outside a vector or buffer, undefined in C++, is the value \<open>Out_of_bounds\<close>.\<close>

datatype fault = Out_of_bounds

section \<open>Byte blocks\<close>

text \<open>
  \<open>get_bytes d p n\<close> is the block \<^verbatim>\<open>[d + p, d + p + n)\<close>; \<open>put_bytes d p bs\<close> is the
  buffer after \<^verbatim>\<open>memcpy(d + p, bs, bs.size())\<close>.
\<close>

definition get_bytes :: "bytes \<Rightarrow> nat \<Rightarrow> nat \<Rightarrow> bytes" where
  "get_bytes d p n = take n (drop p d)"

definition put_bytes :: "bytes \<Rightarrow> nat \<Rightarrow> bytes \<Rightarrow> bytes" where
  "put_bytes d p bs = take p d @ bs @ drop (p + length bs) d"

lemma length_put_bytes [simp, buf_simps]:
  "p + length bs \<le> length d \<Longrightarrow> length (put_bytes d p bs) = length d"
  by (simp add: put_bytes_def)

lemma length_get_bytes [simp, buf_simps]:
  "p + n \<le> length d \<Longrightarrow> length (get_bytes d p n) = n"
  by (simp add: get_bytes_def)

lemma nth_put_bytes:
  assumes "p + length bs \<le> length d" "i < length d"
  shows "put_bytes d p bs ! i = (if p \<le> i \<and> i < p + length bs then bs ! (i - p) else d ! i)"
  using assms by (auto simp: put_bytes_def nth_append nth_take)

lemma nth_get_bytes:
  "p + n \<le> length d \<Longrightarrow> i < n \<Longrightarrow> get_bytes d p n ! i = d ! (p + i)"
  by (simp add: get_bytes_def)

lemma get_bytes_eqI:
  assumes "length d' = length d" "p + n \<le> length d"
    and "\<And>i. p \<le> i \<Longrightarrow> i < p + n \<Longrightarrow> d' ! i = d ! i"
  shows "get_bytes d' p n = get_bytes d p n"
  using assms by (intro nth_equalityI) (auto simp: nth_get_bytes)

lemma get_put_same [simp, buf_simps]:
  "p + length bs \<le> length d \<Longrightarrow> n = length bs \<Longrightarrow> get_bytes (put_bytes d p bs) p n = bs"
  by (simp add: get_bytes_def put_bytes_def)

lemma get_put_other [buf_simps]:
  assumes "p + length bs \<le> length d" "q + n \<le> length d"
    and "q + n \<le> p \<or> p + length bs \<le> q"
  shows "get_bytes (put_bytes d p bs) q n = get_bytes d q n"
  using assms by (intro get_bytes_eqI) (auto simp: nth_put_bytes)

lemma put_bytes_Nil [simp]: "put_bytes d p [] = d"
  by (simp add: put_bytes_def)

lemma get_bytes_0 [simp]: "get_bytes d p 0 = []"
  by (simp add: get_bytes_def)

section \<open>Little-endian integers\<close>

text \<open>
  \<open>le_bytes n v\<close> are the bytes the loops
  \<^verbatim>\<open>for (i = 0; i < n; ++i) out[i] = (v >> (i * 8)) & 0xff\<close> store; \<open>le_read n d p\<close> is
  the value the loops \<^verbatim>\<open>value |= (T)ptr[i] << (i * 8)\<close> accumulate from position \<open>p\<close>.
\<close>

definition le_bytes :: "nat \<Rightarrow> 'a::len word \<Rightarrow> bytes" where
  "le_bytes n v = map (\<lambda>i. ucast (drop_bit (i * 8) v AND 0xff)) [0..<n]"

definition le_read :: "nat \<Rightarrow> bytes \<Rightarrow> nat \<Rightarrow> 'a::len word" where
  "le_read n d p = fold (\<lambda>i acc. acc OR push_bit (i * 8) (ucast (d ! (p + i)))) [0..<n] 0"

lemma length_le_bytes [simp]: "length (le_bytes n v) = n"
  by (simp add: le_bytes_def)

lemma bit_le_fold:
  "bit (fold (\<lambda>i acc. acc OR push_bit (i * 8) (ucast (d ! (p + i)) :: 'a::len word)) [0..<n] 0) k \<longleftrightarrow>
     k < LENGTH('a) \<and> k < n * 8 \<and> bit (d ! (p + k div 8)) (k mod 8)" for d :: bytes
proof (induction n)
  case 0
  show ?case by simp
next
  case (Suc n)
  have in_byte: "k div 8 = n \<and> k mod 8 = k - n * 8" if "n * 8 \<le> k" "k < Suc n * 8"
  proof -
    have "k div 8 = n" using that by (intro div_nat_eqI) auto
    then show ?thesis using minus_div_mult_eq_mod [of k 8] by simp
  qed
  have no_bit: "\<not> bit (d ! (p + n)) (k - n * 8)" if "Suc n * 8 \<le> k"
    using that by (auto dest: bit_imp_le_length)
  show ?case
    using in_byte no_bit Suc.IH
    by (cases "k < n * 8"; cases "k < Suc n * 8")
      (auto simp: bit_simps)
qed

lemma bit_le_read:
  "bit (le_read n d p :: 'a::len word) k \<longleftrightarrow>
     k < LENGTH('a) \<and> k < n * 8 \<and> bit (d ! (p + k div 8)) (k mod 8)"
  by (simp add: le_read_def bit_le_fold)

lemma bit_byte_of:
  "bit (ucast (w AND 0xff) :: byte) k \<longleftrightarrow> k < 8 \<and> bit w k" for w :: "'a::len word"
proof -
  have ff: "(0xff :: 'a word) = mask 8"
    by (simp add: mask_eq_exp_minus_1)
  show ?thesis
    unfolding ff by (auto simp: bit_simps dest: bit_imp_le_length)
qed

lemma bit_le_bytes:
  "i < n \<Longrightarrow> bit (le_bytes n v ! i) k \<longleftrightarrow> k < 8 \<and> bit v (i * 8 + k)" for v :: "'a::len word"
  by (simp add: le_bytes_def bit_byte_of bit_drop_bit_eq)

lemma le_read_cong:
  assumes "\<And>i. i < n \<Longrightarrow> d ! (p + i) = d' ! (p' + i)"
  shows "le_read n d p = (le_read n d' p' :: 'a::len word)"
proof (rule bit_word_eqI)
  fix k assume "k < LENGTH('a)"
  have "d ! (p + k div 8) = d' ! (p' + k div 8)" if "k < n * 8"
    using that by (intro assms) (simp add: less_mult_imp_div_less)
  then show "bit (le_read n d p :: 'a word) k = bit (le_read n d' p' :: 'a word) k"
    by (auto simp: bit_le_read)
qed

lemma le_read_bytes [simp, le_simps]:
  assumes "LENGTH('a::len) \<le> n * 8"
  shows "le_read n (le_bytes n v) 0 = (v :: 'a word)"
proof (rule bit_word_eqI)
  fix k assume k: "k < LENGTH('a)"
  then have "k div 8 < n" using assms by (simp add: less_mult_imp_div_less)
  with k assms show "bit (le_read n (le_bytes n v) 0 :: 'a word) k = bit v k"
    by (simp add: bit_le_read bit_le_bytes)
qed

lemma le_read_put_same [simp, le_simps]:
  assumes "LENGTH('a::len) \<le> n * 8" "p + n \<le> length d"
  shows "le_read n (put_bytes d p (le_bytes n v)) p = (v :: 'a word)"
proof -
  have "le_read n (put_bytes d p (le_bytes n v)) p = (le_read n (le_bytes n v) 0 :: 'a word)"
    using assms by (intro le_read_cong) (simp add: nth_put_bytes)
  with assms show ?thesis by simp
qed

lemma le_read_put_other [le_simps]:
  assumes "p + length bs \<le> length d" "q + n \<le> length d" "q + n \<le> p \<or> p + length bs \<le> q"
  shows "le_read n (put_bytes d p bs) q = le_read n d q"
  using assms by (intro le_read_cong) (auto simp: nth_put_bytes)

lemma le_read_2: "le_read 2 d p = (ucast (d ! p) OR push_bit 8 (ucast (d ! Suc p)) :: 'a::len word)"
  by (simp add: le_read_def upt_conv_Cons numeral_2_eq_2)

lemma le_bytes_2: "le_bytes 2 v = [ucast (v AND 0xff), ucast (drop_bit 8 v AND 0xff)]"
  by (simp add: le_bytes_def upt_conv_Cons numeral_2_eq_2)

lemma list_update_2_put_bytes:
  "Suc p < length d \<Longrightarrow> d[p := a, Suc p := b] = put_bytes d p [a, b]"
  by (intro nth_equalityI) (auto simp: nth_put_bytes nth_list_update)

lemma fold_update_put:
  "p + n \<le> length d \<Longrightarrow> fold (\<lambda>i d. d[p + i := f i]) [0..<n] d = put_bytes d p (map f [0..<n])"
proof (induction n)
  case 0
  show ?case by simp
next
  case (Suc n)
  then have "fold (\<lambda>i d. d[p + i := f i]) [0..<Suc n] d = (put_bytes d p (map f [0..<n]))[p + n := f n]"
    by simp
  also have "\<dots> = put_bytes d p (map f [0..<Suc n])"
    using Suc.prems by (intro nth_equalityI) (auto simp: nth_put_bytes nth_list_update nth_append)
  finally show ?case .
qed

lemma get_bytes_agree:
  assumes "p + n \<le> length d" "p + n \<le> length d'" "\<And>i. p \<le> i \<Longrightarrow> i < p + n \<Longrightarrow> d' ! i = d ! i"
  shows "get_bytes d' p n = get_bytes d p n"
  using assms by (intro nth_equalityI) (auto simp: nth_get_bytes)

lemma le_read_get: "p + n \<le> length d \<Longrightarrow> le_read n d p = le_read n (get_bytes d p n) 0"
  by (intro le_read_cong) (simp add: nth_get_bytes)

lemma le_read_block:
  "p + n \<le> length d \<Longrightarrow> get_bytes d p n = le_bytes n v \<Longrightarrow> LENGTH('a::len) \<le> n * 8 \<Longrightarrow> le_read n d p = (v :: 'a word)"
  by (subst le_read_get) simp_all

lemma get_bytes_split:
  assumes "get_bytes d p (n + m) = a @ b" "length a = n" "p + n + m \<le> length d"
  shows "get_bytes d p n = a" "get_bytes d (p + n) m = b"
proof -
  have "take n (get_bytes d p (n + m)) = get_bytes d p n" "drop n (get_bytes d p (n + m)) = get_bytes d (p + n) m"
    by (simp_all add: get_bytes_def drop_take add.commute)
  with assms show "get_bytes d p n = a" "get_bytes d (p + n) m = b" by simp_all
qed

lemma get_bytes_append: "p + n \<le> length d \<Longrightarrow> get_bytes (d @ e) p n = get_bytes d p n"
  by (simp add: get_bytes_def)

lemma get_bytes_end: "get_bytes (d @ e) (length d) (length e) = e"
  by (simp add: get_bytes_def)

section \<open>Conversions between naturals and words\<close>

lemma unat_of_nat_u16 [simp]: "n < 65536 \<Longrightarrow> unat (of_nat n :: u16) = n"
  by (simp add: unat_of_nat take_bit_nat_eq_self_iff)

lemma unat_u16_lt [simp]: "unat (w :: u16) < 65536"
  by (rule unsigned_less [of w, simplified])

lemma of_nat_u16_eq_iff: "n < 65536 \<Longrightarrow> m < 65536 \<Longrightarrow> (of_nat n :: u16) = of_nat m \<longleftrightarrow> n = m"
  by (metis unat_of_nat_u16)

lemma unat_eq_iff_u16: "unat a = unat b \<longleftrightarrow> a = b" for a b :: u16
  by (rule word_unat_eq_iff [symmetric])

lemma u16_zero_iff: "(w :: u16) = 0 \<longleftrightarrow> unat w = 0"
  by (simp add: unat_eq_zero)

lemma unat_u16_diff [simp]:
  "k \<le> unat e \<Longrightarrow> unat (e - of_nat k) = unat e - k" for e :: u16
proof -
  assume k: "k \<le> unat e"
  then have small: "k < 65536" using unat_u16_lt [of e] by linarith
  with k have "(of_nat k :: u16) \<le> e" by (simp add: word_le_nat_alt)
  with small show ?thesis by (simp add: unat_sub)
qed

end
