(* ===== verification/Text_Lib.thy ===== *)
theory Text_Lib
  imports Prelude
begin

text \<open>
  The parts of the C++ text library the sources use: character classes of
  \<^verbatim>\<open><cctype>\<close> in the C locale, decimal output of unsigned and signed integers
  (\<^verbatim>\<open>std::to_string\<close>, \<^verbatim>\<open>operator<<\<close>), \<^verbatim>\<open>std::setw\<close> with \<^verbatim>\<open>std::setfill('0')\<close>,
  and decimal reading, with the round trips between them.
\<close>

section \<open>Character classes\<close>

abbreviation code :: "char \<Rightarrow> nat" where "code c \<equiv> of_char c"

definition isdigit :: "char \<Rightarrow> bool" where "isdigit c \<longleftrightarrow> 48 \<le> code c \<and> code c \<le> 57"
definition islower :: "char \<Rightarrow> bool" where "islower c \<longleftrightarrow> 97 \<le> code c \<and> code c \<le> 122"
definition isupper :: "char \<Rightarrow> bool" where "isupper c \<longleftrightarrow> 65 \<le> code c \<and> code c \<le> 90"
definition isspace :: "char \<Rightarrow> bool" where "isspace c \<longleftrightarrow> code c = 32 \<or> 9 \<le> code c \<and> code c \<le> 13"

text \<open>\<^verbatim>\<open>static_cast<uint8_t>(ch)\<close> and back.\<close>

definition byte_of :: "char \<Rightarrow> byte" where "byte_of c = word_of_nat (of_char c)"
definition char_of_byte :: "byte \<Rightarrow> char" where "char_of_byte b = char_of (unat b)"

lemma char_byte [simp]: "char_of_byte (byte_of c) = c" "char_of_byte \<circ> byte_of = id"
proof -
  have "of_char c < (256 :: nat)" for c by (rule nat_of_char_less_256)
  then show a: "char_of_byte (byte_of c) = c" for c
    by (simp add: byte_of_def char_of_byte_def unat_of_nat take_bit_nat_eq_self)
  then show "char_of_byte \<circ> byte_of = id" by (simp add: fun_eq_iff)
qed

lemma byte_char [simp]: "byte_of (char_of_byte b) = b"
proof -
  have "unat b < 256" using unsigned_less [of b] by simp
  then show ?thesis by (simp add: byte_of_def char_of_byte_def of_char_of)
qed

section \<open>Decimal digits\<close>

definition digit_char :: "nat \<Rightarrow> char" where "digit_char n = char_of (48 + n)"
definition digit_val :: "char \<Rightarrow> nat" where "digit_val c = code c - 48"

lemma code_digit_char: "n < 10 \<Longrightarrow> code (digit_char n) = 48 + n"
  by (simp add: digit_char_def of_char_of)

lemma digit_char_val [simp]: "n < 10 \<Longrightarrow> digit_val (digit_char n) = n" "n < 10 \<Longrightarrow> isdigit (digit_char n)"
  by (simp_all add: digit_val_def isdigit_def code_digit_char)

lemma digit_val_char: "isdigit c \<Longrightarrow> digit_char (digit_val c) = c"
  by (simp add: digit_char_def digit_val_def isdigit_def)

lemma digit_val_lt: "isdigit c \<Longrightarrow> digit_val c < 10"
  by (auto simp: digit_val_def isdigit_def)

text \<open>\<^verbatim>\<open>std::to_string\<close> of an unsigned value, most significant digit first.\<close>

fun show_nat :: "nat \<Rightarrow> string" where
  "show_nat n = (if n < 10 then [digit_char n] else show_nat (n div 10) @ [digit_char (n mod 10)])"

declare show_nat.simps [simp del]

definition show_int :: "int \<Rightarrow> string" where
  "show_int i = (if i < 0 then CHR ''-'' # show_nat (nat (- i)) else show_nat (nat i))"

text \<open>The value of a digit string, accumulated as \<^verbatim>\<open>value = value * 10 + (ch - '0')\<close>.\<close>

definition read_digits :: "nat \<Rightarrow> string \<Rightarrow> nat" where
  "read_digits acc ds = foldl (\<lambda>a c. a * 10 + digit_val c) acc ds"

lemma read_digits_simps [simp]:
  "read_digits acc [] = acc"
  "read_digits acc (c # cs) = read_digits (acc * 10 + digit_val c) cs"
  "read_digits acc (xs @ ys) = read_digits (read_digits acc xs) ys"
  by (simp_all add: read_digits_def)

lemma read_show_nat [simp]: "read_digits 0 (show_nat n) = n"
  by (induction n rule: show_nat.induct) (subst show_nat.simps, auto)

lemma digits_show_nat: "list_all isdigit (show_nat n)"
  by (induction n rule: show_nat.induct) (subst show_nat.simps, auto)

lemma show_nat_not_Nil [simp]: "show_nat n \<noteq> []"
  by (subst show_nat.simps) simp

lemma length_show_nat: "n < 10 ^ k \<Longrightarrow> 0 < k \<Longrightarrow> length (show_nat n) \<le> k"
proof (induction n arbitrary: k rule: show_nat.induct)
  case (1 n)
  show ?case
  proof (cases "n < 10")
    case False
    obtain j where j: "k = Suc j" using "1.prems"(2) by (cases k) auto
    then have "n div 10 < 10 ^ j" "0 < j" using "1.prems" False by (auto simp: less_mult_imp_div_less mult.commute intro: gr0I)
    then have "length (show_nat (n div 10)) \<le> j" using "1.IH" False by blast
    then show ?thesis using False j by (subst show_nat.simps) simp
  qed (use "1.prems" in \<open>subst show_nat.simps, simp\<close>)
qed

lemma read_digits_bound: "list_all isdigit ds \<Longrightarrow> read_digits acc ds < (acc + 1) * 10 ^ length ds"
proof (induction ds arbitrary: acc)
  case (Cons c cs)
  have "read_digits (acc * 10 + digit_val c) cs < (acc * 10 + digit_val c + 1) * 10 ^ length cs"
    using Cons by simp
  also have "\<dots> \<le> ((acc + 1) * 10) * 10 ^ length cs"
    using Cons.prems digit_val_lt [of c] by (intro mult_right_mono) auto
  finally show ?case by (simp add: algebra_simps)
qed simp

section \<open>Padded output\<close>

text \<open>\<^verbatim>\<open>std::setw(w) << std::setfill('0') << text\<close>.\<close>

definition setw0 :: "nat \<Rightarrow> string \<Rightarrow> string" where
  "setw0 w s = replicate (w - length s) (CHR ''0'') @ s"

lemma digit_char_0: "CHR ''0'' = digit_char 0"
  by code_simp

lemma setw0_zero: "0 < w \<Longrightarrow> setw0 w [digit_char 0] = setw0 w []"
  by (cases w) (simp_all add: setw0_def digit_char_0 replicate_append_same)

lemma setw0_2: "n < 100 \<Longrightarrow> setw0 2 (show_nat n) = [digit_char (n div 10), digit_char (n mod 10)]"
  by (cases "n < 10"; subst show_nat.simps) (simp_all add: setw0_def digit_char_0 show_nat.simps [of "n div 10"] numeral_2_eq_2)

lemma setw0_Suc:
  assumes "n < 10 ^ Suc w"
  shows "setw0 (Suc w) (show_nat n) = setw0 w (if n < 10 then [] else show_nat (n div 10)) @ [digit_char (n mod 10)]"
  using assms by (subst show_nat.simps) (auto simp: setw0_def)

lemma read_replicate_0 [simp]: "read_digits 0 (replicate k (CHR ''0'')) = 0"
  by (induction k) (simp_all add: digit_val_def)

lemma read_setw0 [simp]: "read_digits 0 (setw0 w (show_nat n)) = n"
  by (simp add: setw0_def)

lemma digits_setw0: "list_all isdigit s \<Longrightarrow> list_all isdigit (setw0 w s)"
  by (auto simp: setw0_def list_all_iff isdigit_def)

lemma length_setw0: "length s \<le> w \<Longrightarrow> length (setw0 w s) = w"
  by (simp add: setw0_def)

lemma setw0_read:
  "list_all isdigit ds \<Longrightarrow> 0 < length ds \<Longrightarrow> setw0 (length ds) (show_nat (read_digits 0 ds)) = ds"
proof (induction ds rule: rev_induct)
  case (snoc c cs)
  let ?n = "read_digits 0 cs"
  have c: "isdigit c" "list_all isdigit cs" using snoc.prems by simp_all
  have bound: "?n < 10 ^ length cs" using read_digits_bound [OF c(2), of 0] by simp
  have dv: "(?n * 10 + digit_val c) div 10 = ?n" "(?n * 10 + digit_val c) mod 10 = digit_val c"
    using digit_val_lt [OF c(1)] by simp_all
  have "?n * 10 + digit_val c < 10 ^ Suc (length cs)" using bound digit_val_lt [OF c(1)] by simp
  from setw0_Suc [OF this] have
    "setw0 (Suc (length cs)) (show_nat (?n * 10 + digit_val c)) =
      setw0 (length cs) (if ?n * 10 + digit_val c < 10 then [] else show_nat ?n) @ [c]"
    using dv digit_val_char [OF c(1)] by simp
  also have "setw0 (length cs) (if ?n * 10 + digit_val c < 10 then [] else show_nat ?n) = cs"
  proof (cases "cs = []")
    case False
    then have ih: "setw0 (length cs) (show_nat ?n) = cs" using snoc.IH c(2) by simp
    show ?thesis
    proof (cases "?n * 10 + digit_val c < 10")
      case True
      then have "?n = 0" by simp
      with ih have "setw0 (length cs) [digit_char 0] = cs" by (simp add: show_nat.simps)
      with True show ?thesis using False by (simp add: setw0_zero)
    qed (use ih in simp)
  qed (use digit_val_lt [OF c(1)] in \<open>simp add: setw0_def\<close>)
  finally show ?case by simp
qed simp

section \<open>Searching and numbers\<close>

text \<open>\<^verbatim>\<open>s.find(ch, pos)\<close>, with \<open>None\<close> for \<^verbatim>\<open>npos\<close>, and \<^verbatim>\<open>s.substr(pos, n)\<close> for \<^verbatim>\<open>pos <= s.size()\<close>.\<close>

definition find_char :: "char \<Rightarrow> string \<Rightarrow> nat \<Rightarrow> nat option" where
  "find_char ch s pos =
     (let k = pos + length (takeWhile (\<lambda>c. c \<noteq> ch) (drop pos s)) in if k < length s then Some k else None)"

definition substr :: "string \<Rightarrow> nat \<Rightarrow> nat \<Rightarrow> string" where
  "substr s pos n = take n (drop pos s)"

lemma takeWhile_notin: "ch \<notin> set a \<Longrightarrow> takeWhile (\<lambda>c. c \<noteq> ch) (a @ ch # b) = a"
  by (induction a) auto

lemma takeWhile_notin_all: "ch \<notin> set a \<Longrightarrow> takeWhile (\<lambda>c. c \<noteq> ch) a = a"
  by (induction a) auto

lemma find_char_Some: "ch \<notin> set a \<Longrightarrow> pos = length p \<Longrightarrow> find_char ch (p @ a @ ch # b) pos = Some (length p + length a)"
  by (simp add: find_char_def takeWhile_notin)

lemma find_char_None: "ch \<notin> set a \<Longrightarrow> pos = length p \<Longrightarrow> find_char ch (p @ a) pos = None"
  by (simp add: find_char_def takeWhile_notin_all)

lemmas find_char_Some0 = find_char_Some [of _ _ 0 "[]", simplified]
lemmas find_char_None0 = find_char_None [of _ _ 0 "[]", simplified]

text \<open>
  \<^verbatim>\<open>std::stoull(text)\<close>: leading white space and a sign are skipped, the longest run of digits is
  read, a value that does not fit throws, and a minus sign negates modulo \<open>2 ^ 64\<close>.
\<close>

definition stoull :: "string \<Rightarrow> exn + u64" where
  "stoull s =
     (let s = dropWhile isspace s;
          neg = (s \<noteq> [] \<and> hd s = CHR ''-'');
          s = (if s \<noteq> [] \<and> (hd s = CHR ''-'' \<or> hd s = CHR ''+'') then tl s else s);
          ds = takeWhile isdigit s
      in if ds = [] then Inl (Invalid_argument ''stoull'')
         else if read_digits 0 ds \<ge> 2 ^ 64 then Inl (Out_of_range ''stoull'')
         else Inr (if neg then - of_nat (read_digits 0 ds) else of_nat (read_digits 0 ds)))"

lemma isdigit_not: "isdigit c \<Longrightarrow> \<not> isspace c \<and> c \<noteq> CHR ''-'' \<and> c \<noteq> CHR ''+'' \<and> c \<noteq> CHR ''|'' \<and> c \<noteq> CHR '',''"
  by (auto simp: isdigit_def isspace_def)

lemma stoull_digits:
  assumes "list_all isdigit ds" "ds \<noteq> []"
  shows "stoull ds = (if read_digits 0 ds \<ge> 2 ^ 64 then Inl (Out_of_range ''stoull'') else Inr (of_nat (read_digits 0 ds)))"
proof -
  obtain d rest where ds: "ds = d # rest" using assms(2) by (cases ds) auto
  have d: "isdigit d" using assms(1) ds by simp
  have "dropWhile isspace ds = ds" "takeWhile isdigit ds = ds"
    using assms(1) isdigit_not [OF d] by (simp_all add: ds takeWhile_eq_all_conv list_all_iff)
  then show ?thesis using isdigit_not [OF d] ds by (simp add: stoull_def Let_def)
qed

lemma stoull_show: "stoull (show_nat (unat (w :: u64))) = Inr w"
proof -
  have "unat w < 2 ^ 64" by (rule order.strict_trans2 [OF unsigned_less]) simp
  then show ?thesis by (simp add: stoull_digits digits_show_nat not_le)
qed

lemma set_show_nat: "c \<in> set (show_nat n) \<Longrightarrow> isdigit c"
  using digits_show_nat [of n] by (simp add: list_all_iff)

end
