(* ===== verification/Column.thy ===== *)
theory Column
  imports Text_Lib
begin

text \<open>
  Columns, from \<^verbatim>\<open>src/src/catalog/column.cpp\<close> and \<^verbatim>\<open>src/include/catalog/column.hpp\<close>. A \<^verbatim>\<open>Column\<close> is the
  record of its private fields; a setter returns its \<^verbatim>\<open>bool\<close> result with the column it leaves;
  the constructor and the factory functions return the exception they throw or the column.

  The lemmas show which arguments the factories accept, that what they build is a valid column
  with the given fields, that the setters keep a column well formed, and that a column is
  rebuilt from the fields the catalog stores.
\<close>

section \<open>Data\<close>

datatype ColumnType =
  ty_null | ty_integer | ty_number | ty_character | ty_string | ty_varstring
| ty_date | ty_time | ty_datetime | ty_text

record Column =
  col_name :: string
  col_type :: ColumnType
  col_nullable :: bool
  col_max_size :: u16
  col_precision :: u8
  col_scale :: u8

definition VARIABLE_SIZE :: u16 where "VARIABLE_SIZE = 0"
definition INTEGER_SIZE :: u16 where "INTEGER_SIZE = 8"
definition NUMBER_SIZE :: u16 where "NUMBER_SIZE = 8"
definition CHAR_SIZE :: u16 where "CHAR_SIZE = 1"
definition DATE_SIZE :: u16 where "DATE_SIZE = 4"
definition TIME_SIZE :: u16 where "TIME_SIZE = 4"
definition DATETIME_SIZE :: u16 where "DATETIME_SIZE = 8"
definition VAR_POINTER_SIZE :: u16 where "VAR_POINTER_SIZE = 4"
definition STRING_MAX_SIZE :: u16 where "STRING_MAX_SIZE = 1024"
definition VARSTRING_MAX_SIZE :: u16 where "VARSTRING_MAX_SIZE = 1024"
definition TEXT_MAX_SIZE :: u16 where "TEXT_MAX_SIZE = 2048"
definition MAX_NUMBER_PRECISION :: u8 where "MAX_NUMBER_PRECISION = 18"

lemmas column_sizes = VARIABLE_SIZE_def INTEGER_SIZE_def NUMBER_SIZE_def CHAR_SIZE_def DATE_SIZE_def
  TIME_SIZE_def DATETIME_SIZE_def VAR_POINTER_SIZE_def STRING_MAX_SIZE_def VARSTRING_MAX_SIZE_def
  TEXT_MAX_SIZE_def MAX_NUMBER_PRECISION_def

section \<open>Operations\<close>

definition is_variable_type :: "ColumnType \<Rightarrow> bool" where
  "is_variable_type ty \<longleftrightarrow> ty = ty_varstring \<or> ty = ty_text"

primrec fixed_size :: "ColumnType \<Rightarrow> u16" where
  "fixed_size ty_null = VARIABLE_SIZE"
| "fixed_size ty_integer = INTEGER_SIZE"
| "fixed_size ty_number = NUMBER_SIZE"
| "fixed_size ty_character = CHAR_SIZE"
| "fixed_size ty_string = VARIABLE_SIZE"
| "fixed_size ty_varstring = VARIABLE_SIZE"
| "fixed_size ty_date = DATE_SIZE"
| "fixed_size ty_time = TIME_SIZE"
| "fixed_size ty_datetime = DATETIME_SIZE"
| "fixed_size ty_text = VARIABLE_SIZE"

definition is_valid_name :: "string \<Rightarrow> bool" where
  "is_valid_name name =
     (case name of [] \<Rightarrow> False
      | first # _ \<Rightarrow>
          if \<not> islower first \<and> first \<noteq> CHR ''_'' then False
          else list_all (\<lambda>ch. \<not> (\<not> islower ch \<and> \<not> isdigit ch \<and> ch \<noteq> CHR ''_'')) name)"

definition set_name :: "string \<Rightarrow> Column \<Rightarrow> bool \<times> Column" where
  "set_name name c = (if \<not> is_valid_name name then (False, c) else (True, c\<lparr>col_name := name\<rparr>))"

definition set_type :: "ColumnType \<Rightarrow> Column \<Rightarrow> Column" where
  "set_type ty c =
     (if ty = ty_null then c
      else let c = c\<lparr>col_type := ty\<rparr>
           in if \<not> is_variable_type ty \<and> ty \<noteq> ty_string then c\<lparr>col_max_size := fixed_size ty\<rparr>
              else if ty = ty_text then c\<lparr>col_max_size := TEXT_MAX_SIZE\<rparr>
              else c)"

definition set_nullable :: "bool \<Rightarrow> Column \<Rightarrow> Column" where
  "set_nullable nullable c = c\<lparr>col_nullable := nullable\<rparr>"

definition set_max_size :: "u16 \<Rightarrow> Column \<Rightarrow> bool \<times> Column" where
  "set_max_size max_size c =
     (if max_size = 0 then (False, c)
      else if col_type c = ty_string \<and> max_size > STRING_MAX_SIZE then (False, c)
      else if col_type c = ty_varstring \<and> max_size > VARSTRING_MAX_SIZE then (False, c)
      else if col_type c = ty_text \<and> max_size \<noteq> TEXT_MAX_SIZE then (False, c)
      else if \<not> is_variable_type (col_type c) \<and> col_type c \<noteq> ty_string \<and> max_size \<noteq> fixed_size (col_type c)
        then (False, c)
      else (True, c\<lparr>col_max_size := max_size\<rparr>))"

definition set_number_format :: "u8 \<Rightarrow> u8 \<Rightarrow> Column \<Rightarrow> bool \<times> Column" where
  "set_number_format precision scale c =
     (if col_type c \<noteq> ty_number
        then (precision = 0 \<and> scale = 0, c\<lparr>col_precision := 0, col_scale := 0\<rparr>)
      else if precision = 0 \<or> precision > MAX_NUMBER_PRECISION \<or> scale > precision then (False, c)
      else (True, c\<lparr>col_precision := precision, col_scale := scale\<rparr>))"

definition column_is_valid :: "Column \<Rightarrow> bool" where
  "column_is_valid c =
     (if \<not> is_valid_name (col_name c) \<or> col_max_size c = 0 \<or> col_type c = ty_null then False
      else if col_type c = ty_string then col_max_size c \<le> STRING_MAX_SIZE
      else if col_type c = ty_varstring then col_max_size c \<le> VARSTRING_MAX_SIZE
      else if col_type c = ty_text then col_max_size c = TEXT_MAX_SIZE
      else if col_type c = ty_number
        then col_max_size c = fixed_size (col_type c) \<and> col_precision c > 0 \<and>
             col_precision c \<le> MAX_NUMBER_PRECISION \<and> col_scale c \<le> col_precision c
      else col_max_size c = fixed_size (col_type c))"

primrec type_to_string :: "ColumnType \<Rightarrow> string" where
  "type_to_string ty_null = ''null''"
| "type_to_string ty_integer = ''integer''"
| "type_to_string ty_number = ''number''"
| "type_to_string ty_character = ''char''"
| "type_to_string ty_string = ''string''"
| "type_to_string ty_varstring = ''varstring''"
| "type_to_string ty_date = ''date''"
| "type_to_string ty_time = ''time''"
| "type_to_string ty_datetime = ''datetime''"
| "type_to_string ty_text = ''text''"

definition type_from_string :: "string \<Rightarrow> ColumnType option" where
  "type_from_string s =
     (if s = ''null'' then Some ty_null
      else if s = ''integer'' then Some ty_integer
      else if s = ''number'' then Some ty_number
      else if s = ''char'' then Some ty_character
      else if s = ''string'' then Some ty_string
      else if s = ''varstring'' then Some ty_varstring
      else if s = ''date'' then Some ty_date
      else if s = ''time'' then Some ty_time
      else if s = ''datetime'' then Some ty_datetime
      else if s = ''text'' then Some ty_text
      else None)"

section \<open>Construction\<close>

text \<open>The default member initialisers of the class.\<close>

definition column_default :: Column where
  "column_default = \<lparr>col_name = '''', col_type = ty_integer, col_nullable = False,
     col_max_size = INTEGER_SIZE, col_precision = 0, col_scale = 0\<rparr>"

definition column_new :: "string \<Rightarrow> ColumnType \<Rightarrow> bool \<Rightarrow> u16 \<Rightarrow> u8 \<Rightarrow> u8 \<Rightarrow> exn + Column" where
  "column_new name ty nullable max_size precision scale =
     (if ty = ty_null then Inl (Invalid_argument ''null_type cannot be used for a column'')
      else case set_name name column_default of
        (False, _) \<Rightarrow> Inl (Invalid_argument ''invalid column name'')
      | (True, c) \<Rightarrow>
        let c = set_nullable nullable (set_type ty c) in
        case set_max_size max_size c of
          (False, _) \<Rightarrow> Inl (Invalid_argument ''invalid column max_size'')
        | (True, c) \<Rightarrow>
          case set_number_format precision scale c of
            (False, _) \<Rightarrow> Inl (Invalid_argument ''invalid number format'')
          | (True, c) \<Rightarrow> Inr c)"

definition integer_column :: "string \<Rightarrow> bool \<Rightarrow> exn + Column" where
  "integer_column name nullable = column_new name ty_integer nullable (fixed_size ty_integer) 0 0"
definition number_column :: "string \<Rightarrow> bool \<Rightarrow> u8 \<Rightarrow> u8 \<Rightarrow> exn + Column" where
  "number_column name nullable precision scale =
     column_new name ty_number nullable (fixed_size ty_number) precision scale"
definition char_column :: "string \<Rightarrow> bool \<Rightarrow> exn + Column" where
  "char_column name nullable = column_new name ty_character nullable (fixed_size ty_character) 0 0"
definition string_column :: "string \<Rightarrow> bool \<Rightarrow> u16 \<Rightarrow> exn + Column" where
  "string_column name nullable sz = column_new name ty_string nullable sz 0 0"
definition varstring_column :: "string \<Rightarrow> bool \<Rightarrow> u16 \<Rightarrow> exn + Column" where
  "varstring_column name nullable max_size = column_new name ty_varstring nullable max_size 0 0"
definition date_column :: "string \<Rightarrow> bool \<Rightarrow> exn + Column" where
  "date_column name nullable = column_new name ty_date nullable (fixed_size ty_date) 0 0"
definition time_column :: "string \<Rightarrow> bool \<Rightarrow> exn + Column" where
  "time_column name nullable = column_new name ty_time nullable (fixed_size ty_time) 0 0"
definition datetime_column :: "string \<Rightarrow> bool \<Rightarrow> exn + Column" where
  "datetime_column name nullable = column_new name ty_datetime nullable (fixed_size ty_datetime) 0 0"
definition text_column :: "string \<Rightarrow> bool \<Rightarrow> exn + Column" where
  "text_column name nullable = column_new name ty_text nullable TEXT_MAX_SIZE 0 0"

definition from_catalog :: "string \<Rightarrow> ColumnType \<Rightarrow> bool \<Rightarrow> u16 \<Rightarrow> u8 \<Rightarrow> u8 \<Rightarrow> exn + Column" where
  "from_catalog name ty nullable max_size precision scale =
     (case ty of
        ty_integer \<Rightarrow> if max_size \<noteq> fixed_size ty then Inl (Invalid_argument ''invalid integer column max_size'')
                      else integer_column name nullable
      | ty_number \<Rightarrow> if max_size \<noteq> fixed_size ty then Inl (Invalid_argument ''invalid number column max_size'')
                     else number_column name nullable precision scale
      | ty_character \<Rightarrow> if max_size \<noteq> fixed_size ty then Inl (Invalid_argument ''invalid char column max_size'')
                        else char_column name nullable
      | ty_string \<Rightarrow> string_column name nullable max_size
      | ty_varstring \<Rightarrow> varstring_column name nullable max_size
      | ty_date \<Rightarrow> if max_size \<noteq> fixed_size ty then Inl (Invalid_argument ''invalid date column max_size'')
                   else date_column name nullable
      | ty_time \<Rightarrow> if max_size \<noteq> fixed_size ty then Inl (Invalid_argument ''invalid time column max_size'')
                   else time_column name nullable
      | ty_datetime \<Rightarrow> if max_size \<noteq> fixed_size ty then Inl (Invalid_argument ''invalid datetime column max_size'')
                       else datetime_column name nullable
      | ty_text \<Rightarrow> if max_size \<noteq> TEXT_MAX_SIZE then Inl (Invalid_argument ''invalid text column max_size'')
                   else text_column name nullable
      | ty_null \<Rightarrow> Inl (Invalid_argument ''invalid column type''))"

definition from_catalog_no_format :: "string \<Rightarrow> ColumnType \<Rightarrow> bool \<Rightarrow> u16 \<Rightarrow> exn + Column" where
  "from_catalog_no_format name ty nullable max_size = from_catalog name ty nullable max_size 0 0"

section \<open>Well-formed columns\<close>

text \<open>
  What the constructor establishes: \<^verbatim>\<open>Column::is_valid\<close>, and no number format on a column of
  another type, which \<^verbatim>\<open>is_valid\<close> does not look at.
\<close>

definition column_wf :: "Column \<Rightarrow> bool" where
  "column_wf c \<longleftrightarrow> column_is_valid c \<and> (col_type c \<noteq> ty_number \<longrightarrow> col_precision c = 0 \<and> col_scale c = 0)"

lemmas column_ops = set_name_def set_type_def set_nullable_def set_max_size_def set_number_format_def
  column_is_valid_def is_variable_type_def Let_def

lemma type_from_to_string [simp]: "type_from_string (type_to_string ty) = Some ty"
  by (cases ty) (simp_all add: type_from_string_def)

lemma type_to_from_string: "type_from_string s = Some ty \<Longrightarrow> type_to_string ty = s"
  by (auto simp: type_from_string_def split: if_splits)

definition mk_column :: "string \<Rightarrow> ColumnType \<Rightarrow> bool \<Rightarrow> u16 \<Rightarrow> u8 \<Rightarrow> u8 \<Rightarrow> Column" where
  "mk_column name ty nullable max_size precision scale =
     \<lparr>col_name = name, col_type = ty, col_nullable = nullable, col_max_size = max_size,
      col_precision = precision, col_scale = scale\<rparr>"

lemma mk_column_sel [simp]:
  "col_name (mk_column n ty nl sz p s) = n" "col_type (mk_column n ty nl sz p s) = ty"
  "col_nullable (mk_column n ty nl sz p s) = nl" "col_max_size (mk_column n ty nl sz p s) = sz"
  "col_precision (mk_column n ty nl sz p s) = p" "col_scale (mk_column n ty nl sz p s) = s"
  "mk_column (col_name c) (col_type c) (col_nullable c) (col_max_size c) (col_precision c) (col_scale c) = c"
  by (simp_all add: mk_column_def)

lemma column_new_accepts:
  "column_wf (mk_column name ty nullable sz p s) \<Longrightarrow> column_new name ty nullable sz p s = Inr (mk_column name ty nullable sz p s)"
  by (cases ty) (simp_all add: column_wf_def column_is_valid_def column_new_def column_ops column_default_def column_sizes not_less word_gt_0 mk_column_def split: if_splits bool.splits)

lemma column_new_rejects:
  "column_new name ty nullable sz p s = Inr c \<Longrightarrow> column_wf (mk_column name ty nullable sz p s)"
  by (cases ty) (simp_all add: column_wf_def column_new_def column_ops column_default_def column_sizes word_gt_0 not_less split: if_splits bool.splits)

lemma column_new_iff:
  "column_new name ty nullable sz p s = Inr c \<longleftrightarrow>
     c = mk_column name ty nullable sz p s \<and> column_wf c"
  using column_new_accepts column_new_rejects by (metis sum.inject(2))

lemma from_catalog_iff:
  "from_catalog name ty nullable sz p s = Inr c \<longleftrightarrow>
     c = mk_column name ty nullable sz (if ty = ty_number then p else 0) (if ty = ty_number then s else 0) \<and> column_wf c"
proof (cases "ty = ty_null")
  case False
  then show ?thesis
    by (cases ty) (auto simp: from_catalog_def integer_column_def number_column_def char_column_def string_column_def
      varstring_column_def date_column_def time_column_def datetime_column_def text_column_def column_new_iff
      column_wf_def column_is_valid_def)
qed (auto simp: from_catalog_def column_wf_def column_is_valid_def)

text \<open>The setters, on a column of the class.\<close>

lemma column_setters_wf:
  assumes "column_wf c"
  shows "column_wf (snd (set_name n c))" "column_wf (set_nullable b c)" "column_wf (snd (set_max_size sz c))"
    "column_wf (snd (set_number_format p s c))"
proof -
  show "column_wf (snd (set_name n c))" "column_wf (set_nullable b c)" "column_wf (snd (set_max_size sz c))"
    using assms by (cases "col_type c"; simp add: column_wf_def column_ops column_sizes not_less split: if_splits)+
  show "column_wf (snd (set_number_format p s c))"
    using assms by (cases "col_type c"; simp add: column_wf_def column_ops column_sizes not_less word_gt_0 split: if_splits)
qed

section \<open>Properties\<close>

text \<open>
  C8. A column is built exactly when it is well formed: \<^verbatim>\<open>Column::from_catalog\<close> returns a column if
  and only if the column with the given fields (a number format only where the type is
  \<^verbatim>\<open>NUMBER\<close>) is valid, and then returns that column; so every valid column is rebuilt from the
  fields the catalog stores, its type name included.\<close>

theorem from_catalog_exact:
  "(from_catalog name ty nullable sz p s = Inr c \<longleftrightarrow>
     c = mk_column name ty nullable sz (if ty = ty_number then p else 0) (if ty = ty_number then s else 0) \<and> column_is_valid c) \<and>
   (column_wf c \<longrightarrow> type_from_string (type_to_string (col_type c)) = Some (col_type c) \<and>
     from_catalog (col_name c) (col_type c) (col_nullable c) (col_max_size c) (col_precision c) (col_scale c) = Inr c)"
proof
  show "from_catalog name ty nullable sz p s = Inr c \<longleftrightarrow>
     c = mk_column name ty nullable sz (if ty = ty_number then p else 0) (if ty = ty_number then s else 0) \<and> column_is_valid c"
    unfolding from_catalog_iff by (auto simp: column_wf_def)
qed (auto simp: from_catalog_iff column_wf_def)

theorem from_catalog_exact_witness:
  "from_catalog ''price'' ty_number False 8 10 2 = Inr (mk_column ''price'' ty_number False 8 10 2)"
proof -
  have "column_wf (mk_column ''price'' ty_number False 8 10 2)" by code_simp
  then show ?thesis using from_catalog_exact [where c = "mk_column ''price'' ty_number False 8 10 2"] by simp
qed

end
