(* ===== verification/Schema.thy ===== *)
theory Schema
  imports Column
begin

text \<open>
  Table schemas, from \<^verbatim>\<open>src/src/catalog/schema.cpp\<close>: constraints and index definitions with their
  one-line text form, and the class \<^verbatim>\<open>Schema\<close> with its validating setters.

  The lemmas show exactly which constraint and index definitions survive the text form, that
  the setters accept exactly the well-formed definitions, and that a constructed schema is
  well formed.
\<close>

section \<open>Data\<close>

datatype TableStorageMode = disk_storage | memory_storage

record ConstraintDefinition =
  con_id :: u64
  con_kind :: string
  con_columns :: "string list"
  con_args :: "string list"

record IndexDefinition =
  idx_id :: u64
  idx_name :: string
  idx_columns :: "string list"
  idx_unique :: bool

record Schema =
  table_name :: string
  columns :: "Column list"
  constraints :: "ConstraintDefinition list"
  indexes :: "IndexDefinition list"
  storage_mode :: TableStorageMode

definition MAX_COLUMNS :: nat where "MAX_COLUMNS = 991"

section \<open>Constraints and index definitions\<close>

definition constraint_default :: ConstraintDefinition where
  "constraint_default = \<lparr>con_id = 0, con_kind = '''', con_columns = [], con_args = []\<rparr>"

definition make_primary_key :: "u64 \<Rightarrow> string list \<Rightarrow> ConstraintDefinition" where
  "make_primary_key cid cols = constraint_default\<lparr>con_id := cid, con_kind := ''primary_key'', con_columns := cols\<rparr>"

definition make_unique :: "u64 \<Rightarrow> string list \<Rightarrow> ConstraintDefinition" where
  "make_unique cid cols = constraint_default\<lparr>con_id := cid, con_kind := ''unique'', con_columns := cols\<rparr>"

definition make_foreign_key :: "u64 \<Rightarrow> string list \<Rightarrow> string \<Rightarrow> string \<Rightarrow> ConstraintDefinition" where
  "make_foreign_key cid cols referenced_table referenced_column =
     constraint_default\<lparr>con_id := cid, con_kind := ''foreign_key'', con_columns := cols,
       con_args := [referenced_table, referenced_column]\<rparr>"

definition make_check :: "u64 \<Rightarrow> string list \<Rightarrow> ConstraintDefinition" where
  "make_check cid parts = constraint_default\<lparr>con_id := cid, con_kind := ''check'', con_args := parts\<rparr>"

definition make_index :: "u64 \<Rightarrow> string \<Rightarrow> string list \<Rightarrow> bool \<Rightarrow> IndexDefinition" where
  "make_index iid name cols uniq = \<lparr>idx_id = iid, idx_name = name, idx_columns = cols, idx_unique = uniq\<rparr>"

text \<open>\<open>split_csv_loop parts current text\<close> is the loop of \<^verbatim>\<open>split_csv\<close> with the rest of the text.\<close>

fun split_csv_loop :: "string list \<Rightarrow> string \<Rightarrow> string \<Rightarrow> string list" where
  "split_csv_loop parts current [] = (if current \<noteq> [] then parts @ [current] else parts)"
| "split_csv_loop parts current (ch # cs) =
     (if ch = CHR '','' then
        (if current \<noteq> [] then split_csv_loop (parts @ [current]) [] cs else split_csv_loop parts current cs)
      else split_csv_loop parts (current @ [ch]) cs)"

definition split_csv :: "string \<Rightarrow> string list" where
  "split_csv s = (if s = [] then [] else split_csv_loop [] [] s)"

fun join_csv :: "string list \<Rightarrow> string" where
  "join_csv [] = ''''"
| "join_csv [x] = x"
| "join_csv (x # y # xs) = x @ '','' @ join_csv (y # xs)"

definition constraint_serialized :: "ConstraintDefinition \<Rightarrow> string" where
  "constraint_serialized c =
     show_nat (unat (con_id c)) @ ''|'' @ con_kind c @
     (if con_columns c \<noteq> [] then ''|'' @ join_csv (con_columns c) else '''') @
     (if con_args c \<noteq> [] then ''|'' @ join_csv (con_args c) else '''')"

definition constraint_from_serialized :: "string \<Rightarrow> exn + ConstraintDefinition" where
  "constraint_from_serialized s =
     (let c = constraint_default in
      case find_char (CHR ''|'') s 0 of
        None \<Rightarrow> Inr c
      | Some first \<Rightarrow>
        let id_text = substr s 0 first in
        bindE (if id_text \<noteq> [] then stoull id_text else Inr 0) (\<lambda>cid.
        let c = c\<lparr>con_id := cid\<rparr> in
        case find_char (CHR ''|'') s (first + 1) of
          None \<Rightarrow> Inr (c\<lparr>con_kind := drop (first + 1) s\<rparr>)
        | Some second \<Rightarrow>
          let c = c\<lparr>con_kind := substr s (first + 1) (second - first - 1)\<rparr>;
              remaining = drop (second + 1) s in
          case find_char (CHR ''|'') remaining 0 of
            None \<Rightarrow>
              Inr (if con_kind c = ''check'' then c\<lparr>con_args := split_csv remaining\<rparr>
                   else c\<lparr>con_columns := split_csv remaining\<rparr>)
          | Some third \<Rightarrow>
            let columns_text = substr remaining 0 third;
                args_text = drop (third + 1) remaining;
                c = (if columns_text \<noteq> [] then c\<lparr>con_columns := split_csv columns_text\<rparr> else c);
                c = (if args_text \<noteq> [] then c\<lparr>con_args := split_csv args_text\<rparr> else c)
            in Inr (if con_kind c = ''check'' \<and> con_columns c = []
                    then c\<lparr>con_args := split_csv remaining, con_columns := []\<rparr> else c)))"

definition index_serialized :: "IndexDefinition \<Rightarrow> string" where
  "index_serialized i =
     show_nat (unat (idx_id i)) @ ''|'' @ idx_name i @ ''|'' @ (if idx_unique i then ''1'' else ''0'') @ ''|'' @
     join_csv (idx_columns i)"

definition index_default :: IndexDefinition where
  "index_default = \<lparr>idx_id = 0, idx_name = '''', idx_columns = [], idx_unique = False\<rparr>"

definition index_from_serialized :: "string \<Rightarrow> exn + IndexDefinition" where
  "index_from_serialized s =
     (case find_char (CHR ''|'') s 0 of None \<Rightarrow> Inr index_default
      | Some first \<Rightarrow>
        case find_char (CHR ''|'') s (first + 1) of None \<Rightarrow> Inr index_default
        | Some second \<Rightarrow>
          case find_char (CHR ''|'') s (second + 1) of None \<Rightarrow> Inr index_default
          | Some third \<Rightarrow>
            bindE (stoull (substr s 0 first)) (\<lambda>iid.
            Inr \<lparr>idx_id = iid, idx_name = substr s (first + 1) (second - first - 1),
                 idx_columns = split_csv (drop (third + 1) s),
                 idx_unique = (substr s (second + 1) (third - second - 1) = ''1'')\<rparr>))"

section \<open>The class \<^verbatim>\<open>Schema\<close>\<close>

text \<open>The nested loops over \<open>i\<close> and \<open>j > i\<close> are recursion over the list and its tails.\<close>

fun columns_distinct_valid :: "Column list \<Rightarrow> bool" where
  "columns_distinct_valid [] = True"
| "columns_distinct_valid (c # cs) =
     (if \<not> column_is_valid c then False
      else if list_ex (\<lambda>d. col_name c = col_name d) cs then False
      else columns_distinct_valid cs)"

definition are_valid_columns :: "Column list \<Rightarrow> bool" where
  "are_valid_columns cs = (if cs = [] \<or> length cs > MAX_COLUMNS then False else columns_distinct_valid cs)"

definition is_valid_constraint_name :: "string \<Rightarrow> bool" where
  "is_valid_constraint_name kind \<longleftrightarrow>
     kind = ''primary_key'' \<or> kind = ''unique'' \<or> kind = ''foreign_key'' \<or> kind = ''check''"

fun column_index_from :: "int \<Rightarrow> Column list \<Rightarrow> string \<Rightarrow> int" where
  "column_index_from i [] name = -1"
| "column_index_from i (c # cs) name = (if col_name c = name then i else column_index_from (i + 1) cs name)"

definition column_index :: "Schema \<Rightarrow> string \<Rightarrow> int" where
  "column_index s name = column_index_from 0 (columns s) name"

definition schema_column :: "Schema \<Rightarrow> u16 \<Rightarrow> Column option" where
  "schema_column s i = (if unat i \<ge> length (columns s) then None else Some (columns s ! unat i))"

definition find_column :: "Schema \<Rightarrow> string \<Rightarrow> Column option" where
  "find_column s name =
     (let i = column_index s name in if i < 0 then None else Some (columns s ! nat i))"

definition column_count :: "Schema \<Rightarrow> u16" where
  "column_count s = of_nat (length (columns s))"

definition is_valid_table_name :: "string \<Rightarrow> bool" where
  "is_valid_table_name name = is_valid_name name"

definition set_table_name :: "string \<Rightarrow> Schema \<Rightarrow> bool \<times> Schema" where
  "set_table_name name s = (if \<not> is_valid_table_name name then (False, s) else (True, s\<lparr>table_name := name\<rparr>))"

definition set_columns :: "Column list \<Rightarrow> Schema \<Rightarrow> bool \<times> Schema" where
  "set_columns cs s = (if \<not> are_valid_columns cs then (False, s) else (True, s\<lparr>columns := cs\<rparr>))"

text \<open>One pass of the loop body of \<^verbatim>\<open>set_constraints\<close>; \<open>rest\<close> are the constraints after \<open>c\<close>.\<close>

fun constraints_ok :: "Schema \<Rightarrow> bool \<Rightarrow> ConstraintDefinition list \<Rightarrow> bool" where
  "constraints_ok s has_pk [] = True"
| "constraints_ok s has_pk (c # rest) =
     (if \<not> is_valid_constraint_name (con_kind c) \<or> con_id c = 0 then False
      else if list_ex (\<lambda>d. con_id c = con_id d) rest then False
      else if (con_kind c = ''primary_key'' \<or> con_kind c = ''unique'') \<and>
              (con_columns c = [] \<or> con_kind c = ''primary_key'' \<and> has_pk \<or>
               list_ex (\<lambda>n. column_index s n < 0) (con_columns c)) then False
      else if con_kind c = ''foreign_key'' \<and>
              (length (con_columns c) \<noteq> 1 \<or> length (con_args c) \<noteq> 2 \<or>
               con_args c ! 0 = [] \<or> con_args c ! 1 = [] \<or> column_index s (con_columns c ! 0) < 0) then False
      else if con_kind c = ''check'' \<and>
              (length (con_args c) \<noteq> 3 \<or> column_index s (con_args c ! 0) < 0) then False
      else constraints_ok s (has_pk \<or> con_kind c = ''primary_key'') rest)"

definition set_constraints :: "ConstraintDefinition list \<Rightarrow> Schema \<Rightarrow> bool \<times> Schema" where
  "set_constraints cs s = (if constraints_ok s False cs then (True, s\<lparr>constraints := cs\<rparr>) else (False, s))"

fun indexes_ok :: "Schema \<Rightarrow> IndexDefinition list \<Rightarrow> bool" where
  "indexes_ok s [] = True"
| "indexes_ok s (i # rest) =
     (if idx_id i = 0 \<or> \<not> is_valid_name (idx_name i) \<or> length (idx_columns i) \<noteq> 1 then False
      else if column_index s (idx_columns i ! 0) < 0 then False
      else if list_ex (\<lambda>j. idx_id i = idx_id j \<or> idx_name i = idx_name j) rest then False
      else indexes_ok s rest)"

definition set_indexes :: "IndexDefinition list \<Rightarrow> Schema \<Rightarrow> bool \<times> Schema" where
  "set_indexes is s = (if indexes_ok s is then (True, s\<lparr>indexes := is\<rparr>) else (False, s))"

definition set_storage_mode :: "TableStorageMode \<Rightarrow> Schema \<Rightarrow> bool \<times> Schema" where
  "set_storage_mode m s = (True, s\<lparr>storage_mode := m\<rparr>)"

definition schema_is_valid :: "Schema \<Rightarrow> bool" where
  "schema_is_valid s = (if \<not> is_valid_table_name (table_name s) then False else are_valid_columns (columns s))"

definition schema_default :: Schema where
  "schema_default = \<lparr>table_name = '''', columns = [], constraints = [], indexes = [], storage_mode = disk_storage\<rparr>"

definition schema_new ::
  "string \<Rightarrow> Column list \<Rightarrow> ConstraintDefinition list \<Rightarrow> IndexDefinition list \<Rightarrow> TableStorageMode \<Rightarrow> exn + Schema" where
  "schema_new name cols cons idxs mode =
     (case set_table_name name schema_default of (False, _) \<Rightarrow> Inl (Invalid_argument ''invalid table name'')
      | (True, s) \<Rightarrow>
      case set_columns cols s of (False, _) \<Rightarrow> Inl (Invalid_argument ''invalid schema columns'')
      | (True, s) \<Rightarrow>
      case set_constraints cons s of (False, _) \<Rightarrow> Inl (Invalid_argument ''invalid schema constraints'')
      | (True, s) \<Rightarrow>
      case set_indexes idxs s of (False, _) \<Rightarrow> Inl (Invalid_argument ''invalid schema indexes'')
      | (True, s) \<Rightarrow>
      case set_storage_mode mode s of (False, _) \<Rightarrow> Inl (Invalid_argument ''invalid storage mode'')
      | (True, s) \<Rightarrow> Inr s)"

section \<open>Text form\<close>

definition field_ok :: "string \<Rightarrow> bool" where
  "field_ok s \<longleftrightarrow> s \<noteq> [] \<and> CHR '','' \<notin> set s \<and> CHR ''|'' \<notin> set s"

lemma valid_name_field_ok: "is_valid_name s \<Longrightarrow> field_ok s"
  by (cases s) (auto simp: is_valid_name_def field_ok_def list_all_iff islower_def isdigit_def split: if_splits)

lemma split_csv_loop_field:
  "CHR '','' \<notin> set f \<Longrightarrow> split_csv_loop parts current (f @ rest) = split_csv_loop parts (current @ f) rest"
  by (induction f arbitrary: current) auto

lemma split_csv_loop_join:
  "xs \<noteq> [] \<Longrightarrow> list_all field_ok xs \<Longrightarrow> split_csv_loop parts [] (join_csv xs) = parts @ xs"
proof (induction xs arbitrary: parts rule: join_csv.induct)
  case (2 x) then show ?case using split_csv_loop_field [of x parts "[]" "[]"] by (simp add: field_ok_def)
next
  case (3 x y ys)
  then have "split_csv_loop parts [] (x @ '','' @ join_csv (y # ys)) = split_csv_loop (parts @ [x]) [] (join_csv (y # ys))"
    using split_csv_loop_field [of x parts "[]"] by (simp add: field_ok_def)
  then show ?case using 3 by simp
qed simp

lemma join_csv_eq_Nil: "list_all field_ok xs \<Longrightarrow> join_csv xs = [] \<longleftrightarrow> xs = []"
  by (induction xs rule: join_csv.induct) (auto simp: field_ok_def)

lemma split_join_csv: "list_all field_ok xs \<Longrightarrow> split_csv (join_csv xs) = xs"
  by (auto simp: split_csv_def join_csv_eq_Nil split_csv_loop_join)

lemma bar_notin_join: "list_all field_ok xs \<Longrightarrow> CHR ''|'' \<notin> set (join_csv xs)"
  by (induction xs rule: join_csv.induct) (auto simp: field_ok_def)

lemma bar_notin_show [simp]: "CHR ''|'' \<notin> set (show_nat n)"
  using set_show_nat isdigit_not by blast

text \<open>
  The constraints the text form keeps: fields without separators, and no list that would be
  read into the place of the other one.
\<close>

definition constraint_text_ok :: "ConstraintDefinition \<Rightarrow> bool" where
  "constraint_text_ok c \<longleftrightarrow>
     CHR ''|'' \<notin> set (con_kind c) \<and> list_all field_ok (con_columns c) \<and> list_all field_ok (con_args c) \<and>
     (if con_kind c = ''check'' then con_columns c = [] \<or> con_args c \<noteq> [] else con_args c = [] \<or> con_columns c \<noteq> [])"

lemma find_bar_1: "CHR ''|'' \<notin> set a \<Longrightarrow> find_char (CHR ''|'') (a @ CHR ''|'' # b) 0 = Some (length a)"
  using find_char_Some [of "CHR ''|''" a 0 "[]" b] by simp

lemma find_bar_2:
  "CHR ''|'' \<notin> set k \<Longrightarrow> find_char (CHR ''|'') (a @ CHR ''|'' # k @ CHR ''|'' # b) (Suc (length a)) = Some (Suc (length a + length k))"
  "CHR ''|'' \<notin> set k \<Longrightarrow> find_char (CHR ''|'') (a @ CHR ''|'' # k) (Suc (length a)) = None"
  using find_char_Some [of "CHR ''|''" k "Suc (length a)" "a @ ''|''" b]
    find_char_None [of "CHR ''|''" k "Suc (length a)" "a @ ''|''"] by simp_all

lemma find_bar_none: "CHR ''|'' \<notin> set a \<Longrightarrow> find_char (CHR ''|'') a 0 = None"
  using find_char_None [of "CHR ''|''" a 0 "[]"] by simp

lemma constraint_text_roundtrip:
  assumes "constraint_text_ok c"
  shows "constraint_from_serialized (constraint_serialized c) = Inr c"
proof -
  note ok = assms [unfolded constraint_text_ok_def]
  note rules = constraint_from_serialized_def constraint_serialized_def Let_def substr_def stoull_show
    find_bar_1 find_bar_2 find_bar_none constraint_default_def split_join_csv bar_notin_join join_csv_eq_Nil
  consider "con_columns c = []" "con_args c = []" | "con_columns c = []" "con_args c \<noteq> []"
    | "con_columns c \<noteq> []" "con_args c = []" | "con_columns c \<noteq> []" "con_args c \<noteq> []" by blast
  then show ?thesis
    using ok by cases (auto simp: rules split: if_splits)
qed

lemma index_text_roundtrip:
  assumes "CHR ''|'' \<notin> set (idx_name i)" "list_all field_ok (idx_columns i)"
  shows "index_from_serialized (index_serialized i) = Inr i"
proof -
  let ?u = "if idx_unique i then ''1'' else ''0''"
  have u: "CHR ''|'' \<notin> set ?u" by simp
  let ?p = "show_nat (unat (idx_id i)) @ ''|'' @ idx_name i"
  have s: "index_serialized i = ?p @ CHR ''|'' # ?u @ CHR ''|'' # join_csv (idx_columns i)"
    by (simp add: index_serialized_def)
  show ?thesis
    unfolding index_from_serialized_def s
    using assms find_bar_1 [of "show_nat (unat (idx_id i))"] find_bar_2(1) [OF assms(1)] find_bar_2(1) [OF u, of ?p]
    by (cases "idx_unique i") (simp_all add: substr_def stoull_show split_join_csv eval_nat_numeral)
qed

section \<open>Lookup and validation\<close>

lemma column_index_from_cases:
  "(name \<notin> col_name ` set cs \<and> column_index_from i cs name = -1) \<or>
   (\<exists>k<length cs. column_index_from i cs name = i + int k \<and> col_name (cs ! k) = name \<and> (\<forall>j<k. col_name (cs ! j) \<noteq> name))"
proof (induction cs arbitrary: i)
  case (Cons c cs)
  show ?case
  proof (cases "col_name c = name")
    case False
    from Cons [of "i + 1"] show ?thesis
    proof (elim disjE exE conjE)
      fix k assume "k < length cs" "column_index_from (i + 1) cs name = i + 1 + int k" "col_name (cs ! k) = name"
        "\<forall>j<k. col_name (cs ! j) \<noteq> name"
      then show ?thesis using False by (intro disjI2 exI [of _ "Suc k"]) (auto simp: less_Suc_eq_0_disj)
    qed (use False in auto)
  qed (auto intro!: exI [of _ 0])
qed simp

lemma column_index_neg_iff: "column_index s name < 0 \<longleftrightarrow> name \<notin> col_name ` set (columns s)"
  using column_index_from_cases [of name "columns s" 0] by (auto simp: column_index_def)

lemma find_column_iff:
  assumes "distinct (map col_name (columns s))"
  shows "find_column s name = Some c \<longleftrightarrow> c \<in> set (columns s) \<and> col_name c = name"
proof (cases "column_index s name < 0")
  case True then show ?thesis by (auto simp: find_column_def column_index_neg_iff)
next
  case False
  then obtain k where k: "k < length (columns s)" "column_index s name = int k" "col_name (columns s ! k) = name"
    using column_index_from_cases [of name "columns s" 0] by (auto simp: column_index_def)
  then have f: "find_column s name = Some (columns s ! k)" "columns s ! k \<in> set (columns s)" by (simp_all add: find_column_def)
  have "c = columns s ! k" if "c \<in> set (columns s)" "col_name c = name"
    using assms that f(2) k(3) by (metis distinct_map inj_onD)
  then show ?thesis using f k(3) by auto
qed

lemma are_valid_columns_iff:
  "are_valid_columns cs \<longleftrightarrow> cs \<noteq> [] \<and> length cs \<le> 991 \<and> (\<forall>c\<in>set cs. column_is_valid c) \<and> distinct (map col_name cs)"
proof -
  have "columns_distinct_valid cs \<longleftrightarrow> (\<forall>c\<in>set cs. column_is_valid c) \<and> distinct (map col_name cs)"
    by (induction cs) (auto simp: list_ex_iff image_iff)
  then show ?thesis by (auto simp: are_valid_columns_def MAX_COLUMNS_def)
qed

text \<open>What a single constraint has to satisfy in a schema.\<close>

definition constraint_wf :: "Schema \<Rightarrow> ConstraintDefinition \<Rightarrow> bool" where
  "constraint_wf s c \<longleftrightarrow> con_id c \<noteq> 0 \<and>
     (let known = (\<lambda>n. n \<in> col_name ` set (columns s)) in
      (con_kind c = ''primary_key'' \<or> con_kind c = ''unique'') \<and> con_columns c \<noteq> [] \<and> (\<forall>n\<in>set (con_columns c). known n) \<or>
      con_kind c = ''foreign_key'' \<and>
        (\<exists>n t r. con_columns c = [n] \<and> known n \<and> con_args c = [t, r] \<and> t \<noteq> [] \<and> r \<noteq> []) \<or>
      con_kind c = ''check'' \<and> (\<exists>n oper v. con_args c = [n, oper, v] \<and> known n))"

lemma length_1_nth: "length xs = Suc 0 \<longleftrightarrow> (\<exists>x. xs = [x])"
  and length_2_nth: "length xs = 2 \<longleftrightarrow> (\<exists>x y. xs = [x, y])"
  and length_3_nth: "length xs = 3 \<longleftrightarrow> (\<exists>x y z. xs = [x, y, z])"
  by (auto simp: length_Suc_conv numeral_eq_Suc)

lemma constraints_ok_iff:
  "constraints_ok s has_pk cs \<longleftrightarrow>
     (\<forall>c\<in>set cs. constraint_wf s c) \<and> distinct (map con_id cs) \<and>
     length (filter (\<lambda>c. con_kind c = ''primary_key'') cs) \<le> (if has_pk then 0 else 1)"
proof (induction s has_pk cs rule: constraints_ok.induct)
  case (2 s has_pk c rest)
  have ids: "list_ex (\<lambda>d. con_id c = con_id d) rest \<longleftrightarrow> con_id c \<in> con_id ` set rest" by (auto simp: list_ex_iff)
  have cols: "list_ex (\<lambda>n. column_index s n < 0) (con_columns c) \<longleftrightarrow> \<not> (\<forall>n\<in>set (con_columns c). n \<in> col_name ` set (columns s))"
    by (auto simp: list_ex_iff column_index_neg_iff)
  consider "con_kind c = ''primary_key''" | "con_kind c = ''unique''" | "con_kind c = ''foreign_key''" | "con_kind c = ''check''"
    | "\<not> is_valid_constraint_name (con_kind c)" by (auto simp: is_valid_constraint_name_def)
  then show ?case
  proof cases
    case 1 then show ?thesis using "2.IH" unfolding constraints_ok.simps cols ids
      by (auto simp: constraint_wf_def is_valid_constraint_name_def Let_def)
  next case 2 then show ?thesis using "2.IH" unfolding constraints_ok.simps cols ids
      by (auto simp: constraint_wf_def is_valid_constraint_name_def Let_def)
  next case 3 then show ?thesis using "2.IH" unfolding constraints_ok.simps cols ids column_index_neg_iff
      by (auto simp: constraint_wf_def is_valid_constraint_name_def Let_def length_1_nth length_2_nth)
  next case 4 then show ?thesis using "2.IH" unfolding constraints_ok.simps cols ids column_index_neg_iff
      by (auto simp: constraint_wf_def is_valid_constraint_name_def Let_def length_3_nth)
  next case 5 then show ?thesis by (auto simp: constraint_wf_def is_valid_constraint_name_def Let_def)
  qed
qed simp

definition index_wf :: "Schema \<Rightarrow> IndexDefinition \<Rightarrow> bool" where
  "index_wf s i \<longleftrightarrow> idx_id i \<noteq> 0 \<and> is_valid_name (idx_name i) \<and> (\<exists>n. idx_columns i = [n] \<and> n \<in> col_name ` set (columns s))"

lemma indexes_ok_iff:
  "indexes_ok s is \<longleftrightarrow> (\<forall>i\<in>set is. index_wf s i) \<and> distinct (map idx_id is) \<and> distinct (map idx_name is)"
proof (induction s "is" rule: indexes_ok.induct)
  case (2 s i rest)
  have "list_ex (\<lambda>j. idx_id i = idx_id j \<or> idx_name i = idx_name j) rest \<longleftrightarrow>
      idx_id i \<in> idx_id ` set rest \<or> idx_name i \<in> idx_name ` set rest" by (auto simp: list_ex_iff)
  with 2 show ?case by (auto simp: index_wf_def column_index_neg_iff length_1_nth)
qed simp

text \<open>A well-formed schema: what the constructor establishes.\<close>

definition schema_wf :: "Schema \<Rightarrow> bool" where
  "schema_wf s \<longleftrightarrow>
     is_valid_name (table_name s) \<and>
     columns s \<noteq> [] \<and> length (columns s) \<le> 991 \<and> (\<forall>c\<in>set (columns s). column_is_valid c) \<and> distinct (map col_name (columns s)) \<and>
     (\<forall>c\<in>set (constraints s). constraint_wf s c) \<and> distinct (map con_id (constraints s)) \<and>
     length (filter (\<lambda>c. con_kind c = ''primary_key'') (constraints s)) \<le> 1 \<and>
     (\<forall>i\<in>set (indexes s). index_wf s i) \<and> distinct (map idx_id (indexes s)) \<and> distinct (map idx_name (indexes s))"

definition mk_schema ::
  "string \<Rightarrow> Column list \<Rightarrow> ConstraintDefinition list \<Rightarrow> IndexDefinition list \<Rightarrow> TableStorageMode \<Rightarrow> Schema" where
  "mk_schema name cols cons idxs mode =
     \<lparr>table_name = name, columns = cols, constraints = cons, indexes = idxs, storage_mode = mode\<rparr>"

lemma ok_columns_only:
  "columns s = columns s' \<Longrightarrow> constraints_ok s b cs = constraints_ok s' b cs"
  "columns s = columns s' \<Longrightarrow> indexes_ok s is = indexes_ok s' is"
  by (simp_all add: constraints_ok_iff indexes_ok_iff constraint_wf_def index_wf_def)

lemma schema_wf_ok:
  "schema_wf s \<longleftrightarrow> is_valid_table_name (table_name s) \<and> are_valid_columns (columns s) \<and>
     constraints_ok s False (constraints s) \<and> indexes_ok s (indexes s)"
  by (auto simp: schema_wf_def is_valid_table_name_def are_valid_columns_iff constraints_ok_iff indexes_ok_iff)

lemma schema_new_iff:
  "schema_new name cols cons idxs mode = Inr s \<longleftrightarrow> s = mk_schema name cols cons idxs mode \<and> schema_wf s"
proof -
  define s1 where "s1 = schema_default\<lparr>table_name := name, columns := cols\<rparr>"
  have c: "columns s1 = cols" "columns (s1\<lparr>constraints := cons\<rparr>) = cols" "columns (mk_schema name cols cons idxs mode) = cols"
    by (simp_all add: s1_def mk_schema_def)
  have f: "s1\<lparr>constraints := cons, indexes := idxs, storage_mode := mode\<rparr> = mk_schema name cols cons idxs mode"
    by (simp add: s1_def schema_default_def mk_schema_def)
  have n: "schema_new name cols cons idxs mode =
    (if \<not> is_valid_table_name name then Inl (Invalid_argument ''invalid table name'')
     else if \<not> are_valid_columns cols then Inl (Invalid_argument ''invalid schema columns'')
     else if \<not> constraints_ok s1 False cons then Inl (Invalid_argument ''invalid schema constraints'')
     else if \<not> indexes_ok (s1\<lparr>constraints := cons\<rparr>) idxs then Inl (Invalid_argument ''invalid schema indexes'')
     else Inr (mk_schema name cols cons idxs mode))"
    by (simp add: schema_new_def set_table_name_def set_columns_def set_constraints_def set_indexes_def set_storage_mode_def
        f flip: s1_def)
  have ok: "constraints_ok s1 False cons = constraints_ok (mk_schema name cols cons idxs mode) False cons"
    "indexes_ok (s1\<lparr>constraints := cons\<rparr>) idxs = indexes_ok (mk_schema name cols cons idxs mode) idxs"
    using c by (intro ok_columns_only; simp)+
  show ?thesis unfolding n ok by (auto simp: schema_wf_ok mk_schema_def)
qed

lemma schema_wf_mk: "schema_wf s \<Longrightarrow>
  schema_new (table_name s) (columns s) (constraints s) (indexes s) (storage_mode s) = Inr s"
  by (simp add: schema_new_iff mk_schema_def)

section \<open>Properties\<close>

text \<open>
  C9. A schema is built exactly when it is well formed: at most 991 valid columns with distinct
  names, constraints and indexes with distinct non-zero ids that name existing columns, at most
  one primary key. The constructor then returns the schema with the given parts, and a column
  is found by name exactly when it is one of the columns.\<close>

theorem schema_construction_exact:
  "(schema_new name cols cons idxs mode = Inr s \<longleftrightarrow> s = mk_schema name cols cons idxs mode \<and> schema_wf s) \<and>
   (schema_new name cols cons idxs mode = Inr s \<longrightarrow> (find_column s n = Some c \<longleftrightarrow> c \<in> set cols \<and> col_name c = n))"
  using find_column_iff [of s n c] by (auto simp: schema_new_iff schema_wf_def mk_schema_def)

definition sample_columns :: "Column list" where
  "sample_columns = [mk_column ''id'' ty_integer False 8 0 0, mk_column ''name'' ty_varstring True 40 0 0]"

definition sample_schema :: Schema where
  "sample_schema = mk_schema ''users'' sample_columns [make_primary_key 1 [''id''], make_check 2 [''id'', ''>'', ''0'']]
     [make_index 1 ''by_name'' [''name''] False] disk_storage"

lemma sample_schema_new:
  "schema_new ''users'' sample_columns [make_primary_key 1 [''id''], make_check 2 [''id'', ''>'', ''0'']]
     [make_index 1 ''by_name'' [''name''] False] disk_storage = Inr sample_schema"
  by code_simp

theorem schema_construction_exact_witness:
  "schema_wf sample_schema \<and> find_column sample_schema ''name'' = Some (mk_column ''name'' ty_varstring True 40 0 0)"
  using schema_construction_exact [of "''users''" sample_columns "[make_primary_key 1 [''id''], make_check 2 [''id'', ''>'', ''0'']]"
      "[make_index 1 ''by_name'' [''name''] False]" disk_storage sample_schema "''name''" "mk_column ''name'' ty_varstring True 40 0 0"]
    sample_schema_new
  by (simp add: sample_columns_def)

text \<open>
  C10. The text form of constraints and index definitions: a constraint whose parts are non-empty
  and free of the separators \<^verbatim>\<open>,\<close> and \<^verbatim>\<open>|\<close>, and whose lists are not ambiguous, is read back from
  its line, and so is an index definition; every primary key, unique and foreign key constraint
  over column names is of this kind.\<close>

theorem definition_text_roundtrip:
  "(constraint_text_ok c \<longrightarrow> constraint_from_serialized (constraint_serialized c) = Inr c) \<and>
   (index_wf s i \<and> schema_wf s \<longrightarrow> index_from_serialized (index_serialized i) = Inr i) \<and>
   (cols \<noteq> [] \<and> list_all is_valid_name cols \<longrightarrow>
     constraint_text_ok (make_primary_key cid cols) \<and> constraint_text_ok (make_unique cid cols)) \<and>
   (is_valid_name n \<and> is_valid_name t \<and> is_valid_name r \<longrightarrow> constraint_text_ok (make_foreign_key cid [n] t r))"
proof (intro conjI impI)
  show "index_wf s i \<and> schema_wf s \<Longrightarrow> index_from_serialized (index_serialized i) = Inr i"
    by (rule index_text_roundtrip)
      (auto simp: index_wf_def schema_wf_def column_is_valid_def dest!: valid_name_field_ok split: if_splits, auto simp: field_ok_def)
qed (auto simp: constraint_text_ok_def make_primary_key_def make_unique_def make_foreign_key_def constraint_default_def
      list_all_iff valid_name_field_ok intro: constraint_text_roundtrip)

theorem definition_text_roundtrip_witness:
  "constraint_serialized (make_foreign_key 3 [''owner''] ''users'' ''id'') = ''3|foreign_key|owner|users,id'' \<and>
   constraint_from_serialized ''3|foreign_key|owner|users,id'' = Inr (make_foreign_key 3 [''owner''] ''users'' ''id'') \<and>
   index_from_serialized (index_serialized (make_index 1 ''by_name'' [''name''] False)) = Inr (make_index 1 ''by_name'' [''name''] False)"
proof -
  have n: "is_valid_name ''owner''" "is_valid_name ''users''" "is_valid_name ''id''" by code_simp+
  have s: "constraint_serialized (make_foreign_key 3 [''owner''] ''users'' ''id'') = ''3|foreign_key|owner|users,id''" by code_simp
  have wf: "schema_wf sample_schema" using sample_schema_new by (simp add: schema_new_iff)
  then have i: "index_wf sample_schema (make_index 1 ''by_name'' [''name''] False)"
    by (simp add: schema_wf_def sample_schema_def mk_schema_def)
  show ?thesis
    using definition_text_roundtrip [where c = "make_foreign_key 3 [''owner''] ''users'' ''id''" and i = "make_index 1 ''by_name'' [''name''] False"
        and s = sample_schema and cid = 3 and n = "''owner''" and t = "''users''" and r = "''id''"] n i wf s by simp
qed

end
