(* ===== verification/Date_Time.thy ===== *)
theory Date_Time
  imports Text_Lib "HOL-Library.Signed_Division"
begin

text \<open>
  The date and time types of \<^verbatim>\<open>src/src/db_types/date_time.cpp\<close>. A \<^verbatim>\<open>Date\<close> is its field
  \<^verbatim>\<open>int32_t days_since_epoch_\<close>, a \<^verbatim>\<open>Time\<close> its \<^verbatim>\<open>uint32_t seconds_since_midnight_\<close> and a
  \<^verbatim>\<open>DateTime\<close> its \<^verbatim>\<open>int64_t seconds_since_epoch_\<close>, each a word of that width (signed
  fields are read with \<open>sint\<close>). Signed division truncates (\<open>sdiv\<close>, \<open>smod\<close>); arithmetic the
  source does in \<^verbatim>\<open>unsigned\<close> is reduced modulo \<open>2 ^ 32\<close> by \<open>to_u32\<close>.

  The lemmas relate the conversion to an independent description of the calendar (the date
  after a date, \<open>next_date\<close>), show that it is a bijection between valid dates and day
  numbers, and give the round trips between values and text. The text of a \<^verbatim>\<open>DateTime\<close>
  before the epoch is off by one day; this is proved for a concrete value.
\<close>

section \<open>Helpers of the anonymous namespace\<close>

definition SECONDS_PER_DAY :: int where "SECONDS_PER_DAY = 86400"

definition to_u32 :: "int \<Rightarrow> int" where "to_u32 x = x mod 2 ^ 32"

fun parse_digits :: "nat \<Rightarrow> string \<Rightarrow> nat option" where
  "parse_digits parsed [] = Some parsed"
| "parse_digits parsed (ch # cs) =
     (if code ch < 48 \<or> code ch > 57 then None
      else parse_digits (parsed * 10 + (code ch - 48)) cs)"

definition parse_number :: "string \<Rightarrow> nat \<Rightarrow> nat \<Rightarrow> nat option" where
  "parse_number text pos count =
     (if pos + count > length text then None else parse_digits 0 (take count (drop pos text)))"

definition is_leap_year :: "int \<Rightarrow> bool" where
  "is_leap_year year \<longleftrightarrow> (year smod 4 = 0 \<and> year smod 100 \<noteq> 0) \<or> year smod 400 = 0"

definition days_in_month :: "int \<Rightarrow> int \<Rightarrow> int" where
  "days_in_month year month =
     (if month = 2 \<and> is_leap_year year then 29
      else [31, 28, 31, 30, 31, 30, 31, 31, 30, 31, 30, 31] ! nat (month - 1))"

definition is_valid_date :: "int \<Rightarrow> int \<Rightarrow> int \<Rightarrow> bool" where
  "is_valid_date year month day \<longleftrightarrow>
     month \<ge> 1 \<and> month \<le> 12 \<and> day \<ge> 1 \<and> day \<le> days_in_month year month"

definition days_from_civil :: "int \<Rightarrow> int \<Rightarrow> int \<Rightarrow> int" where
  "days_from_civil year month day =
     (let year = year - (if month \<le> 2 then 1 else 0);
          era = (if year \<ge> 0 then year else year - 399) sdiv 400;
          year_of_era = to_u32 (year - era * 400);
          day_of_year = to_u32 (to_u32 (153 * to_u32 (month + (if month > 2 then -3 else 9)) + 2) div 5 + day - 1);
          day_of_era = to_u32 (year_of_era * 365 + year_of_era div 4 - year_of_era div 100 + day_of_year)
      in era * 146097 + day_of_era - 719468)"

definition civil_from_days :: "int \<Rightarrow> int \<times> int \<times> int" where
  "civil_from_days days =
     (let days = days + 719468;
          era = (if days \<ge> 0 then days else days - 146096) sdiv 146097;
          day_of_era = to_u32 (days - era * 146097);
          year_of_era = to_u32 (day_of_era - day_of_era div 1460 + day_of_era div 36524 - day_of_era div 146096) div 365;
          year = year_of_era + era * 400;
          day_of_year = to_u32 (day_of_era - to_u32 (365 * year_of_era + year_of_era div 4 - year_of_era div 100));
          month_prime = to_u32 (5 * day_of_year + 2) div 153;
          day = to_u32 (day_of_year - to_u32 (153 * month_prime + 2) div 5 + 1);
          month = to_u32 (month_prime + (if month_prime < 10 then 3 else -9))
      in (year + (if month \<le> 2 then 1 else 0), month, day))"

definition two_digits :: "nat \<Rightarrow> string" where
  "two_digits value = setw0 2 (show_nat value)"

section \<open>The classes \<^verbatim>\<open>Date\<close>, \<^verbatim>\<open>Time\<close> and \<^verbatim>\<open>DateTime\<close>\<close>

type_synonym date = "32 word"
type_synonym time = "32 word"
type_synonym datetime = "64 word"

definition date_to_string :: "date \<Rightarrow> string" where
  "date_to_string d =
     (case civil_from_days (sint d) of (year, month, day) \<Rightarrow>
        setw0 4 (show_int year) @ ''-'' @ two_digits (nat month) @ ''-'' @ two_digits (nat day))"

definition date_from_string :: "string \<Rightarrow> date option" where
  "date_from_string text =
     (if length text \<noteq> 10 \<or> text ! 4 \<noteq> CHR ''-'' \<or> text ! 7 \<noteq> CHR ''-'' then None
      else case (parse_number text 0 4, parse_number text 5 2, parse_number text 8 2) of
             (Some year, Some month, Some day) \<Rightarrow>
               if is_valid_date (int year) (int month) (int day)
               then Some (word_of_int (days_from_civil (int year) (int month) (int day)))
               else None
           | _ \<Rightarrow> None)"

definition time_to_string :: "time \<Rightarrow> string" where
  "time_to_string t =
     (let hour = unat t div 3600; minute = (unat t mod 3600) div 60; second = unat t mod 60
      in two_digits hour @ '':'' @ two_digits minute @ '':'' @ two_digits second)"

definition time_from_string :: "string \<Rightarrow> time option" where
  "time_from_string text =
     (if length text \<noteq> 8 \<or> text ! 2 \<noteq> CHR '':'' \<or> text ! 5 \<noteq> CHR '':'' then None
      else case (parse_number text 0 2, parse_number text 3 2, parse_number text 6 2) of
             (Some hour, Some minute, Some second) \<Rightarrow>
               if hour > 23 \<or> minute > 59 \<or> second > 59 then None
               else Some (of_nat (hour * 3600 + minute * 60 + second))
           | _ \<Rightarrow> None)"

definition datetime_to_string :: "datetime \<Rightarrow> string" where
  "datetime_to_string t =
     (let days = sint t sdiv SECONDS_PER_DAY;
          seconds = sint t smod SECONDS_PER_DAY;
          seconds = (if seconds < 0 then seconds + SECONDS_PER_DAY else seconds)
      in date_to_string (word_of_int days) @ '' '' @ time_to_string (word_of_int seconds))"

definition datetime_from_string :: "string \<Rightarrow> datetime option" where
  "datetime_from_string text =
     (if length text \<noteq> 19 \<or> text ! 10 \<noteq> CHR '' '' then None
      else case (date_from_string (take 10 text), time_from_string (take 8 (drop 11 text))) of
             (Some date, Some time) \<Rightarrow> Some (word_of_int (sint date * SECONDS_PER_DAY + int (unat time)))
           | _ \<Rightarrow> None)"

section \<open>Day numbers in closed form\<close>

lemma ceil_div:
  fixes x b :: int
  assumes "0 < b"
  shows "(b - 1 - x) div b = - (x div b)"
proof (rule int_div_pos_eq)
  show "b - 1 - x = b * - (x div b) + (b - 1 - x mod b)"
    by (simp add: algebra_simps)
  show "0 \<le> b - 1 - x mod b" "b - 1 - x mod b < b"
    using pos_mod_bound [OF assms, of x] pos_mod_sign [OF assms, of x] by linarith+
qed

lemma floor_sdiv:
  fixes x b c :: int
  assumes "0 < b" "c = b - 1"
  shows "(if x \<ge> 0 then x else x - c) sdiv b = x div b"
  using assms ceil_div [OF assms(1), of x]
  by (auto simp: signed_divide_int_def abs_if sgn_if algebra_simps)

lemma smod_eq_0: "0 < b \<Longrightarrow> x smod b = 0 \<longleftrightarrow> x mod b = 0" for x b :: int
  by (auto simp: signed_modulo_int_def abs_if sgn_if mod_eq_0_iff_dvd)

lemma is_leap_year_iff:
  "is_leap_year y \<longleftrightarrow> (y mod 4 = 0 \<and> y mod 100 \<noteq> 0) \<or> y mod 400 = 0"
  by (simp add: is_leap_year_def smod_eq_0)

lemma is_leap_year_mod: "is_leap_year y \<longleftrightarrow> is_leap_year (y mod 400)"
  by (simp add: is_leap_year_iff mod_mod_cancel)

text \<open>Days before year \<open>y\<close> of the calendar whose years start on the first of March.\<close>

definition year_start :: "int \<Rightarrow> int" where
  "year_start y = 365 * y + y div 4 - y div 100 + y div 400"

definition march_day :: "int \<Rightarrow> int \<Rightarrow> int" where
  "march_day m d = (153 * (if m > 2 then m - 3 else m + 9) + 2) div 5 + d - 1"

lemma to_u32_id [simp]: "0 \<le> x \<Longrightarrow> x < 4294967296 \<Longrightarrow> to_u32 x = x"
  by (simp add: to_u32_def)

lemma year_start_split:
  "(y div 400) * 146097 + ((y mod 400) * 365 + (y mod 400) div 4 - (y mod 400) div 100) = year_start y"
proof -
  define q r where "q = y div 400" and "r = y mod 400"
  have y: "y = r + 400 * q" "0 \<le> r" "r < 400" by (simp_all add: q_def r_def)
  have "y div 4 = r div 4 + 100 * q" "y div 100 = r div 100 + 4 * q"
    using y(1) div_mult_self2 [of 4 r "100 * q"] div_mult_self2 [of 100 r "4 * q"] by simp_all
  then show ?thesis by (simp add: year_start_def q_def [symmetric] r_def [symmetric]) (simp add: y(1))
qed

lemma month_table:
  assumes "1 \<le> m" "m \<le> 12"
  shows "m = 1 \<or> m = 2 \<or> m = 3 \<or> m = 4 \<or> m = 5 \<or> m = 6 \<or> m = 7 \<or> m = 8 \<or> m = 9 \<or> m = 10 \<or> m = 11 \<or> m = (12::int)"
  using assms by presburger

lemma days_in_month_values:
  "days_in_month y 1 = 31" "days_in_month y 2 = (if is_leap_year y then 29 else 28)"
  "days_in_month y 3 = 31" "days_in_month y 4 = 30" "days_in_month y 5 = 31" "days_in_month y 6 = 30"
  "days_in_month y 7 = 31" "days_in_month y 8 = 31" "days_in_month y 9 = 30" "days_in_month y 10 = 31"
  "days_in_month y 11 = 30" "days_in_month y 12 = 31"
  by (simp_all add: days_in_month_def)

lemma march_day_bounds:
  assumes "is_valid_date y m d"
  shows "0 \<le> march_day m d" "march_day m d \<le> 365"
    "march_day m d = 365 \<Longrightarrow> m = 2 \<and> is_leap_year y"
    "m > 2 \<Longrightarrow> march_day m d \<le> 305"
proof -
  have m: "1 \<le> m" "m \<le> 12" "1 \<le> d" "d \<le> days_in_month y m" using assms by (simp_all add: is_valid_date_def)
  show "0 \<le> march_day m d" "march_day m d \<le> 365" "march_day m d = 365 \<Longrightarrow> m = 2 \<and> is_leap_year y"
    "m > 2 \<Longrightarrow> march_day m d \<le> 305"
    using month_table [OF m(1,2)] m(3,4)
    by (elim disjE; simp add: march_day_def days_in_month_values split: if_splits)+
qed

lemma days_from_civil_closed:
  assumes "is_valid_date y m d"
  shows "days_from_civil y m d = year_start (if m \<le> 2 then y - 1 else y) + march_day m d - 719468"
proof -
  define y' where "y' = (if m \<le> 2 then y - 1 else y)"
  have m: "1 \<le> m" "m \<le> 12" "1 \<le> d" "d \<le> days_in_month y m" using assms by (simp_all add: is_valid_date_def)
  have "d \<le> 31" using month_table [OF m(1,2)] m(4) by (elim disjE; simp add: days_in_month_values split: if_splits)
  have era: "(if y' \<ge> 0 then y' else y' - 399) sdiv 400 = y' div 400"
    by (rule floor_sdiv) simp_all
  have yoe: "to_u32 (y' - y' div 400 * 400) = y' mod 400" "0 \<le> y' mod 400" "y' mod 400 \<le> 399"
    by (simp_all add: minus_div_mult_eq_mod)
  have md: "to_u32 (m + (if m > 2 then -3 else 9)) = (if m > 2 then m - 3 else m + 9)" using m by simp
  have doy: "to_u32 (to_u32 (153 * to_u32 (m + (if m > 2 then -3 else 9)) + 2) div 5 + d - 1) = march_day m d"
    using m march_day_bounds(1,2) [OF assms] unfolding md by (auto simp: march_day_def)
  have "0 \<le> y' mod 400 div 4" "y' mod 400 div 4 \<le> 99" "0 \<le> y' mod 400 div 100" "y' mod 400 div 100 \<le> 3"
    using yoe by auto
  then have doe: "to_u32 (y' mod 400 * 365 + y' mod 400 div 4 - y' mod 400 div 100 + march_day m d) =
      y' mod 400 * 365 + y' mod 400 div 4 - y' mod 400 div 100 + march_day m d"
    using march_day_bounds(1,2) [OF assms] yoe(2,3) by (intro to_u32_id) linarith+
  have "y - (if m \<le> 2 then 1 else 0) = y'" by (simp add: y'_def)
  then have "days_from_civil y m d =
      y' div 400 * 146097 + (y' mod 400 * 365 + y' mod 400 div 4 - y' mod 400 div 100 + march_day m d) - 719468"
    unfolding days_from_civil_def Let_def by (simp only: era yoe(1) doy doe)
  then show ?thesis using year_start_split [of y'] by (simp add: y'_def)
qed

section \<open>From a day number back to the date\<close>

lemma era_digits:
  fixes c q r doy :: int
  assumes c: "0 \<le> c" "c \<le> 3" and q: "0 \<le> q" "q \<le> 24" and r: "0 \<le> r" "r \<le> 3"
    and doy: "0 \<le> doy" "doy \<le> 365" and last: "doy = 365 \<longrightarrow> r = 3 \<and> (q = 24 \<longrightarrow> c = 3)"
  defines "doe \<equiv> 36524 * c + 1461 * q + 365 * r + doy"
  shows "doe div 1460 = 25 * c + q + (if 24 * c + q + 365 * r + doy \<ge> 1460 then 1 else 0)"
    and "doe div 36524 = c + (if q = 24 \<and> r = 3 \<and> doy = 365 then 1 else 0)"
    and "doe div 146096 = (if q = 24 \<and> r = 3 \<and> doy = 365 then 1 else 0)"
proof -
  show "doe div 1460 = 25 * c + q + (if 24 * c + q + 365 * r + doy \<ge> 1460 then 1 else 0)"
    unfolding doe_def using c q r doy by (cases "24 * c + q + 365 * r + doy \<ge> 1460"; simp)
  show "doe div 36524 = c + (if q = 24 \<and> r = 3 \<and> doy = 365 then 1 else 0)"
  proof (cases "q = 24 \<and> r = 3 \<and> doy = 365")
    case False
    then have "1461 * q + 365 * r + doy < 36524" using q r doy last by linarith
    then show ?thesis unfolding doe_def using False q r doy by (auto intro!: int_div_pos_eq)
  qed (simp add: doe_def)
  show "doe div 146096 = (if q = 24 \<and> r = 3 \<and> doy = 365 then 1 else 0)"
  proof (cases "q = 24 \<and> r = 3 \<and> doy = 365")
    case False
    then have "doe < 146096" using c q r doy last unfolding doe_def by linarith
    then show ?thesis using False c q r doy by (simp add: doe_def)
  qed (use last in \<open>simp add: doe_def\<close>)
qed

lemma century_split:
  fixes yoe :: int
  assumes "0 \<le> yoe" "yoe \<le> 399"
  obtains c q r where "0 \<le> c" "c \<le> 3" "0 \<le> q" "q \<le> 24" "0 \<le> r" "r \<le> 3"
    "yoe = 100 * c + 4 * q + r" "yoe div 4 = 25 * c + q" "yoe div 100 = c"
proof -
  define c q r where "c = yoe div 100" and "q = yoe mod 100 div 4" and "r = yoe mod 4"
  have r: "yoe mod 100 mod 4 = r" unfolding r_def by (rule mod_mod_cancel) simp
  have m: "0 \<le> yoe mod 100" "yoe mod 100 < 100" by simp_all
  have cr: "0 \<le> c" "c \<le> 3" "0 \<le> r" "r \<le> 3" using assms by (auto simp: c_def r_def)
  have q: "0 \<le> q" "q \<le> 24" using m by (auto simp: q_def)
  have "yoe mod 100 = 4 * q + r" using mult_div_mod_eq [of 4 "yoe mod 100"] unfolding r q_def [symmetric] by simp
  then have y: "yoe = 100 * c + 4 * q + r" using mult_div_mod_eq [of 100 yoe] by (simp add: c_def)
  have y4: "yoe div 4 = 25 * c + q" unfolding y using \<open>0 \<le> r\<close> \<open>r \<le> 3\<close> by simp
  show thesis by (rule that [OF cr(1,2) q cr(3,4) y y4]) (simp add: c_def)
qed

lemma year_of_era_recovered:
  fixes yoe doy :: int
  assumes y: "0 \<le> yoe" "yoe \<le> 399" and doy: "0 \<le> doy" "doy \<le> 365"
    and leap: "doy = 365 \<Longrightarrow> is_leap_year (yoe + 1)"
  defines "doe \<equiv> yoe * 365 + yoe div 4 - yoe div 100 + doy"
  shows "0 \<le> doe" "doe \<le> 146096"
    "to_u32 (doe - doe div 1460 + doe div 36524 - doe div 146096) div 365 = yoe"
proof -
  obtain c q r where c: "0 \<le> c" "c \<le> 3" and q: "0 \<le> q" "q \<le> 24" and r: "0 \<le> r" "r \<le> 3"
    and yoe: "yoe = 100 * c + 4 * q + r" "yoe div 4 = 25 * c + q" "yoe div 100 = c"
    using century_split [OF y] by metis
  have doe: "doe = 36524 * c + 1461 * q + 365 * r + doy"
    unfolding doe_def yoe(2,3) by (simp add: yoe(1))
  have last: "doy = 365 \<longrightarrow> r = 3 \<and> (q = 24 \<longrightarrow> c = 3)"
  proof
    assume that: "doy = 365"
    have l: "is_leap_year (100 * c + 4 * q + r + 1)" using leap [OF that] by (simp add: yoe(1))
    have "(100 * c + 4 * q + r + 1) mod 4 = (r + 1) mod 4" using mod_mult_self2 [of "r + 1" 4 "25 * c + q"] by (simp add: algebra_simps)
    moreover have "(100 * c + 4 * q + r + 1) mod 4 = 0" using l mod_mod_cancel [of 4 400] by (auto simp: is_leap_year_iff)
    ultimately have r3: "r = 3" using r by (cases "r = 3") auto
    have "c = 3" if "q = 24"
    proof -
      have "(100 + 100 * c) mod 400 = 0"
        using l r3 that mod_mult_self2 [of 0 100 "c + 1"] by (auto simp: is_leap_year_iff algebra_simps)
      moreover have "c = 0 \<or> c = 1 \<or> c = 2 \<or> c = 3" using c by presburger
      ultimately show ?thesis by auto
    qed
    then show "r = 3 \<and> (q = 24 \<longrightarrow> c = 3)" using r3 by simp
  qed
  show le: "0 \<le> doe" "doe \<le> 146096" unfolding doe using c q r doy by linarith+
  let ?b = "if 24 * c + q + 365 * r + doy \<ge> 1460 then 1 else 0 :: int"
  note e = era_digits [OF c q r doy last, folded doe]
  have sum: "doe - doe div 1460 + doe div 36524 - doe div 146096 = 365 * yoe + (doy - ?b)"
    unfolding e unfolding doe yoe(1) by (simp add: algebra_simps)
  show "to_u32 (doe - doe div 1460 + doe div 36524 - doe div 146096) div 365 = yoe"
    unfolding sum using y doy c q r last by (auto intro!: int_div_pos_eq)
qed

lemma month_recovered:
  assumes "is_valid_date y m d"
  defines "mp \<equiv> to_u32 (5 * march_day m d + 2) div 153"
  shows "to_u32 (mp + (if mp < 10 then 3 else -9)) = m"
    and "to_u32 (march_day m d - to_u32 (153 * mp + 2) div 5 + 1) = d"
proof -
  have m: "1 \<le> m" "m \<le> 12" "1 \<le> d" "d \<le> days_in_month y m" using assms(1) by (simp_all add: is_valid_date_def)
  have "mp = (if m > 2 then m - 3 else m + 9)"
    unfolding mp_def using month_table [OF m(1,2)] m(3,4)
    by (elim disjE; simp add: march_day_def days_in_month_values split: if_splits)
  then show "to_u32 (mp + (if mp < 10 then 3 else -9)) = m"
    "to_u32 (march_day m d - to_u32 (153 * mp + 2) div 5 + 1) = d"
    using month_table [OF m(1,2)] m(3,4)
    by (elim disjE; simp add: march_day_def days_in_month_values split: if_splits)+
qed

lemma civil_from_days_from_civil:
  assumes "is_valid_date y m d"
  shows "civil_from_days (days_from_civil y m d) = (y, m, d)"
proof -
  define y' where "y' = (if m \<le> 2 then y - 1 else y)"
  define doy where "doy = march_day m d"
  define yoe where "yoe = y' mod 400"
  define doe where "doe = yoe * 365 + yoe div 4 - yoe div 100 + doy"
  note mdb = march_day_bounds [OF assms, folded doy_def]
  have leap: "is_leap_year (yoe + 1)" if "doy = 365"
  proof -
    have "is_leap_year (y' + 1)" using mdb(3) [OF that] by (simp add: y'_def)
    moreover have "(yoe + 1) mod 400 = (y' + 1) mod 400" by (simp add: yoe_def mod_add_left_eq)
    ultimately show ?thesis using is_leap_year_mod [of "yoe + 1"] is_leap_year_mod [of "y' + 1"] by metis
  qed
  have yoe: "0 \<le> yoe" "yoe \<le> 399" by (simp_all add: yoe_def)
  note rec = year_of_era_recovered [OF yoe mdb(1,2) leap, folded doe_def]
  have "days_from_civil y m d + 719468 = y' div 400 * 146097 + doe"
    using days_from_civil_closed [OF assms] year_start_split [of y']
    by (simp add: doe_def yoe_def doy_def y'_def)
  then have n: "days_from_civil y m d + 719468 = doe + y' div 400 * 146097" by simp
  have era: "(if days_from_civil y m d + 719468 \<ge> 0 then days_from_civil y m d + 719468
      else days_from_civil y m d + 719468 - 146096) sdiv 146097 = y' div 400"
    using rec(1,2) by (subst floor_sdiv) (simp_all add: n)
  have doe': "to_u32 (days_from_civil y m d + 719468 - y' div 400 * 146097) = doe"
    using rec(1,2) by (simp add: n)
  have "0 \<le> yoe div 4" "yoe div 4 \<le> 99" "0 \<le> yoe div 100" "yoe div 100 \<le> 3" using yoe by auto
  then have "to_u32 (365 * yoe + yoe div 4 - yoe div 100) = 365 * yoe + yoe div 4 - yoe div 100"
    using yoe by (intro to_u32_id) linarith+
  then have doy': "to_u32 (doe - to_u32 (365 * yoe + yoe div 4 - yoe div 100)) = doy"
    using mdb(1,2) by (simp add: doe_def)
  have year: "yoe + y' div 400 * 400 + (if m \<le> 2 then 1 else 0) = y"
    using mult_div_mod_eq [of 400 y'] by (simp add: yoe_def y'_def split: if_splits)
  note mr = month_recovered [OF assms, folded doy_def]
  show ?thesis
    unfolding civil_from_days_def Let_def by (simp only: era doe' rec(3) doy' mr year)
qed

section \<open>The calendar\<close>

text \<open>The date after a date, said without day numbers.\<close>

definition next_date :: "int \<times> int \<times> int \<Rightarrow> int \<times> int \<times> int" where
  "next_date = (\<lambda>(y, m, d).
     if d < days_in_month y m then (y, m, d + 1)
     else if m < 12 then (y, m + 1, 1) else (y + 1, 1, 1))"

lemma year_start_step: "year_start y = year_start (y - 1) + (if is_leap_year y then 366 else 365)"
proof -
  have step: "y div k = (y - 1) div k + (if y mod k = 0 then 1 else 0)" if "1 < k" for k :: int
  proof -
    have "(y - 1) div k = (if y mod k = 0 then y div k - 1 else y div k)"
    proof (rule int_div_pos_eq)
      show "y - 1 = k * (if y mod k = 0 then y div k - 1 else y div k) + (if y mod k = 0 then k - 1 else y mod k - 1)"
        using mult_div_mod_eq [of k y] by (auto simp: algebra_simps)
      have "0 \<le> y mod k" "y mod k < k" using that by simp_all
      then show "0 \<le> (if y mod k = 0 then k - 1 else y mod k - 1)" "(if y mod k = 0 then k - 1 else y mod k - 1) < k"
        using that by (auto simp: order_less_le)
    qed
    then show ?thesis by simp
  qed
  have "y mod 100 = 0 \<Longrightarrow> y mod 4 = 0" "y mod 400 = 0 \<Longrightarrow> y mod 100 = 0" by presburger+
  then show ?thesis
    unfolding year_start_def step [of 4, simplified] step [of 100, simplified] step [of 400, simplified] is_leap_year_iff
    by simp
qed

lemma next_date_valid:
  assumes "is_valid_date y m d" "next_date (y, m, d) = (y', m', d')"
  shows "is_valid_date y' m' d'"
proof -
  have m: "1 \<le> m" "m \<le> 12" "1 \<le> d" "d \<le> days_in_month y m" using assms(1) by (simp_all add: is_valid_date_def)
  show ?thesis using assms(2) month_table [OF m(1,2)] m(3,4)
    by (elim disjE; auto simp: next_date_def is_valid_date_def days_in_month_values split: if_splits)
qed

lemma days_from_civil_next:
  assumes "is_valid_date y m d" "next_date (y, m, d) = (y', m', d')"
  shows "days_from_civil y' m' d' = days_from_civil y m d + 1"
proof -
  have m: "1 \<le> m" "m \<le> 12" "1 \<le> d" "d \<le> days_in_month y m" using assms(1) by (simp_all add: is_valid_date_def)
  show ?thesis
    unfolding days_from_civil_closed [OF assms(1)] days_from_civil_closed [OF next_date_valid [OF assms]]
    using assms(2) month_table [OF m(1,2)] m(3,4) year_start_step [of y]
    by (elim disjE; auto simp: next_date_def days_in_month_values march_day_def split: if_splits)
qed

lemma date_of_day_exists: "\<exists>y m d. is_valid_date y m d \<and> days_from_civil y m d = n"
proof -
  define q where "q = (n + 719468) div 146097"
  define k where "k = q * 146097 - 719468"
  have v: "is_valid_date (400 * q) 3 1" by (simp add: is_valid_date_def days_in_month_values)
  have k: "days_from_civil (400 * q) 3 1 = k"
    using days_from_civil_closed [OF v] by (simp add: k_def year_start_def march_day_def)
  have "k \<le> n" unfolding k_def q_def using mult_div_mod_eq [of 146097 "n + 719468"] pos_mod_sign [of 146097 "n + 719468"]
    by linarith
  then show ?thesis
  proof (induction n rule: int_ge_induct)
    case base show ?case using v k by blast
  next
    case (step i)
    then obtain y m d where "is_valid_date y m d" "days_from_civil y m d = i" by blast
    moreover obtain y' m' d' where "next_date (y, m, d) = (y', m', d')" by (cases "next_date (y, m, d)")
    ultimately show ?case using next_date_valid days_from_civil_next by metis
  qed
qed

lemma civil_from_days_valid:
  assumes "civil_from_days n = (y, m, d)"
  shows "is_valid_date y m d" "days_from_civil y m d = n"
  using date_of_day_exists [of n] civil_from_days_from_civil assms by fastforce+

section \<open>Text\<close>

lemma parse_digits_iff: "parse_digits p cs = (if list_all isdigit cs then Some (read_digits p cs) else None)"
  by (induction p cs rule: parse_digits.induct) (auto simp: isdigit_def digit_val_def)

lemma parse_number_iff:
  "pos + k \<le> length text \<Longrightarrow> parse_number text pos k =
     (if list_all isdigit (take k (drop pos text)) then Some (read_digits 0 (take k (drop pos text))) else None)"
  by (simp add: parse_number_def parse_digits_iff)

abbreviation padded :: "nat \<Rightarrow> nat \<Rightarrow> string" where "padded w n \<equiv> setw0 w (show_nat n)"

lemma length_padded: "n < 10 ^ w \<Longrightarrow> 0 < w \<Longrightarrow> length (padded w n) = w"
  by (intro length_setw0 length_show_nat)

lemma digits_padded [simp]: "list_all isdigit (padded w n)"
  by (intro digits_setw0 digits_show_nat)

lemma field_padded:
  assumes "length ds = w" "0 < w" "list_all isdigit ds"
  obtains n where "n < 10 ^ w" "ds = padded w n" "read_digits 0 ds = n"
  using assms read_digits_bound [OF assms(3), of 0] setw0_read [OF assms(3)] by (auto intro!: that)

lemma three_fields:
  assumes "length s = a + Suc (b + Suc c)"
  shows "s = take a s @ s ! a # take b (drop (Suc a) s) @ s ! (a + Suc b) # take c (drop (a + Suc (Suc b)) s)"
proof -
  have "s = take a s @ s ! a # drop (Suc a) s" using assms by (intro id_take_nth_drop) simp
  moreover have "drop (Suc a) s = take b (drop (Suc a) s) @ (drop (Suc a) s) ! b # drop (Suc b) (drop (Suc a) s)"
    using assms by (intro id_take_nth_drop) simp
  moreover have "take c (drop (a + Suc (Suc b)) s) = drop (Suc b) (drop (Suc a) s)" using assms by (simp add: add.commute)
  ultimately show ?thesis using assms by (simp add: add.commute)
qed

definition date_text :: "nat \<Rightarrow> nat \<Rightarrow> nat \<Rightarrow> string" where
  "date_text y m d = padded 4 y @ ''-'' @ padded 2 m @ ''-'' @ padded 2 d"

definition time_text :: "nat \<Rightarrow> nat \<Rightarrow> nat \<Rightarrow> string" where
  "time_text h m s = padded 2 h @ '':'' @ padded 2 m @ '':'' @ padded 2 s"

lemma length_date_text: "y < 10000 \<Longrightarrow> m < 100 \<Longrightarrow> d < 100 \<Longrightarrow> length (date_text y m d) = 10"
  by (simp add: date_text_def length_padded)

lemma length_time_text: "h < 100 \<Longrightarrow> m < 100 \<Longrightarrow> s < 100 \<Longrightarrow> length (time_text h m s) = 8"
  by (simp add: time_text_def length_padded)

lemma date_from_string_text:
  assumes "y < 10000" "m < 100" "d < 100"
  shows "date_from_string (date_text y m d) =
    (if is_valid_date (int y) (int m) (int d) then Some (word_of_int (days_from_civil (int y) (int m) (int d))) else None)"
proof -
  have len: "length (padded 4 y) = 4" "length (padded 2 m) = 2" "length (padded 2 d) = 2"
    using assms by (simp_all add: length_padded)
  have "parse_number (date_text y m d) 0 4 = Some y" "parse_number (date_text y m d) 5 2 = Some m"
    "parse_number (date_text y m d) 8 2 = Some d"
    by (simp_all add: parse_number_iff date_text_def len)
  then show ?thesis
    by (simp add: date_from_string_def length_date_text assms) (simp add: date_text_def nth_append len)
qed

lemma date_from_string_SomeD:
  assumes "date_from_string s = Some n"
  obtains y m d where "y < 10000" "is_valid_date (int y) (int m) (int d)" "s = date_text y m d"
    "n = word_of_int (days_from_civil (int y) (int m) (int d))"
proof -
  have len: "length s = 10" "s ! 4 = CHR ''-''" "s ! 7 = CHR ''-''"
    using assms by (auto simp: date_from_string_def split: if_splits)
  then have f: "list_all isdigit (take 4 s)" "list_all isdigit (take 2 (drop 5 s))" "list_all isdigit (take 2 (drop 8 s))"
    using assms by (auto simp: date_from_string_def parse_number_iff split: if_splits)
  obtain y where y: "y < 10 ^ 4" "take 4 s = padded 4 y" using field_padded [OF _ _ f(1), of 4] len by auto
  obtain m where m: "m < 10 ^ 2" "take 2 (drop 5 s) = padded 2 m" using field_padded [OF _ _ f(2), of 2] len by auto
  obtain d where d: "d < 10 ^ 2" "take 2 (drop 8 s) = padded 2 d" using field_padded [OF _ _ f(3), of 2] len by auto
  have s: "s = date_text y m d" using three_fields [of s 4 2 2] len y(2) m(2) d(2) by (simp add: date_text_def)
  show thesis using that [OF _ _ s] assms y(1) m(1) d(1) date_from_string_text [of y m d]
    by (simp add: s split: if_splits)
qed

lemma valid_date_bounds:
  assumes "is_valid_date y m d"
  shows "1 \<le> m" "m \<le> 12" "1 \<le> d" "d \<le> 31"
  using assms month_table [of m]
  by (auto simp: is_valid_date_def days_in_month_values split: if_splits)

lemma year_start_mono: "y \<le> y' \<Longrightarrow> year_start y \<le> year_start y'"
proof (induction y' rule: int_ge_induct)
  case (step i) then show ?case using year_start_step [of "i + 1"] by simp
qed simp

lemma days_from_civil_range:
  assumes "is_valid_date y m d"
  shows "0 \<le> y \<and> y \<le> 9999 \<longleftrightarrow> -719528 \<le> days_from_civil y m d \<and> days_from_civil y m d \<le> 2932896"
proof -
  have b: "year_start (y - 1) + 306 \<le> days_from_civil y m d + 719468" "days_from_civil y m d + 719468 < year_start y + 306"
    using march_day_bounds(1,2,4) [OF assms] valid_date_bounds [OF assms] year_start_step [of y]
    unfolding days_from_civil_closed [OF assms] by (auto simp: march_day_def)
  have ys: "year_start (-1) = -366" "year_start 9999 = 3652059" by (simp_all add: year_start_def)
  show ?thesis
    using b ys year_start_mono [of "-1" "y - 1"] year_start_mono [of y 9999] year_start_mono [of y "-1"] year_start_mono [of 9999 "y - 1"]
    by linarith
qed

lemma date_to_string_text:
  assumes "is_valid_date (int y) (int m) (int d)" "sint n = days_from_civil (int y) (int m) (int d)"
  shows "date_to_string n = date_text y m d"
  using civil_from_days_from_civil [OF assms(1)] assms(2)
  by (simp add: date_to_string_def date_text_def two_digits_def show_int_def)

lemma sint_word_of_int_32: "-2147483648 \<le> x \<Longrightarrow> x \<le> 2147483647 \<Longrightarrow> sint (word_of_int x :: 32 word) = x"
  by (simp add: sint_sbintrunc' signed_take_bit_int_eq_self)

lemma power_63: "2 ^ 63 = (9223372036854775808 :: int)"
  by simp

lemma word_of_int_sint_32: "word_of_int (sint n) = (n :: 32 word)"
  by simp

lemma sint_word_of_int_64: "- (2 ^ 63) \<le> x \<Longrightarrow> x < 2 ^ 63 \<Longrightarrow> sint (word_of_int x :: 64 word) = x"
  by (simp add: sint_sbintrunc' signed_take_bit_int_eq_self)

lemma sint_date_number:
  assumes "is_valid_date (int y) m d" "y < 10000"
  shows "sint (word_of_int (days_from_civil (int y) m d) :: date) = days_from_civil (int y) m d"
  using days_from_civil_range [OF assms(1)] assms(2) by (intro sint_word_of_int_32) auto

lemma date_string_parsed: "date_from_string s = Some n \<Longrightarrow> date_to_string n = s"
  by (elim date_from_string_SomeD) (simp add: date_to_string_text sint_date_number)

lemma date_number_text:
  assumes "-719528 \<le> sint n" "sint n \<le> 2932896"
  obtains y m d where "y < 10000" "is_valid_date (int y) (int m) (int d)"
    "sint n = days_from_civil (int y) (int m) (int d)" "date_to_string n = date_text y m d"
proof -
  obtain y m d where c: "civil_from_days (sint n) = (y, m, d)" by (cases "civil_from_days (sint n)")
  note v = civil_from_days_valid [OF c]
  have b: "0 \<le> y" "y \<le> 9999" "1 \<le> m" "1 \<le> d"
    using days_from_civil_range [OF v(1)] assms v(2) valid_date_bounds [OF v(1)] by auto
  then show thesis
    using that [of "nat y" "nat m" "nat d"] v date_to_string_text [of "nat y" "nat m" "nat d" n] by simp
qed

lemma date_string_printed:
  assumes "-719528 \<le> sint n" "sint n \<le> 2932896"
  shows "date_from_string (date_to_string n) = Some n"
proof -
  obtain y m d where "y < 10000" "is_valid_date (int y) (int m) (int d)"
    "sint n = days_from_civil (int y) (int m) (int d)" "date_to_string n = date_text y m d"
    by (rule date_number_text [OF assms])
  then show ?thesis
    using valid_date_bounds [of "int y" "int m" "int d"] word_of_int_sint_32 [of n] by (simp add: date_from_string_text)
qed

lemma date_text_range:
  assumes "date_from_string s = Some n"
  shows "-719528 \<le> sint n" "sint n \<le> 2932896" "length s = 10"
proof -
  obtain y m d where d: "y < 10000" "is_valid_date (int y) (int m) (int d)" "s = date_text y m d"
    "n = word_of_int (days_from_civil (int y) (int m) (int d))"
    using assms by (rule date_from_string_SomeD)
  show "-719528 \<le> sint n" "sint n \<le> 2932896"
    using days_from_civil_range [OF d(2)] d(1) sint_date_number [OF d(2,1)] by (simp_all add: d(4))
  show "length s = 10" using d valid_date_bounds [OF d(2)] by (simp add: length_date_text)
qed

lemma time_from_string_text:
  assumes "h < 100" "m < 100" "s < 100"
  shows "time_from_string (time_text h m s) =
    (if h > 23 \<or> m > 59 \<or> s > 59 then None else Some (of_nat (h * 3600 + m * 60 + s)))"
proof -
  have len: "length (padded 2 h) = 2" "length (padded 2 m) = 2" "length (padded 2 s) = 2"
    using assms by (simp_all add: length_padded)
  have "parse_number (time_text h m s) 0 2 = Some h" "parse_number (time_text h m s) 3 2 = Some m"
    "parse_number (time_text h m s) 6 2 = Some s"
    by (simp_all add: parse_number_iff time_text_def len)
  then show ?thesis
    by (simp add: time_from_string_def length_time_text assms) (simp add: time_text_def nth_append len)
qed

lemma time_from_string_SomeD:
  assumes "time_from_string t = Some n"
  obtains h m s where "h < 24" "m < 60" "s < 60" "t = time_text h m s" "n = of_nat (h * 3600 + m * 60 + s)"
proof -
  have len: "length t = 8" "t ! 2 = CHR '':''" "t ! 5 = CHR '':''"
    using assms by (auto simp: time_from_string_def split: if_splits)
  then have f: "list_all isdigit (take 2 t)" "list_all isdigit (take 2 (drop 3 t))" "list_all isdigit (take 2 (drop 6 t))"
    using assms by (auto simp: time_from_string_def parse_number_iff split: if_splits)
  obtain h where h: "h < 10 ^ 2" "take 2 t = padded 2 h" using field_padded [OF _ _ f(1), of 2] len by auto
  obtain m where m: "m < 10 ^ 2" "take 2 (drop 3 t) = padded 2 m" using field_padded [OF _ _ f(2), of 2] len by auto
  obtain s where s: "s < 10 ^ 2" "take 2 (drop 6 t) = padded 2 s" using field_padded [OF _ _ f(3), of 2] len by auto
  have t: "t = time_text h m s" using three_fields [of t 2 2 2] len h(2) m(2) s(2) by (simp add: time_text_def)
  show thesis using that [OF _ _ _ t] assms h(1) m(1) s(1) time_from_string_text [of h m s]
    by (simp add: t split: if_splits)
qed

lemma time_to_string_text: "time_to_string n = time_text (unat n div 3600) (unat n mod 3600 div 60) (unat n mod 60)"
  by (simp add: time_to_string_def time_text_def two_digits_def)

lemma unat_time: "h < 24 \<Longrightarrow> m < 60 \<Longrightarrow> s < 60 \<Longrightarrow> unat (of_nat (h * 3600 + m * 60 + s) :: time) = h * 3600 + m * 60 + s"
  by (simp add: unat_of_nat take_bit_nat_eq_self del: of_nat_add of_nat_mult)

lemma hms:
  fixes h m s :: nat
  assumes "m < 60" "s < 60"
  shows "(h * 3600 + m * 60 + s) div 3600 = h" "(h * 3600 + m * 60 + s) mod 3600 div 60 = m" "(h * 3600 + m * 60 + s) mod 60 = s"
proof -
  have n: "h * 3600 + m * 60 + s = (m * 60 + s) + h * 3600" "h * 3600 + m * 60 + s = s + (h * 60 + m) * 60" by simp_all
  have b: "m * 60 + s < 3600" using assms by linarith
  show "(h * 3600 + m * 60 + s) div 3600 = h" unfolding n(1) using b by (subst div_mult_self1) simp_all
  show "(h * 3600 + m * 60 + s) mod 3600 div 60 = m" unfolding n(1) using b assms by (subst mod_mult_self1) simp
  show "(h * 3600 + m * 60 + s) mod 60 = s" unfolding n(2) using assms by (subst mod_mult_self1) simp
qed

lemma hms_sum: "n div 3600 * 3600 + n mod 3600 div 60 * 60 + n mod 60 = n" for n :: nat
proof -
  have "n mod 3600 div 60 * 60 + n mod 3600 mod 60 = n mod 3600" by (rule div_mult_mod_eq)
  moreover have "n mod 3600 mod 60 = n mod 60" by (rule mod_mod_cancel) simp
  moreover have "n div 3600 * 3600 + n mod 3600 = n" by (rule div_mult_mod_eq)
  ultimately show ?thesis by linarith
qed

lemma time_string_parsed: "time_from_string t = Some n \<Longrightarrow> time_to_string n = t \<and> unat n < 86400 \<and> length t = 8"
  by (elim time_from_string_SomeD)
    (simp add: time_to_string_text unat_time hms length_time_text del: of_nat_add of_nat_mult)

lemma time_string_printed:
  assumes "unat n < 86400"
  shows "time_from_string (time_to_string n) = Some n"
proof -
  have "unat n div 3600 < 24" "unat n mod 3600 div 60 < 60" "unat n mod 60 < 60"
    using assms by (simp_all add: less_mult_imp_div_less)
  then show ?thesis unfolding time_to_string_text
    by (subst time_from_string_text) (simp_all add: hms_sum del: of_nat_add of_nat_mult)
qed

text \<open>
  \<^verbatim>\<open>DateTime::to_string\<close> divides with truncation and corrects the remainder only, so the date part
  of a negative value that is not a whole day is one day late.
\<close>

definition printed_day :: "datetime \<Rightarrow> int" where
  "printed_day t = sint t div 86400 + (if sint t < 0 \<and> sint t mod 86400 \<noteq> 0 then 1 else 0)"

lemma sdiv_smod_day:
  "x sdiv 86400 = x div 86400 + (if x < 0 \<and> x mod 86400 \<noteq> 0 then 1 else 0)"
  "(if x smod 86400 < 0 then x smod 86400 + 86400 else x smod 86400) = x mod 86400" for x :: int
proof -
  have neg: "- x div 86400 = - (x div 86400) - (if x mod 86400 = 0 then 0 else 1)"
    "- x mod 86400 = (if x mod 86400 = 0 then 0 else 86400 - x mod 86400)"
    by (simp_all add: zdiv_zminus1_eq_if zmod_zminus1_eq_if)
  show "x sdiv 86400 = x div 86400 + (if x < 0 \<and> x mod 86400 \<noteq> 0 then 1 else 0)"
    by (simp add: signed_divide_int_def abs_if sgn_if neg)
  have "0 \<le> x mod 86400" "x mod 86400 < 86400" by simp_all
  then show "(if x smod 86400 < 0 then x smod 86400 + 86400 else x smod 86400) = x mod 86400"
    by (auto simp: signed_modulo_int_def abs_if sgn_if neg)
qed

lemma datetime_to_string_printed_day:
  "datetime_to_string t = date_to_string (word_of_int (printed_day t)) @ '' '' @ time_to_string (word_of_int (sint t mod 86400))"
  unfolding datetime_to_string_def SECONDS_PER_DAY_def Let_def sdiv_smod_day printed_day_def by (rule refl)

lemma datetime_from_string_SomeD:
  assumes "datetime_from_string s = Some t"
  obtains d u where "s = date_to_string d @ '' '' @ time_to_string u" "date_from_string (date_to_string d) = Some d"
    "unat u < 86400" "sint t div 86400 = sint d" "sint t mod 86400 = int (unat u)"
proof -
  have len: "length s = 19" "s ! 10 = CHR '' ''"
    using assms by (auto simp: datetime_from_string_def split: if_splits)
  then obtain d u where du: "date_from_string (take 10 s) = Some d" "time_from_string (take 8 (drop 11 s)) = Some u"
    "t = word_of_int (sint d * 86400 + int (unat u))"
    using assms by (auto simp: datetime_from_string_def SECONDS_PER_DAY_def split: option.splits)
  note r = date_text_range [OF du(1)] and u = time_string_parsed [OF du(2)]
  have "s = take 10 s @ s ! 10 # drop (Suc 10) s" using len by (intro id_take_nth_drop) simp
  then have s: "s = date_to_string d @ '' '' @ time_to_string u"
    using date_string_parsed [OF du(1)] u len by simp
  have b: "0 \<le> int (unat u)" "int (unat u) < 86400" using u by linarith+
  have "sint t = int (unat u) + sint d * 86400"
  proof -
    have "- (2 ^ 63) \<le> sint d * 86400 + int (unat u)" "sint d * 86400 + int (unat u) < 2 ^ 63"
      using b r(1,2) unfolding power_63 by linarith+
    then show ?thesis unfolding du(3) by (subst sint_word_of_int_64) simp_all
  qed
  then have "sint t div 86400 = sint d" "sint t mod 86400 = int (unat u)"
    using b by (simp_all del: int_nat_eq of_nat_unat)
  then show thesis using that [OF s] du(1) date_string_parsed [OF du(1)] u by simp
qed

lemma datetime_string_parsed:
  assumes "datetime_from_string s = Some t"
  shows "datetime_to_string t = s \<longleftrightarrow> 0 \<le> sint t \<or> sint t mod 86400 = 0"
proof -
  obtain d u where du: "s = date_to_string d @ '' '' @ time_to_string u" "date_from_string (date_to_string d) = Some d"
    "unat u < 86400" "sint t div 86400 = sint d" "sint t mod 86400 = int (unat u)"
    using assms by (rule datetime_from_string_SomeD)
  note r = date_text_range [OF du(2)]
  have same: "datetime_to_string t = s" if "printed_day t = sint d"
    using that by (simp add: datetime_to_string_printed_day du(1,5))
  have late: "date_to_string (word_of_int (sint d + 1)) \<noteq> date_to_string d" if "sint t < 0"
  proof
    have "sint d < 0" using that du(4) by (simp flip: du(4)) 
    then have i: "sint (word_of_int (sint d + 1) :: date) = sint d + 1"
      using r by (intro sint_word_of_int_32) auto
    have "date_from_string (date_to_string (word_of_int (sint d + 1))) = Some (word_of_int (sint d + 1))"
      using i r \<open>sint d < 0\<close> by (intro date_string_printed) simp_all
    moreover assume "date_to_string (word_of_int (sint d + 1)) = date_to_string d"
    ultimately have "word_of_int (sint d + 1) = d" using du(2) by simp
    with i show False by simp
  qed
  show ?thesis
  proof (cases "0 \<le> sint t \<or> sint t mod 86400 = 0")
    case True then show ?thesis using same du(4) by (auto simp: printed_day_def)
  next
    case False
    then have "datetime_to_string t = date_to_string (word_of_int (sint d + 1)) @ '' '' @ time_to_string u"
      using du(4,5) by (simp add: datetime_to_string_printed_day printed_day_def)
    then show ?thesis using late False du(1) by simp
  qed
qed

section \<open>Properties\<close>



text \<open>
  C6. Text of dates and times: a text that \<open>from_string\<close> accepts is exactly the text \<open>to_string\<close>
  prints for the value read, and every date of the years 0 to 9999 and every time of day is
  read back from its text.\<close>

theorem date_time_text_roundtrip:
  "(date_from_string s = Some dv \<longrightarrow> date_to_string dv = s) \<and>
   (-719528 \<le> sint dv \<and> sint dv \<le> 2932896 \<longrightarrow> date_from_string (date_to_string dv) = Some dv) \<and>
   (time_from_string u = Some tv \<longrightarrow> time_to_string tv = u \<and> unat tv < 86400) \<and>
   (unat tv < 86400 \<longrightarrow> time_from_string (time_to_string tv) = Some tv)"
  using date_string_parsed date_string_printed time_string_parsed time_string_printed by blast

theorem date_time_text_roundtrip_witness:
  "date_to_string 19782 = ''2024-02-29'' \<and> date_from_string (date_to_string 19782) = Some 19782 \<and>
   time_to_string 86399 = ''23:59:59'' \<and> time_from_string (time_to_string 86399) = Some 86399"
proof -
  have t: "date_from_string ''2024-02-29'' = Some 19782" "time_from_string ''23:59:59'' = Some 86399"
    by (simp_all add: date_from_string_def time_from_string_def parse_number_def is_valid_date_def
        days_in_month_values days_from_civil_closed is_leap_year_iff year_start_def march_day_def)
  have "-719528 \<le> sint (19782 :: date)" "sint (19782 :: date) \<le> 2932896" "unat (86399 :: time) < 86400" by simp_all
  then show ?thesis
    using date_time_text_roundtrip [of "''2024-02-29''" 19782 "''23:59:59''" 86399] t by blast
qed

text \<open>
  C7. Text of date-times: an accepted text is printed back unchanged exactly when the value is not
  before the epoch or is a whole day. Every other accepted text before 1970 is printed with
  the date of the following day, because the quotient is truncated and only the remainder is
  corrected.\<close>

theorem datetime_text_roundtrip_iff:
  assumes "datetime_from_string s = Some t"
  shows "(datetime_to_string t = s \<longleftrightarrow> 0 \<le> sint t \<or> sint t mod 86400 = 0) \<and>
    datetime_to_string t = date_to_string (word_of_int (printed_day t)) @ '' '' @ drop 11 s"
proof
  show "datetime_to_string t = s \<longleftrightarrow> 0 \<le> sint t \<or> sint t mod 86400 = 0"
    by (rule datetime_string_parsed [OF assms])
  obtain d u where "s = date_to_string d @ '' '' @ time_to_string u" "date_from_string (date_to_string d) = Some d"
    "sint t mod 86400 = int (unat u)" using assms by (rule datetime_from_string_SomeD)
  then show "datetime_to_string t = date_to_string (word_of_int (printed_day t)) @ '' '' @ drop 11 s"
    using date_text_range(3) [of "date_to_string d" d] by (simp add: datetime_to_string_printed_day)
qed

theorem datetime_text_roundtrip_iff_witness:
  "datetime_from_string ''1969-12-31 23:59:59'' = Some (-1) \<and>
   datetime_to_string (-1) = ''1970-01-01 23:59:59'' \<and> datetime_to_string (-1) \<noteq> ''1969-12-31 23:59:59''"
proof -
  have t: "datetime_from_string ''1969-12-31 23:59:59'' = Some (-1)" "date_to_string (word_of_int (printed_day (-1))) = ''1970-01-01''"
    by (simp_all add: datetime_from_string_def SECONDS_PER_DAY_def date_from_string_def time_from_string_def parse_number_def is_valid_date_def
        days_in_month_values days_from_civil_closed is_leap_year_iff year_start_def march_day_def printed_day_def) (code_simp)
  have s: "\<not> (0 \<le> sint (-1 :: datetime) \<or> sint (-1 :: datetime) mod 86400 = 0)" by code_simp
  have d: "''1970-01-01'' @ '' '' @ drop 11 ''1969-12-31 23:59:59'' = ''1970-01-01 23:59:59''" by code_simp
  show ?thesis
    using t(1) s datetime_text_roundtrip_iff [OF t(1), unfolded t(2) d] by blast
qed

end
