(* ===== verification/Value.thy ===== *)
theory Value
  imports Schema Date_Time
begin

text \<open>
  Values and rows, from \<^verbatim>\<open>src/src/record/value.cpp\<close> and \<^verbatim>\<open>src/src/record/row.cpp\<close>. A \<^verbatim>\<open>Value\<close> is the
  record of its private fields; it is only ever built by the factory functions, which is what
  \<open>value_wf\<close> says. A \<^verbatim>\<open>Row\<close> is its list of values.
\<close>

section \<open>Data\<close>

record Value =
  v_is_null :: bool
  v_type :: ColumnType
  v_integer :: "64 word"
  v_number :: "64 word"
  v_string :: string
  v_date :: date
  v_time :: time
  v_datetime :: datetime

type_synonym Row = "Value list"

definition null_value :: Value where
  "null_value = \<lparr>v_is_null = True, v_type = ty_null, v_integer = 0, v_number = 0, v_string = '''',
     v_date = 0, v_time = 0, v_datetime = 0\<rparr>"

definition integer_value :: "64 word \<Rightarrow> Value" where
  "integer_value x = null_value\<lparr>v_is_null := False, v_type := ty_integer, v_integer := x\<rparr>"
definition number_value :: "64 word \<Rightarrow> Value" where
  "number_value x = null_value\<lparr>v_is_null := False, v_type := ty_number, v_number := x\<rparr>"
definition char_value :: "char \<Rightarrow> Value" where
  "char_value x = null_value\<lparr>v_is_null := False, v_type := ty_character, v_string := [x]\<rparr>"
definition string_value :: "string \<Rightarrow> Value" where
  "string_value x = null_value\<lparr>v_is_null := False, v_type := ty_string, v_string := x\<rparr>"
definition varstring_value :: "string \<Rightarrow> Value" where
  "varstring_value x = null_value\<lparr>v_is_null := False, v_type := ty_varstring, v_string := x\<rparr>"
definition date_value :: "date \<Rightarrow> Value" where
  "date_value x = null_value\<lparr>v_is_null := False, v_type := ty_date, v_date := x\<rparr>"
definition time_value :: "time \<Rightarrow> Value" where
  "time_value x = null_value\<lparr>v_is_null := False, v_type := ty_time, v_time := x\<rparr>"
definition datetime_value :: "datetime \<Rightarrow> Value" where
  "datetime_value x = null_value\<lparr>v_is_null := False, v_type := ty_datetime, v_datetime := x\<rparr>"
definition text_value :: "string \<Rightarrow> Value" where
  "text_value x = null_value\<lparr>v_is_null := False, v_type := ty_text, v_string := x\<rparr>"

lemmas value_defs = null_value_def integer_value_def number_value_def char_value_def string_value_def
  varstring_value_def date_value_def time_value_def datetime_value_def text_value_def

section \<open>Operations\<close>

definition is_string_like :: "ColumnType \<Rightarrow> bool" where
  "is_string_like ty \<longleftrightarrow> ty = ty_character \<or> ty = ty_string \<or> ty = ty_varstring \<or> ty = ty_text"

fun digit_count_loop :: "u8 \<Rightarrow> nat \<Rightarrow> u8" where
  "digit_count_loop digits val = (if val \<ge> 10 then digit_count_loop (digits + 1) (val div 10) else digits)"

declare digit_count_loop.simps [simp del]

definition digit_count :: "u64 \<Rightarrow> u8" where
  "digit_count val = digit_count_loop 1 (unat val)"

definition absolute_value :: "64 word \<Rightarrow> u64" where
  "absolute_value x = (if sint x \<ge> 0 then x else - (x + 1) + 1)"

definition matches_column :: "Value \<Rightarrow> Column \<Rightarrow> bool" where
  "matches_column v c =
     (if v_is_null v then col_nullable c
      else if v_type v \<noteq> col_type c then False
      else if v_type v = ty_character then length (v_string v) = unat CHAR_SIZE
      else if v_type v = ty_string then length (v_string v) \<le> unat (col_max_size c)
      else if v_type v = ty_number then digit_count (absolute_value (v_number v)) \<le> col_precision c
      else if v_type v = ty_date \<or> v_type v = ty_time \<or> v_type v = ty_datetime then True
      else if is_string_like (v_type v) then length (v_string v) \<le> unat (col_max_size c)
      else True)"

definition value_count :: "Row \<Rightarrow> u16" where
  "value_count row = of_nat (length row)"

definition row_value :: "Row \<Rightarrow> u16 \<Rightarrow> Value option" where
  "row_value row i = (if unat i \<ge> length row then None else Some (row ! unat i))"

section \<open>Values of the class\<close>

text \<open>The value a factory builds from the field that belongs to the type.\<close>

primrec value_of_type :: "ColumnType \<Rightarrow> Value \<Rightarrow> Value" where
  "value_of_type ty_null v = null_value"
| "value_of_type ty_integer v = integer_value (v_integer v)"
| "value_of_type ty_number v = number_value (v_number v)"
| "value_of_type ty_character v = (case v_string v of [] \<Rightarrow> null_value | ch # _ \<Rightarrow> char_value ch)"
| "value_of_type ty_string v = string_value (v_string v)"
| "value_of_type ty_varstring v = varstring_value (v_string v)"
| "value_of_type ty_date v = date_value (v_date v)"
| "value_of_type ty_time v = time_value (v_time v)"
| "value_of_type ty_datetime v = datetime_value (v_datetime v)"
| "value_of_type ty_text v = text_value (v_string v)"

definition value_wf :: "Value \<Rightarrow> bool" where
  "value_wf v \<longleftrightarrow> v = (if v_is_null v then null_value else value_of_type (v_type v) v)"

lemma value_wf_factories [simp]:
  "value_wf null_value" "value_wf (integer_value i)" "value_wf (number_value i)" "value_wf (char_value ch)"
  "value_wf (string_value t)" "value_wf (varstring_value t)" "value_wf (date_value d)" "value_wf (time_value u)"
  "value_wf (datetime_value e)" "value_wf (text_value t)"
  by (simp_all add: value_wf_def value_defs)

lemma value_wf_nullD: "value_wf v \<Longrightarrow> v_is_null v \<Longrightarrow> v = null_value"
  by (simp add: value_wf_def)

lemma value_wf_typeD: "value_wf v \<Longrightarrow> \<not> v_is_null v \<Longrightarrow> v = value_of_type (v_type v) v"
  by (simp add: value_wf_def)

section \<open>Digits\<close>

lemma digit_count_loop_add:
  "val < 10 ^ k \<Longrightarrow> 0 < k \<Longrightarrow> k \<le> 20 \<Longrightarrow> unat digits + k \<le> 255 \<Longrightarrow>
   unat (digit_count_loop digits val) = unat digits + (length (show_nat val) - 1)"
proof (induction digits val arbitrary: k rule: digit_count_loop.induct)
  case (1 digits val)
  show ?case
  proof (cases "val \<ge> 10")
    case True
    then obtain j where j: "k = Suc j" "0 < j" using "1.prems"(1,2) by (cases k; cases "k - 1") auto
    have d: "unat (digits + 1) = unat digits + 1"
      using "1.prems"(2,4) by (simp add: unat_word_ariths)
    have "val div 10 < 10 ^ j" using "1.prems"(1) j by (simp add: less_mult_imp_div_less)
    then have "unat (digit_count_loop (digits + 1) (val div 10)) = unat (digits + 1) + (length (show_nat (val div 10)) - 1)"
      using True "1.prems" j d by (intro "1.IH") auto
    then show ?thesis using True d length_greater_0_conv [of "show_nat (val div 10)"]
      by (subst digit_count_loop.simps, subst show_nat.simps [of val]) (simp del: length_greater_0_conv)
  qed (simp add: digit_count_loop.simps show_nat.simps)
qed

lemma length_show_nat_iff: "0 < k \<Longrightarrow> length (show_nat n) \<le> k \<longleftrightarrow> n < 10 ^ k"
proof
  assume "length (show_nat n) \<le> k"
  then have "(10::nat) ^ length (show_nat n) \<le> 10 ^ k" by simp
  moreover have "n < 10 ^ length (show_nat n)" using read_digits_bound [OF digits_show_nat, of 0 n] by simp
  ultimately show "n < 10 ^ k" by (rule order.strict_trans2 [rotated])
qed (rule length_show_nat)

lemma digit_count_eq: "unat (digit_count v) = length (show_nat (unat v))"
proof -
  have "unat v < 2 ^ 64" by (rule order.strict_trans2 [OF unsigned_less]) simp
  then have "unat v < 10 ^ 20" by simp
  then have "unat (digit_count v) = unat (1 :: u8) + (length (show_nat (unat v)) - 1)"
    unfolding digit_count_def by (rule digit_count_loop_add) simp_all
  then show ?thesis using length_greater_0_conv [of "show_nat (unat v)"] by (simp del: length_greater_0_conv)
qed

lemma absolute_value_abs: "int (unat (absolute_value x)) = \<bar>sint x\<bar>"
proof -
  have "x = word_of_int (sint x)" by simp
  then have "absolute_value x = word_of_int \<bar>sint x\<bar>"
    by (cases "sint x \<ge> 0") (simp_all add: absolute_value_def)
  moreover have "\<bar>sint x\<bar> < 2 ^ 64"
    using sint_greater_eq [of x] sint_less [of x] by simp
  ultimately show ?thesis by (simp add: uint_word_of_int)
qed

lemma digit_count_abs_le:
  assumes "0 < p"
  shows "digit_count (absolute_value x) \<le> p \<longleftrightarrow> \<bar>sint x\<bar> < 10 ^ unat p"
proof -
  have "0 < unat p" using assms by (simp add: word_gt_0 unat_gt_0)
  have "digit_count (absolute_value x) \<le> p \<longleftrightarrow> unat (absolute_value x) < 10 ^ unat p"
    unfolding word_le_nat_alt digit_count_eq by (rule length_show_nat_iff) fact
  also have "\<dots> \<longleftrightarrow> int (unat (absolute_value x)) < int (10 ^ unat p)" by (simp only: of_nat_less_iff)
  finally show ?thesis by (simp add: absolute_value_abs del: of_nat_unat)
qed

text \<open>The values a column of a valid schema accepts.\<close>

lemma matches_column_iff:
  assumes "column_is_valid c" "\<not> v_is_null v"
  shows "matches_column v c \<longleftrightarrow> v_type v = col_type c \<and>
    (col_type c = ty_character \<longrightarrow> length (v_string v) = 1) \<and>
    (col_type c \<in> {ty_string, ty_varstring, ty_text} \<longrightarrow> length (v_string v) \<le> unat (col_max_size c)) \<and>
    (col_type c = ty_number \<longrightarrow> \<bar>sint (v_number v)\<bar> < 10 ^ unat (col_precision c))"
proof -
  have "col_type c = ty_number \<Longrightarrow> 0 < col_precision c" using assms(1) by (auto simp: column_is_valid_def split: if_splits)
  then show ?thesis using assms(2)
    by (cases "col_type c") (auto simp: matches_column_def CHAR_SIZE_def is_string_like_def digit_count_abs_le)
qed

end
