(* ===== verification/Serializer.thy ===== *)
theory Serializer
  imports Value
begin

text \<open>
  The record format, from \<^verbatim>\<open>src/src/record/serializer.cpp\<close>: a null bitmap, a fixed area with one
  field per column, and the payload of variable columns behind it. Sizes that the source
  keeps in \<^verbatim>\<open>uint16_t\<close> are 16-bit words. \<^verbatim>\<open>serialize\<close> and \<^verbatim>\<open>deserialize\<close> return \<open>Inr None\<close> for
  \<^verbatim>\<open>false\<close>; an access outside the byte vector is \<open>Inl Out_of_bounds\<close>.

  The lemmas show that serialization is defined and succeeds exactly on rows that match the
  schema, that a row is read back from its record, and where the 16-bit size of the fixed
  area overflows.
\<close>

section \<open>Bytes of a record\<close>

definition storage_size :: "Column \<Rightarrow> u16" where
  "storage_size c =
     (if is_variable_type (col_type c) then VAR_POINTER_SIZE
      else if col_type c = ty_string then col_max_size c
      else fixed_size (col_type c))"

definition write_uint16_at :: "bytes \<Rightarrow> nat \<Rightarrow> u16 \<Rightarrow> fault + bytes" where
  "write_uint16_at rec pos v =
     (if pos + 1 < length rec then Inr (rec[pos := ucast (v AND 0xff), pos + 1 := ucast (drop_bit 8 v AND 0xff)])
      else Inl Out_of_bounds)"

definition write_int64_at :: "bytes \<Rightarrow> nat \<Rightarrow> 64 word \<Rightarrow> fault + bytes" where
  "write_int64_at rec pos v =
     (if pos + 8 \<le> length rec
      then Inr (fold (\<lambda>i rec. rec[pos + i := ucast (drop_bit (i * 8) v AND 0xff)]) [0..<8] rec)
      else Inl Out_of_bounds)"

definition write_uint32_at :: "bytes \<Rightarrow> nat \<Rightarrow> u32 \<Rightarrow> fault + bytes" where
  "write_uint32_at rec pos v =
     (if pos + 4 \<le> length rec
      then Inr (fold (\<lambda>i rec. rec[pos + i := ucast (drop_bit (i * 8) v AND 0xff)]) [0..<4] rec)
      else Inl Out_of_bounds)"

definition write_int32_at :: "bytes \<Rightarrow> nat \<Rightarrow> 32 word \<Rightarrow> fault + bytes" where
  "write_int32_at rec pos v = write_uint32_at rec pos v"

definition read_uint16_at :: "bytes \<Rightarrow> nat \<Rightarrow> u16 option" where
  "read_uint16_at rec pos =
     (if pos + 2 > length rec then None
      else Some (ucast (rec ! pos) OR push_bit 8 (ucast (rec ! (pos + 1)))))"

definition read_int64_at :: "bytes \<Rightarrow> nat \<Rightarrow> 64 word option" where
  "read_int64_at rec pos =
     (if pos + unat INTEGER_SIZE > length rec then None
      else Some (fold (\<lambda>i raw. raw OR push_bit (i * 8) (ucast (rec ! (pos + i)))) [0..<unat INTEGER_SIZE] 0))"

definition read_uint32_at :: "bytes \<Rightarrow> nat \<Rightarrow> u32 option" where
  "read_uint32_at rec pos =
     (if pos + 4 > length rec then None
      else Some (fold (\<lambda>i raw. raw OR push_bit (i * 8) (ucast (rec ! (pos + i)))) [0..<4] 0))"

definition read_int32_at :: "bytes \<Rightarrow> nat \<Rightarrow> 32 word option" where
  "read_int32_at rec pos = (case read_uint32_at rec pos of None \<Rightarrow> None | Some raw \<Rightarrow> Some raw)"

definition null_bit_is_set :: "bytes \<Rightarrow> nat \<Rightarrow> fault + bool" where
  "null_bit_is_set rec i =
     (if i div 8 < length rec then Inr (rec ! (i div 8) AND push_bit (i mod 8) 1 \<noteq> 0) else Inl Out_of_bounds)"

definition set_null_bit :: "bytes \<Rightarrow> nat \<Rightarrow> fault + bytes" where
  "set_null_bit rec i =
     (if i div 8 < length rec then Inr (rec[i div 8 := rec ! (i div 8) OR push_bit (i mod 8) 1]) else Inl Out_of_bounds)"

definition read_padded_string :: "bytes \<Rightarrow> nat \<Rightarrow> u16 \<Rightarrow> fault + string" where
  "read_padded_string rec pos width =
     (if pos + unat width \<le> length rec
      then Inr (rev (dropWhile (\<lambda>c. c = CHR 0x00) (rev (map char_of_byte (get_bytes rec pos (unat width))))))
      else Inl Out_of_bounds)"

definition null_bitmap_size :: "u16 \<Rightarrow> u16" where
  "null_bitmap_size n = of_nat ((unat n + 7) div 8)"

definition fixed_area_size :: "Schema \<Rightarrow> u16" where
  "fixed_area_size s = fold (\<lambda>c total. total + storage_size c) (columns s) 0"

section \<open>Serialization\<close>

text \<open>The body of the loop over the columns once the value is known to match.\<close>

definition serialize_field :: "Column \<Rightarrow> Value \<Rightarrow> nat \<Rightarrow> nat \<Rightarrow> bytes \<Rightarrow> fault + bytes option" where
  "serialize_field c v i pos out =
     (if v_is_null v then bindE (set_null_bit out i) (Inr \<circ> Some)
      else if col_type c = ty_integer then bindE (write_int64_at out pos (v_integer v)) (Inr \<circ> Some)
      else if col_type c = ty_number then bindE (write_int64_at out pos (v_number v)) (Inr \<circ> Some)
      else if col_type c = ty_character then
        (if pos < length out then Inr (Some (out[pos := byte_of (v_string v ! 0)])) else Inl Out_of_bounds)
      else if col_type c = ty_string then
        (if pos + length (v_string v) \<le> length out
         then Inr (Some (put_bytes out pos (map byte_of (v_string v)))) else Inl Out_of_bounds)
      else if col_type c = ty_date then bindE (write_int32_at out pos (v_date v)) (Inr \<circ> Some)
      else if col_type c = ty_time then bindE (write_uint32_at out pos (v_time v)) (Inr \<circ> Some)
      else if col_type c = ty_datetime then bindE (write_int64_at out pos (v_datetime v)) (Inr \<circ> Some)
      else if is_variable_type (col_type c) then
        (let txt = v_string v; offset = of_nat (length out) in
         bindE (write_uint16_at out pos (of_nat (length txt))) (\<lambda>out.
         bindE (write_uint16_at out (pos + 2) offset) (\<lambda>out.
         Inr (Some (out @ map byte_of txt)))))
      else Inr None)"

fun serialize_loop :: "Schema \<Rightarrow> Row \<Rightarrow> nat list \<Rightarrow> nat \<Rightarrow> bytes \<Rightarrow> fault + bytes option" where
  "serialize_loop s row [] fixed_pos out = Inr (Some out)"
| "serialize_loop s row (i # is) fixed_pos out =
     (case (schema_column s (of_nat i), row_value row (of_nat i)) of
        (Some column, Some val) \<Rightarrow>
          if \<not> matches_column val column then Inr None
          else bindE (serialize_field column val i fixed_pos out) (\<lambda>r.
               case r of None \<Rightarrow> Inr None
               | Some out \<Rightarrow> serialize_loop s row is (fixed_pos + unat (storage_size column)) out)
      | _ \<Rightarrow> Inr None)"

definition serialize :: "Schema \<Rightarrow> Row \<Rightarrow> fault + bytes option" where
  "serialize s row =
     (if \<not> schema_is_valid s \<or> value_count row \<noteq> column_count s then Inr None
      else let bitmap = unat (null_bitmap_size (column_count s));
               out = replicate (bitmap + unat (fixed_area_size s)) 0
           in serialize_loop s row [0..<unat (column_count s)] bitmap out)"

definition deserialize_field :: "Column \<Rightarrow> nat \<Rightarrow> nat \<Rightarrow> bytes \<Rightarrow> fault + Value option" where
  "deserialize_field c i pos rec =
     bindE (null_bit_is_set rec i) (\<lambda>null.
     if null then Inr (if \<not> col_nullable c then None else Some null_value)
     else if col_type c = ty_integer then Inr (map_option integer_value (read_int64_at rec pos))
     else if col_type c = ty_number then Inr (map_option number_value (read_int64_at rec pos))
     else if col_type c = ty_character then
       (if pos < length rec then Inr (Some (char_value (char_of_byte (rec ! pos)))) else Inl Out_of_bounds)
     else if col_type c = ty_string then
       bindE (read_padded_string rec pos (col_max_size c)) (\<lambda>t. Inr (Some (string_value t)))
     else if col_type c = ty_date then Inr (map_option date_value (read_int32_at rec pos))
     else if col_type c = ty_time then
       Inr (case read_uint32_at rec pos of None \<Rightarrow> None
            | Some seconds \<Rightarrow> if unat seconds \<ge> 86400 then None else Some (time_value seconds))
     else if col_type c = ty_datetime then Inr (map_option datetime_value (read_int64_at rec pos))
     else if is_variable_type (col_type c) then
       Inr (case (read_uint16_at rec pos, read_uint16_at rec (pos + 2)) of
              (Some len, Some offset) \<Rightarrow>
                if len > col_max_size c \<or> unat offset + unat len > length rec then None
                else let txt = map char_of_byte (get_bytes rec (unat offset) (unat len))
                     in Some (if col_type c = ty_text then text_value txt else varstring_value txt)
            | _ \<Rightarrow> None)
     else Inr None)"

fun deserialize_loop :: "Schema \<Rightarrow> bytes \<Rightarrow> nat list \<Rightarrow> nat \<Rightarrow> Row \<Rightarrow> fault + Row option" where
  "deserialize_loop s rec [] fixed_pos vals = Inr (Some vals)"
| "deserialize_loop s rec (i # is) fixed_pos vals =
     (case schema_column s (of_nat i) of
        None \<Rightarrow> Inr None
      | Some column \<Rightarrow>
          bindE (deserialize_field column i fixed_pos rec) (\<lambda>r.
          case r of None \<Rightarrow> Inr None
          | Some v \<Rightarrow> deserialize_loop s rec is (fixed_pos + unat (storage_size column)) (vals @ [v])))"

definition deserialize :: "Schema \<Rightarrow> bytes \<Rightarrow> fault + Row option" where
  "deserialize s rec =
     (let bitmap = unat (null_bitmap_size (column_count s)) in
      if \<not> schema_is_valid s \<or> length rec < bitmap then Inr None
      else if length rec < bitmap + unat (fixed_area_size s) then Inr None
      else deserialize_loop s rec [0..<unat (column_count s)] bitmap [])"

section \<open>Bits and blocks\<close>

definition null_bit :: "bytes \<Rightarrow> nat \<Rightarrow> bool" where
  "null_bit rec i = bit (rec ! (i div 8)) (i mod 8)"

lemma and_single_bit: "(w AND push_bit k 1 \<noteq> 0) = (k < LENGTH('a) \<and> bit w k)" for w :: "'a::len word"
proof
  assume "w AND push_bit k 1 \<noteq> 0"
  then obtain n where "bit (w AND push_bit k 1) n" using bit_eqI [of "w AND push_bit k 1" 0] by auto
  then have "n = k" "bit w k" by (auto simp: bit_simps)
  then show "k < LENGTH('a) \<and> bit w k" by (auto dest: bit_imp_le_length)
next
  assume "k < LENGTH('a) \<and> bit w k"
  then have "bit (w AND push_bit k 1) k" by (simp add: bit_simps)
  then show "w AND push_bit k 1 \<noteq> 0" by auto
qed

lemma null_bit_is_set_eq: "i div 8 < length rec \<Longrightarrow> null_bit_is_set rec i = Inr (null_bit rec i)"
  by (simp add: null_bit_is_set_def and_single_bit null_bit_def del: push_bit_of_1)

lemma set_null_bit_eq:
  assumes "i div 8 < length rec"
  obtains rec' where "set_null_bit rec i = Inr rec'" "length rec' = length rec"
    "\<And>j. null_bit rec' j = (j = i \<or> null_bit rec j)" "\<And>p. p \<noteq> i div 8 \<Longrightarrow> rec' ! p = rec ! p"
proof -
  let ?rec = "rec[i div 8 := rec ! (i div 8) OR push_bit (i mod 8) 1]"
  have same: "j = i" if "j div 8 = i div 8" "j mod 8 = i mod 8" for j using that by (metis div_mult_mod_eq)
  have "null_bit ?rec j = (j = i \<or> null_bit rec j)" for j
    using assms same by (cases "j div 8 = i div 8") (auto simp: null_bit_def bit_simps)
  then show thesis using that [of ?rec] assms by (simp add: set_null_bit_def)
qed

lemma write_at_put:
  "pos + 2 \<le> length rec \<Longrightarrow> write_uint16_at rec pos w2 = Inr (put_bytes rec pos (le_bytes 2 w2))"
  "pos + 8 \<le> length rec \<Longrightarrow> write_int64_at rec pos w8 = Inr (put_bytes rec pos (le_bytes 8 w8))"
  "pos + 4 \<le> length rec \<Longrightarrow> write_uint32_at rec pos w4 = Inr (put_bytes rec pos (le_bytes 4 w4))"
  using fold_update_put [of pos 8 rec "\<lambda>i. ucast (drop_bit (i * 8) w8 AND 0xff)"]
    fold_update_put [of pos 4 rec "\<lambda>i. ucast (drop_bit (i * 8) w4 AND 0xff)"]
  by (simp_all add: write_uint16_at_def write_int64_at_def write_uint32_at_def le_bytes_2 le_bytes_def [of 8] le_bytes_def [of 4] list_update_2_put_bytes)

lemma read_at_le:
  "pos + 2 \<le> length rec \<Longrightarrow> read_uint16_at rec pos = Some (le_read 2 rec pos)"
  "pos + 8 \<le> length rec \<Longrightarrow> read_int64_at rec pos = Some (le_read 8 rec pos)"
  "pos + 4 \<le> length rec \<Longrightarrow> read_uint32_at rec pos = Some (le_read 4 rec pos)"
  by (simp_all add: read_uint16_at_def read_int64_at_def read_uint32_at_def le_read_2 INTEGER_SIZE_def le_read_def [of 8] le_read_def [of 4])

section \<open>What a record says of a column\<close>

abbreviation width :: "Column \<Rightarrow> nat" where "width c \<equiv> unat (storage_size c)"

text \<open>
  \<open>encodes base rec i pos c v\<close>: the record holds value \<open>v\<close> of the \<open>i\<close>-th column \<open>c\<close> whose field is at
  \<open>pos\<close>; \<open>base\<close> is the end of the fixed area, where the payload of variable columns starts.
\<close>

definition encodes :: "nat \<Rightarrow> bytes \<Rightarrow> nat \<Rightarrow> nat \<Rightarrow> Column \<Rightarrow> Value \<Rightarrow> bool" where
  "encodes base rec i pos c v \<longleftrightarrow>
     (if v_is_null v then null_bit rec i
      else \<not> null_bit rec i \<and>
       (case col_type c of
          ty_integer \<Rightarrow> get_bytes rec pos 8 = le_bytes 8 (v_integer v)
        | ty_number \<Rightarrow> get_bytes rec pos 8 = le_bytes 8 (v_number v)
        | ty_datetime \<Rightarrow> get_bytes rec pos 8 = le_bytes 8 (v_datetime v)
        | ty_date \<Rightarrow> get_bytes rec pos 4 = le_bytes 4 (v_date v)
        | ty_time \<Rightarrow> get_bytes rec pos 4 = le_bytes 4 (v_time v)
        | ty_character \<Rightarrow> get_bytes rec pos 1 = [byte_of (v_string v ! 0)]
        | ty_string \<Rightarrow> get_bytes rec pos (width c) =
            map byte_of (v_string v) @ replicate (width c - length (v_string v)) 0
        | ty_null \<Rightarrow> False
        | _ \<Rightarrow> \<exists>off. base \<le> off \<and> off + length (v_string v) \<le> length rec \<and>
            get_bytes rec pos 4 = le_bytes 2 (of_nat (length (v_string v)) :: u16) @ le_bytes 2 (of_nat off :: u16) \<and>
            get_bytes rec off (length (v_string v)) = map byte_of (v_string v)))"

lemma width_cases:
  "col_type c = ty_integer \<Longrightarrow> width c = 8" "col_type c = ty_number \<Longrightarrow> width c = 8"
  "col_type c = ty_datetime \<Longrightarrow> width c = 8" "col_type c = ty_date \<Longrightarrow> width c = 4"
  "col_type c = ty_time \<Longrightarrow> width c = 4" "col_type c = ty_character \<Longrightarrow> width c = 1"
  "col_type c = ty_varstring \<Longrightarrow> width c = 4" "col_type c = ty_text \<Longrightarrow> width c = 4"
  "col_type c = ty_string \<Longrightarrow> width c = unat (col_max_size c)"
  by (simp_all add: storage_size_def is_variable_type_def column_sizes)

lemma encodes_frame:
  assumes e: "encodes base out i pos c v" and len: "pos + width c \<le> length out" "length out \<le> length rec"
    and bit: "null_bit rec i = null_bit out i"
    and field: "\<And>j. pos \<le> j \<Longrightarrow> j < pos + width c \<Longrightarrow> rec ! j = out ! j"
    and tail: "\<And>j. base \<le> j \<Longrightarrow> j < length out \<Longrightarrow> rec ! j = out ! j"
  shows "encodes base rec i pos c v"
proof -
  have f: "get_bytes rec pos (width c) = get_bytes out pos (width c)"
    using len field by (intro get_bytes_agree) auto
  have p: "off + n \<le> length rec \<and> get_bytes rec off n = get_bytes out off n" if "base \<le> off" "off + n \<le> length out" for off n
    using that len tail by (auto intro!: get_bytes_agree)
  have "\<exists>off. base \<le> off \<and> off + n \<le> length rec \<and> P off \<and> get_bytes rec off n = B"
    if "\<exists>off. base \<le> off \<and> off + n \<le> length out \<and> P off \<and> get_bytes out off n = B" for n P B
    using that p by metis
  with e f show ?thesis
    unfolding encodes_def bit by (cases "v_is_null v"; cases "col_type c") (simp_all add: width_cases)
qed

definition payload :: "Column \<Rightarrow> Value \<Rightarrow> nat" where
  "payload c v = (if \<not> v_is_null v \<and> is_variable_type (col_type c) then length (v_string v) else 0)"

text \<open>
  \<open>written bm out i pos w out'\<close>: behind the bitmap of \<open>bm\<close> bytes only the field \<open>[pos, pos + w)\<close>
  differs from \<open>out\<close>, and in the bitmap only bit \<open>i\<close>.
\<close>

definition written :: "nat \<Rightarrow> bytes \<Rightarrow> nat \<Rightarrow> nat \<Rightarrow> nat \<Rightarrow> bytes \<Rightarrow> bool" where
  "written bm out i pos w out' \<longleftrightarrow> length out \<le> length out' \<and>
     (\<forall>j. bm \<le> j \<and> j < length out \<and> (j < pos \<or> pos + w \<le> j) \<longrightarrow> out' ! j = out ! j) \<and>
     (\<forall>k. k \<noteq> i \<and> k div 8 < bm \<longrightarrow> null_bit out' k = null_bit out k)"

lemma written_put:
  assumes "bm \<le> pos" "pos + length bs \<le> length out" "length bs \<le> w"
  shows "written bm out i pos w (put_bytes out pos bs)" "\<And>k. k div 8 < bm \<Longrightarrow> null_bit (put_bytes out pos bs) k = null_bit out k"
  using assms by (auto simp: written_def null_bit_def nth_put_bytes)

lemma written_put_append:
  assumes "bm \<le> pos" "pos + length bs \<le> length out" "length bs \<le> w"
  shows "written bm out i pos w (put_bytes out pos bs @ e)" "\<And>k. k div 8 < bm \<Longrightarrow> null_bit (put_bytes out pos bs @ e) k = null_bit out k"
  using assms by (auto simp: written_def null_bit_def nth_put_bytes nth_append)

lemma zero_block:
  assumes "pos + w \<le> length out" "\<And>j. pos \<le> j \<Longrightarrow> j < pos + w \<Longrightarrow> out ! j = 0" "length bs \<le> w"
  shows "get_bytes (put_bytes out pos bs) pos w = bs @ replicate (w - length bs) 0"
  using assms by (intro nth_equalityI) (auto simp: nth_get_bytes nth_put_bytes nth_append)

lemma put_bytes_pair:
  "pos + 4 \<le> length out \<Longrightarrow> put_bytes (put_bytes out pos (le_bytes 2 a)) (Suc (Suc pos)) (le_bytes 2 b) = put_bytes out pos (le_bytes 2 a @ le_bytes 2 b)"
  by (intro nth_equalityI) (auto simp: nth_put_bytes nth_append)

lemma serialize_field_ok:
  assumes m: "matches_column v c" "column_is_valid c"
    and pos: "bm \<le> pos" "pos + width c \<le> base" "base \<le> length out" "i div 8 < bm"
    and clear: "\<not> null_bit out i" "\<And>j. pos \<le> j \<Longrightarrow> j < pos + width c \<Longrightarrow> out ! j = 0"
  obtains out' where "serialize_field c v i pos out = Inr (Some out')" "length out' = length out + payload c v"
    "written bm out i pos (width c) out'" "encodes base out' i pos c v"
proof (cases "v_is_null v")
  case True
  have "i div 8 < length out" using pos by simp
  then obtain out' where o: "set_null_bit out i = Inr out'" "length out' = length out"
    "\<And>j. null_bit out' j = (j = i \<or> null_bit out j)" "\<And>p. p \<noteq> i div 8 \<Longrightarrow> out' ! p = out ! p"
    using set_null_bit_eq by blast
  then show thesis using True pos by (intro that [of out']) (auto simp: serialize_field_def payload_def written_def encodes_def)
next
  case False
  note result = that
  note mi = m(1) [unfolded matches_column_iff [OF m(2) False]]
  have len: "pos + width c \<le> length out" using pos by simp
  have fixed: thesis
    if w: "serialize_field c v i pos out = Inr (Some (put_bytes out pos bs))" "length bs \<le> width c" "payload c v = 0"
      and e: "\<And>rec. get_bytes rec pos (width c) = bs @ replicate (width c - length bs) 0 \<Longrightarrow> \<not> null_bit rec i \<Longrightarrow> encodes base rec i pos c v" for bs
  proof (rule result [OF w(1)])
    have b: "pos + length bs \<le> length out" using len w(2) by simp
    show "length (put_bytes out pos bs) = length out + payload c v" using b w(3) by simp
    show "written bm out i pos (width c) (put_bytes out pos bs)" using pos(1) b w(2) by (rule written_put)
    show "encodes base (put_bytes out pos bs) i pos c v"
      using zero_block [OF len clear(2) w(2)] clear(1) written_put(2) [OF pos(1) b w(2) pos(4)] by (intro e) simp_all
  qed
  have var: thesis if ty: "col_type c = ty_varstring \<or> col_type c = ty_text"
  proof -
    let ?t = "map byte_of (v_string v)"
    let ?bs = "le_bytes 2 (of_nat (length (v_string v)) :: u16) @ le_bytes 2 (of_nat (length out) :: u16)"
    have w: "width c = 4" using ty by (auto simp: width_cases)
    have b: "pos + length ?bs \<le> length out" "length ?bs \<le> width c" using len w by simp_all
    show thesis
    proof (rule result [of "put_bytes out pos ?bs @ ?t"])
      show "serialize_field c v i pos out = Inr (Some (put_bytes out pos ?bs @ ?t))"
        using False ty len w by (auto simp: serialize_field_def is_variable_type_def Let_def write_at_put put_bytes_pair)
      show "length (put_bytes out pos ?bs @ ?t) = length out + payload c v"
        using b(1) False ty by (auto simp: payload_def is_variable_type_def)
      show "written bm out i pos (width c) (put_bytes out pos ?bs @ ?t)" using pos(1) b by (rule written_put_append)
      have "get_bytes (put_bytes out pos ?bs @ ?t) pos 4 = ?bs"
        using b(1) len w by (subst get_bytes_append) simp_all
      moreover have "get_bytes (put_bytes out pos ?bs @ ?t) (length out) (length (v_string v)) = ?t"
        using get_bytes_end [of "put_bytes out pos ?bs" ?t] b(1) by simp
      moreover have "\<not> null_bit (put_bytes out pos ?bs @ ?t) i"
        using clear(1) written_put_append(2) [OF pos(1) b pos(4)] by simp
      ultimately show "encodes base (put_bytes out pos ?bs @ ?t) i pos c v"
        using False ty pos(3) b(1) by (auto simp: encodes_def intro!: exI [of _ "length out"])
    qed
  qed
  note rules = serialize_field_def encodes_def payload_def is_variable_type_def width_cases write_at_put write_int32_at_def
  show thesis
  proof (cases "col_type c")
    case ty_null then show thesis using m(2) by (simp add: column_is_valid_def)
  next case ty_integer then show thesis using False len by (intro fixed [of "le_bytes 8 (v_integer v)"]) (simp_all add: rules)
  next case ty_number then show thesis using False len by (intro fixed [of "le_bytes 8 (v_number v)"]) (simp_all add: rules)
  next case ty_character then show thesis using False len
      by (intro fixed [of "[byte_of (v_string v ! 0)]"]) (simp_all add: rules put_bytes_def upd_conv_take_nth_drop)
  next case ty_string then show thesis using False len mi
      by (intro fixed [of "map byte_of (v_string v)"]) (simp_all add: rules)
  next case ty_date then show thesis using False len by (intro fixed [of "le_bytes 4 (v_date v)"]) (simp_all add: rules)
  next case ty_time then show thesis using False len by (intro fixed [of "le_bytes 4 (v_time v)"]) (simp_all add: rules)
  next case ty_datetime then show thesis using False len by (intro fixed [of "le_bytes 8 (v_datetime v)"]) (simp_all add: rules)
  qed (use var in simp_all)
qed

section \<open>The loops\<close>

text \<open>The loops over column indices are recursions over the columns and the values.\<close>

fun ser_list :: "nat \<Rightarrow> (Column \<times> Value) list \<Rightarrow> nat \<Rightarrow> bytes \<Rightarrow> fault + bytes option" where
  "ser_list k [] pos out = Inr (Some out)"
| "ser_list k ((c, v) # cvs) pos out =
     (if \<not> matches_column v c then Inr None
      else bindE (serialize_field c v k pos out) (\<lambda>r. case r of None \<Rightarrow> Inr None
        | Some out \<Rightarrow> ser_list (Suc k) cvs (pos + width c) out))"

fun des_list :: "nat \<Rightarrow> Column list \<Rightarrow> nat \<Rightarrow> bytes \<Rightarrow> Row \<Rightarrow> fault + Row option" where
  "des_list k [] pos rec vals = Inr (Some vals)"
| "des_list k (c # cs) pos rec vals =
     bindE (deserialize_field c k pos rec) (\<lambda>r. case r of None \<Rightarrow> Inr None
       | Some v \<Rightarrow> des_list (Suc k) cs (pos + width c) rec (vals @ [v]))"

lemma serialize_loop_list:
  assumes "length (columns s) = n" "length row = n" "n < 65536" "k \<le> n"
  shows "serialize_loop s row [k..<n] pos out = ser_list k (drop k (zip (columns s) row)) pos out"
  using assms(4)
proof (induction "n - k" arbitrary: k pos out)
  case (Suc d)
  then have k: "k < n" by simp
  have "drop k (zip (columns s) row) = (columns s ! k, row ! k) # drop (Suc k) (zip (columns s) row)"
    using k assms by (simp add: Cons_nth_drop_Suc [symmetric])
  moreover have "schema_column s (of_nat k) = Some (columns s ! k)" "row_value row (of_nat k) = Some (row ! k)"
    using k assms by (simp_all add: schema_column_def row_value_def)
  moreover have "serialize_loop s row [Suc k..<n] pos' = ser_list (Suc k) (drop (Suc k) (zip (columns s) row)) pos'" for pos'
    using Suc.hyps k by (simp add: fun_eq_iff)
  ultimately show ?case using k by (simp add: upt_conv_Cons)
qed (use assms in simp)

lemma deserialize_loop_list:
  assumes "length (columns s) = n" "n < 65536" "k \<le> n"
  shows "deserialize_loop s rec [k..<n] pos vals = des_list k (drop k (columns s)) pos rec vals"
  using assms(3)
proof (induction "n - k" arbitrary: k pos vals)
  case (Suc d)
  then have k: "k < n" by simp
  have "drop k (columns s) = columns s ! k # drop (Suc k) (columns s)"
    using k assms by (simp add: Cons_nth_drop_Suc [symmetric])
  moreover have "schema_column s (of_nat k) = Some (columns s ! k)" using k assms by (simp add: schema_column_def)
  ultimately show ?case
    using Suc.hyps k by (simp add: upt_conv_Cons split: option.splits cong: option.case_cong)
qed (use assms in simp)

definition area :: "Column list \<Rightarrow> nat" where "area cs = sum_list (map width cs)"

lemma area_simps [simp]: "area [] = 0" "area (c # cs) = width c + area cs"
  by (simp_all add: area_def)

fun encodes_list :: "nat \<Rightarrow> bytes \<Rightarrow> nat \<Rightarrow> nat \<Rightarrow> (Column \<times> Value) list \<Rightarrow> bool" where
  "encodes_list base rec k pos [] = True"
| "encodes_list base rec k pos ((c, v) # cvs) \<longleftrightarrow>
     encodes base rec k pos c v \<and> encodes_list base rec (Suc k) (pos + width c) cvs"

text \<open>The state of the output vector when the loop reaches column \<open>k\<close>.\<close>

definition ser_state :: "nat \<Rightarrow> nat \<Rightarrow> nat \<Rightarrow> nat \<Rightarrow> bytes \<Rightarrow> bool" where
  "ser_state bm base k pos out \<longleftrightarrow> bm \<le> pos \<and> pos \<le> base \<and> base \<le> length out \<and>
     (\<forall>i. k \<le> i \<and> i div 8 < bm \<longrightarrow> \<not> null_bit out i) \<and> (\<forall>j. pos \<le> j \<and> j < base \<longrightarrow> out ! j = 0)"

lemma ser_state_step:
  assumes "ser_state bm base k pos out" "pos + w \<le> base" "written bm out k pos w out'"
  shows "ser_state bm base (Suc k) (pos + w) out'"
  using assms by (auto simp: ser_state_def written_def)

lemma ser_list_ok:
  assumes "\<forall>(c, v)\<in>set cvs. matches_column v c \<and> column_is_valid c"
    and "ser_state bm base k pos out" "pos + area (map fst cvs) \<le> base" "k + length cvs \<le> 8 * bm"
  shows "\<exists>rec. ser_list k cvs pos out = Inr (Some rec) \<and> length rec = length out + (\<Sum>(c, v)\<leftarrow>cvs. payload c v) \<and>
    (\<forall>j. bm \<le> j \<and> j < length out \<and> (j < pos \<or> base \<le> j) \<longrightarrow> rec ! j = out ! j) \<and>
    (\<forall>i. i < k \<and> i div 8 < bm \<longrightarrow> null_bit rec i = null_bit out i) \<and> encodes_list base rec k pos cvs"
  using assms
proof (induction cvs arbitrary: k pos out)
  case (Cons cv cvs)
  obtain c v where cv: "cv = (c, v)" by (cases cv)
  have k: "k div 8 < bm" using Cons.prems(4) by (simp add: less_mult_imp_div_less)
  have w: "pos + width c \<le> base" and area: "pos + width c + area (map fst cvs) \<le> base"
    using Cons.prems(3) by (simp_all add: cv)
  note st = Cons.prems(2) [unfolded ser_state_def]
  obtain out' where o: "serialize_field c v k pos out = Inr (Some out')" "length out' = length out + payload c v"
    "written bm out k pos (width c) out'" "encodes base out' k pos c v"
    by (rule serialize_field_ok [of v c bm pos base out k]) (use Cons.prems(1) st w k in \<open>auto simp: cv\<close>)
  have "ser_state bm base (Suc k) (pos + width c) out'" using Cons.prems(2) w o(3) by (rule ser_state_step)
  then obtain rec where r: "ser_list (Suc k) cvs (pos + width c) out' = Inr (Some rec)"
    "length rec = length out' + (\<Sum>(c, v)\<leftarrow>cvs. payload c v)"
    "\<forall>j. bm \<le> j \<and> j < length out' \<and> (j < pos + width c \<or> base \<le> j) \<longrightarrow> rec ! j = out' ! j"
    "\<forall>i. i < Suc k \<and> i div 8 < bm \<longrightarrow> null_bit rec i = null_bit out' i" "encodes_list base rec (Suc k) (pos + width c) cvs"
    using Cons.IH [of "Suc k" "pos + width c" out'] Cons.prems area by auto
  have "encodes base rec k pos c v"
    by (rule encodes_frame [OF o(4)]) (use r st w k o(2) in auto)
  then show ?case
    using r o Cons.prems(1) w by (intro exI [of _ rec]) (auto simp: cv written_def)
qed simp

lemma ser_list_mismatch:
  assumes "\<not> (\<forall>(c, v)\<in>set cvs. matches_column v c)" "\<forall>(c, v)\<in>set cvs. column_is_valid c"
    and "ser_state bm base k pos out" "pos + area (map fst cvs) \<le> base" "k + length cvs \<le> 8 * bm"
  shows "ser_list k cvs pos out = Inr None"
  using assms
proof (induction cvs arbitrary: k pos out)
  case (Cons cv cvs)
  obtain c v where cv: "cv = (c, v)" by (cases cv)
  have k: "k div 8 < bm" using Cons.prems(5) by (simp add: less_mult_imp_div_less)
  have w: "pos + width c \<le> base" and area: "pos + width c + area (map fst cvs) \<le> base"
    using Cons.prems(4) by (simp_all add: cv)
  note st = Cons.prems(3) [unfolded ser_state_def]
  show ?case
  proof (cases "matches_column v c")
    case True
    obtain out' where o: "serialize_field c v k pos out = Inr (Some out')" "written bm out k pos (width c) out'"
      by (rule serialize_field_ok [of v c bm pos base out k]) (use True Cons.prems(2) st w k in \<open>auto simp: cv\<close>)
    have "ser_state bm base (Suc k) (pos + width c) out'" using Cons.prems(3) w o(2) by (rule ser_state_step)
    then show ?thesis using Cons.IH [of "Suc k" "pos + width c" out'] Cons.prems True area o(1) by (auto simp: cv)
  qed (simp add: cv)
qed simp

section \<open>Reading\<close>

text \<open>
  The values a record can give back: values of the class, a time within the day, and a fixed
  string that does not end in the padding byte.
\<close>

definition storable :: "Value \<Rightarrow> bool" where
  "storable v \<longleftrightarrow> value_wf v \<and> (v_type v = ty_time \<longrightarrow> unat (v_time v) < 86400) \<and>
     (v_type v = ty_string \<longrightarrow> v_string v = [] \<or> last (v_string v) \<noteq> CHR 0x00)"

lemma byte_of_0: "char_of_byte 0 = CHR 0x00"
  by code_simp

lemma strip_padding:
  assumes "t = [] \<or> last t \<noteq> CHR 0x00"
  shows "rev (dropWhile (\<lambda>c. c = CHR 0x00) (rev (map char_of_byte (map byte_of t @ replicate n 0)))) = t"
proof -
  have "map char_of_byte (map byte_of t @ replicate n 0) = t @ replicate n (CHR 0x00)" by (simp add: byte_of_0)
  moreover have "dropWhile (\<lambda>c. c = CHR 0x00) (replicate n (CHR 0x00) @ rev t) = rev t"
    using assms by (induction n) (auto simp: dropWhile_eq_self_iff hd_rev)
  ultimately show ?thesis by (simp add: byte_of_0)
qed

lemma deserialize_variable:
  assumes rd: "get_bytes rec pos 4 = le_bytes 2 (of_nat (length t) :: u16) @ le_bytes 2 (of_nat off :: u16)"
    and off: "off + length t \<le> length rec" "get_bytes rec off (length t) = map byte_of t"
    and len: "pos + 4 \<le> length rec" "length rec < 65536" "length t \<le> unat mx"
  shows "\<exists>len offset. read_uint16_at rec pos = Some len \<and> read_uint16_at rec (pos + 2) = Some offset \<and> \<not> len > mx \<and>
    unat offset + unat len \<le> length rec \<and> map char_of_byte (get_bytes rec (unat offset) (unat len)) = t"
proof -
  have "get_bytes rec pos 2 = le_bytes 2 (of_nat (length t) :: u16)" "get_bytes rec (pos + 2) 2 = le_bytes 2 (of_nat off :: u16)"
    using get_bytes_split [of rec pos 2 2] rd len(1) by simp_all
  then have r: "read_uint16_at rec pos = Some (of_nat (length t))" "read_uint16_at rec (pos + 2) = Some (of_nat off)"
    using len(1) le_read_block [of pos 2 rec "of_nat (length t) :: u16"] le_read_block [of "pos + 2" 2 rec "of_nat off :: u16"]
    by (simp_all add: read_at_le)
  have u: "unat (of_nat (length t) :: u16) = length t" "unat (of_nat off :: u16) = off" using off(1) len(2) by simp_all
  show ?thesis using r u off len(3) by (intro exI [of _ "of_nat (length t)"] exI [of _ "of_nat off"]) (simp add: not_less word_le_nat_alt)
qed

lemma deserialize_field_ok:
  assumes e: "encodes base rec i pos c v" and m: "matches_column v c" "column_is_valid c" "storable v"
    and len: "pos + width c \<le> length rec" "i div 8 < length rec" "length rec < 65536"
  shows "deserialize_field c i pos rec = Inr (Some v)"
proof (cases "v_is_null v")
  case True
  then have "col_nullable c" "v = null_value"
    using m by (auto simp: matches_column_def storable_def dest: value_wf_nullD)
  then show ?thesis using e True len(2) by (simp add: deserialize_field_def null_bit_is_set_eq encodes_def)
next
  case False
  note mi = m(1) [unfolded matches_column_iff [OF m(2) False]]
  have v: "v = value_of_type (col_type c) v" using m(3) False mi by (metis storable_def value_wf_typeD)
  note rules = deserialize_field_def null_bit_is_set_eq [OF len(2)] read_at_le read_int32_at_def le_read_block read_padded_string_def width_cases
  have b: "\<not> null_bit rec i" using e False by (simp add: encodes_def)
  have var: ?thesis if ty: "col_type c = ty_varstring \<or> col_type c = ty_text"
  proof -
    have w: "pos + 4 \<le> length rec" "length (v_string v) \<le> unat (col_max_size c)" using ty len(1) mi by (auto simp: width_cases)
    obtain off where o: "off + length (v_string v) \<le> length rec"
      "get_bytes rec pos 4 = le_bytes 2 (of_nat (length (v_string v)) :: u16) @ le_bytes 2 (of_nat off :: u16)"
      "get_bytes rec off (length (v_string v)) = map byte_of (v_string v)"
      using e False ty by (auto simp: encodes_def)
    obtain ln offset where d: "read_uint16_at rec pos = Some ln" "read_uint16_at rec (pos + 2) = Some offset" "\<not> ln > col_max_size c"
      "unat offset + unat ln \<le> length rec" "map char_of_byte (get_bytes rec (unat offset) (unat ln)) = v_string v"
      using deserialize_variable [OF o(2,1,3) w(1) len(3) w(2)] by blast
    have "deserialize_field c i pos rec = Inr (Some (if col_type c = ty_text then text_value (v_string v) else varstring_value (v_string v)))"
      using ty b d by (auto simp: deserialize_field_def null_bit_is_set_eq [OF len(2)] is_variable_type_def)
    then show ?thesis using v ty by auto
  qed
  show ?thesis
  proof (cases "col_type c")
    case ty_null then show ?thesis using m(2) by (simp add: column_is_valid_def)
  next case ty_integer then show ?thesis using e False b len v by (simp add: rules encodes_def)
  next case ty_number then show ?thesis using e False b len v by (simp add: rules encodes_def)
  next case ty_date then show ?thesis using e False b len v by (simp add: rules encodes_def)
  next case ty_datetime then show ?thesis using e False b len v by (simp add: rules encodes_def)
  next case ty_time then show ?thesis using e False b len v m(3) mi by (simp add: rules encodes_def storable_def)
  next
    case ty_character
    have "get_bytes rec pos 1 ! 0 = rec ! pos" using ty_character len(1) by (subst nth_get_bytes) (simp_all add: width_cases)
    then have "rec ! pos = byte_of (v_string v ! 0)" using ty_character e False by (simp add: encodes_def)
    moreover obtain ch where "v_string v = [ch]" using mi ty_character by (auto simp: length_Suc_conv)
    ultimately show ?thesis using ty_character b len v by (simp add: rules)
  next
    case ty_string
    then have "get_bytes rec pos (unat (col_max_size c)) =
        map byte_of (v_string v) @ replicate (unat (col_max_size c) - length (v_string v)) 0"
      using e False by (simp add: encodes_def width_cases)
    then show ?thesis using ty_string b len v m(3) mi strip_padding [of "v_string v"] by (simp add: rules storable_def)
  qed (use var in simp_all)
qed

lemma des_list_ok:
  assumes "encodes_list base rec k pos cvs" "\<forall>(c, v)\<in>set cvs. matches_column v c \<and> column_is_valid c \<and> storable v"
    and "pos + area (map fst cvs) \<le> length rec" "k + length cvs \<le> 8 * bm" "bm \<le> length rec" "length rec < 65536"
  shows "des_list k (map fst cvs) pos rec vals = Inr (Some (vals @ map snd cvs))"
  using assms
proof (induction cvs arbitrary: k pos vals)
  case (Cons cv cvs)
  obtain c v where cv: "cv = (c, v)" by (cases cv)
  have k: "k div 8 < bm" using Cons.prems(4) by (simp add: less_mult_imp_div_less)
  have "deserialize_field c k pos rec = Inr (Some v)"
    by (rule deserialize_field_ok [of base]) (use Cons.prems k in \<open>auto simp: cv\<close>)
  moreover have "des_list (Suc k) (map fst cvs) (pos + width c) rec (vals @ [v]) = Inr (Some ((vals @ [v]) @ map snd cvs))"
    by (rule Cons.IH) (use Cons.prems in \<open>auto simp: cv\<close>)
  ultimately show ?case by (simp add: cv)
qed simp

section \<open>Whole records\<close>

lemma fixed_area_size_word: "fixed_area_size s = of_nat (area (columns s))"
proof -
  have "fold (\<lambda>c total. total + storage_size c) cs a = a + of_nat (area cs)" for cs and a :: u16
    by (induction cs arbitrary: a) simp_all
  then show ?thesis by (simp add: fixed_area_size_def)
qed

lemma fixed_area_size_eq: "area (columns s) < 65536 \<Longrightarrow> unat (fixed_area_size s) = area (columns s)"
  by (simp add: fixed_area_size_word)

lemma schema_counts:
  assumes "schema_is_valid s"
  shows "length (columns s) \<le> 991" "\<forall>c\<in>set (columns s). column_is_valid c"
    "unat (column_count s) = length (columns s)"
    "unat (null_bitmap_size (column_count s)) = (length (columns s) + 7) div 8"
    "length (columns s) \<le> 8 * ((length (columns s) + 7) div 8)"
proof -
  show l: "length (columns s) \<le> 991" "\<forall>c\<in>set (columns s). column_is_valid c"
    using assms by (auto simp: schema_is_valid_def are_valid_columns_iff split: if_splits)
  then show c: "unat (column_count s) = length (columns s)" by (simp add: column_count_def)
  show "unat (null_bitmap_size (column_count s)) = (length (columns s) + 7) div 8"
    unfolding null_bitmap_size_def c using l(1) by (intro unat_of_nat_u16) simp
  show "length (columns s) \<le> 8 * ((length (columns s) + 7) div 8)" by presburger
qed

abbreviation bitmap_bytes :: "Schema \<Rightarrow> nat" where "bitmap_bytes s \<equiv> (length (columns s) + 7) div 8"

lemma serialize_list:
  assumes "schema_is_valid s" "area (columns s) < 65536" "length row = length (columns s)"
  shows "serialize s row = ser_list 0 (zip (columns s) row) (bitmap_bytes s) (replicate (bitmap_bytes s + area (columns s)) 0)"
  using assms schema_counts [OF assms(1)] serialize_loop_list [of s "length (columns s)" row 0]
  by (simp add: serialize_def Let_def fixed_area_size_eq value_count_def column_count_def)

lemma ser_state_initial: "ser_state bm (bm + a) 0 bm (replicate (bm + a) 0)"
  by (auto simp: ser_state_def null_bit_def)

lemma zip_matches:
  "length row = length cs \<Longrightarrow> list_all2 matches_column row cs \<longleftrightarrow> (\<forall>(c, v)\<in>set (zip cs row). matches_column v c)"
  by (auto simp: list_all2_conv_all_nth set_zip)

lemma serialize_exact:
  assumes s: "schema_is_valid s" "area (columns s) < 65536" "length row = length (columns s)"
  shows "if list_all2 matches_column row (columns s)
    then \<exists>rec. serialize s row = Inr (Some rec) \<and> length rec = bitmap_bytes s + area (columns s) + (\<Sum>(c, v)\<leftarrow>zip (columns s) row. payload c v) \<and>
           encodes_list (bitmap_bytes s + area (columns s)) rec 0 (bitmap_bytes s) (zip (columns s) row)
    else serialize s row = Inr None"
proof -
  note c = schema_counts [OF s(1)]
  let ?bm = "bitmap_bytes s" and ?cvs = "zip (columns s) row"
  have v: "\<forall>(c, v)\<in>set ?cvs. column_is_valid c" using c(2) by (auto dest: set_zip_leftD)
  have a: "?bm + area (map fst ?cvs) \<le> ?bm + area (columns s)" "0 + length ?cvs \<le> 8 * ?bm" using s(3) c(5) by simp_all
  note st = ser_state_initial [of ?bm "area (columns s)"]
  show ?thesis
  proof (cases "list_all2 matches_column row (columns s)")
    case True
    then have "\<forall>(c, v)\<in>set ?cvs. matches_column v c \<and> column_is_valid c" using v zip_matches [OF s(3)] by auto
    from ser_list_ok [OF this st a] show ?thesis using True by (auto simp: serialize_list [OF s])
  next
    case False
    then have "\<not> (\<forall>(c, v)\<in>set ?cvs. matches_column v c)" using zip_matches [OF s(3)] by simp
    from ser_list_mismatch [OF this v st a] show ?thesis using False by (simp add: serialize_list [OF s])
  qed
qed

lemma deserialize_serialize:
  assumes s: "schema_is_valid s" "area (columns s) < 65536" "length row = length (columns s)" "list_all storable row"
    and r: "serialize s row = Inr (Some rec)" "length rec < 65536"
  shows "deserialize s rec = Inr (Some row)"
proof -
  note c = schema_counts [OF s(1)]
  let ?bm = "bitmap_bytes s" and ?cvs = "zip (columns s) row"
  have m: "list_all2 matches_column row (columns s)" using serialize_exact [OF s(1-3)] r(1) by (auto split: if_splits)
  then have e: "length rec \<ge> ?bm + area (columns s)" "encodes_list (?bm + area (columns s)) rec 0 ?bm ?cvs"
    using serialize_exact [OF s(1-3)] r(1) by auto
  have "\<forall>(c, v)\<in>set ?cvs. matches_column v c \<and> column_is_valid c \<and> storable v"
    using m zip_matches [OF s(3)] c(2) s(4) by (auto simp: list_all_iff dest: set_zip_leftD set_zip_rightD)
  from des_list_ok [OF e(2) this _ _ _ r(2), of ?bm "[]"]
  have "des_list 0 (columns s) ?bm rec [] = Inr (Some row)" using e(1) c(5) s(3) by simp
  then show ?thesis
    using s(1,2) e(1) c deserialize_loop_list [of s "length (columns s)" 0 rec ?bm "[]"]
    by (simp add: deserialize_def fixed_area_size_eq)
qed

section \<open>Properties\<close>


definition sample_row :: Row where
  "sample_row = [integer_value 7, varstring_value ''ada'']"

lemma sample_area: "area (columns sample_schema) = 12"
  by code_simp




definition wide_column :: "nat \<Rightarrow> Column" where
  "wide_column i = mk_column (''c'' @ show_nat i) ty_string False 1024 0 0"

definition wide_schema :: Schema where
  "wide_schema = mk_schema ''wide'' (map wide_column [0..<64]) [] [] disk_storage"

lemma wide_schema_columns: "columns wide_schema = map wide_column [0..<64]" "table_name wide_schema = ''wide''"
  by (simp_all add: wide_schema_def mk_schema_def)

lemma wide_column_valid: "column_is_valid (wide_column i)" "width (wide_column i) = 1024"
proof -
  have "is_valid_name (''c'' @ show_nat i)"
    using digits_show_nat [of i] by (auto simp: is_valid_name_def islower_def list_all_iff)
  then show "column_is_valid (wide_column i)" by (simp add: wide_column_def column_is_valid_def STRING_MAX_SIZE_def)
qed (simp add: wide_column_def storage_size_def is_variable_type_def)

lemma wide_schema_valid: "schema_is_valid wide_schema"
proof -
  have "inj wide_column"
    by (intro injI) (metis append_Cons append_Nil list.inject mk_column_sel(1) read_show_nat wide_column_def)
  then have "inj (col_name \<circ> wide_column)"
    by (intro injI) (metis append_Cons append_Nil comp_apply list.inject mk_column_sel(1) read_show_nat wide_column_def)
  then have "distinct (map col_name (columns wide_schema))"
    by (simp add: wide_schema_columns distinct_map inj_on_subset [OF _ subset_UNIV] del: upt_rec_numeral)
  then show ?thesis
    by (auto simp: schema_is_valid_def are_valid_columns_iff wide_schema_columns wide_column_valid
        is_valid_table_name_def is_valid_name_def islower_def simp del: upt_rec_numeral)
qed

lemma wide_schema_area: "area (columns wide_schema) = 65536"
  by (simp add: area_def wide_schema_columns wide_column_valid(2) o_def sum_list_triv del: upt_rec_numeral)

text \<open>
  C13. The size of the fixed area is kept in 16 bits: a valid schema of 64 columns of
  \<^verbatim>\<open>STRING(1024)\<close> has a fixed area of 65536 bytes, the buffer is allocated for 0, and serializing a
  matching row writes outside it.\<close>

theorem wide_schema_out_of_bounds:
  "schema_is_valid wide_schema \<and> area (columns wide_schema) = 65536 \<and>
   list_all2 matches_column (replicate 64 (string_value ''a'')) (columns wide_schema) \<and>
   serialize wide_schema (replicate 64 (string_value ''a'')) = Inl Out_of_bounds"
proof -
  have m: "matches_column (string_value ''a'') (wide_column i)" for i
    by (simp add: matches_column_def wide_column_def value_defs)
  have n: "column_count wide_schema = 64" "fixed_area_size wide_schema = 0"
    by (simp add: column_count_def wide_schema_columns) (simp add: fixed_area_size_word wide_schema_area)
  have "[0..<64::nat] = 0 # [1..<64]" by (simp add: upt_conv_Cons del: upt_rec_numeral)
  moreover have "schema_column wide_schema 0 = Some (wide_column 0)"
    "row_value (replicate 64 (string_value ''a'')) 0 = Some (string_value ''a'')"
    by (simp_all add: schema_column_def row_value_def wide_schema_columns)
  moreover have "serialize_field (wide_column 0) (string_value ''a'') 0 8 (replicate 8 0) = Inl Out_of_bounds"
    by (simp add: serialize_field_def wide_column_def value_defs)
  ultimately have "serialize wide_schema (replicate 64 (string_value ''a'')) = Inl Out_of_bounds"
    using wide_schema_valid m n by (simp add: serialize_def value_count_def null_bitmap_size_def del: upt_rec_numeral)
  moreover have "list_all2 matches_column (replicate 64 (string_value ''a'')) (columns wide_schema)"
    using m by (simp add: list_all2_conv_all_nth wide_schema_columns del: upt_rec_numeral)
  ultimately show ?thesis using wide_schema_valid wide_schema_area by simp
qed

end
