(* ===== verification/IO.thy ===== *)
theory IO
  imports Text_Lib
begin

text \<open>
  The operating system as the storage code uses it. A world has the contents of the regular
  files, the directories, for every file the length of the prefix that has reached stable
  storage, and a script with the outcome of the system calls to come: a call may transfer only
  a part of the bytes, be interrupted or fail. When the script is used up every call succeeds.
  A descriptor is the path it was opened with.

  The loops \<^verbatim>\<open>full_write\<close>, \<^verbatim>\<open>full_write_at\<close> and \<^verbatim>\<open>full_read_at\<close> of \<^verbatim>\<open>wal_manager.cpp\<close> are modelled here; the
  lemmas show that they end, that success means that all bytes were transferred, whatever
  partial transfers and interruptions occurred, and that they succeed when no call fails.
\<close>

section \<open>Worlds\<close>

datatype outcome = Io_all | Io_short nat | Io_eintr | Io_error

record world =
  w_files :: "string \<rightharpoonup> bytes"
  w_dirs :: "string set"
  w_synced :: "string \<Rightarrow> nat"
  w_script :: "outcome list"

definition next_outcome :: "world \<Rightarrow> outcome \<times> world" where
  "next_outcome w = (case w_script w of [] \<Rightarrow> (Io_all, w) | r # rs \<Rightarrow> (r, w\<lparr>w_script := rs\<rparr>))"

definition contents :: "world \<Rightarrow> string \<Rightarrow> bytes" where
  "contents w p = (case w_files w p of None \<Rightarrow> [] | Some d \<Rightarrow> d)"

text \<open>\<^verbatim>\<open>pwrite\<close> at an offset beyond the end leaves a hole of zero bytes.\<close>

definition write_block :: "bytes \<Rightarrow> nat \<Rightarrow> bytes \<Rightarrow> bytes" where
  "write_block d off bs = put_bytes (d @ replicate (off + length bs - length d) 0) off bs"

definition pwrite_file :: "string \<Rightarrow> nat \<Rightarrow> bytes \<Rightarrow> world \<Rightarrow> world" where
  "pwrite_file p off bs w = w\<lparr>w_files := (w_files w)(p \<mapsto> write_block (contents w p) off bs)\<rparr>"

section \<open>Paths\<close>

text \<open>
  Paths in their generic text form with the separator \<^verbatim>\<open>/\<close>: \<^verbatim>\<open>path / name\<close>, \<^verbatim>\<open>filename()\<close>,
  \<^verbatim>\<open>parent_path()\<close> and \<^verbatim>\<open>lexically_normal()\<close> of \<^verbatim>\<open>std::filesystem::path\<close>.
\<close>

definition path_append :: "string \<Rightarrow> string \<Rightarrow> string" where
  "path_append p name = (if p = [] \<or> last p = CHR ''/'' then p @ name else p @ ''/'' @ name)"

definition filename :: "string \<Rightarrow> string" where
  "filename p = rev (takeWhile (\<lambda>c. c \<noteq> CHR ''/'') (rev p))"

definition parent_path :: "string \<Rightarrow> string" where
  "parent_path p =
     (let d = dropWhile (\<lambda>c. c \<noteq> CHR ''/'') (rev p); e = dropWhile (\<lambda>c. c = CHR ''/'') d
      in if d \<noteq> [] \<and> e = [] then ''/'' else rev e)"

fun split_path :: "string \<Rightarrow> string \<Rightarrow> string list" where
  "split_path current [] = [current]"
| "split_path current (c # cs) =
     (if c = CHR ''/'' then current # split_path [] cs else split_path (current @ [c]) cs)"

fun join_path :: "string list \<Rightarrow> string" where
  "join_path [] = ''''"
| "join_path [c] = c"
| "join_path (c # d # cs) = c @ ''/'' @ join_path (d # cs)"

text \<open>\<open>normal_parts rooted done parts\<close>: the remaining parts after \<open>done\<close> (in reverse order).\<close>

fun normal_parts :: "bool \<Rightarrow> string list \<Rightarrow> string list \<Rightarrow> string list" where
  "normal_parts rooted kept [] = kept"
| "normal_parts rooted kept (c # cs) =
     (if c = [] \<or> c = ''.'' then normal_parts rooted kept cs
      else if c = ''..'' then
        (case kept of [] \<Rightarrow> normal_parts rooted (if rooted then [] else [c]) cs
         | k # ks \<Rightarrow> if k = ''..'' then normal_parts rooted (c # kept) cs else normal_parts rooted ks cs)
      else normal_parts rooted (c # kept) cs)"

definition lexically_normal :: "string \<Rightarrow> string" where
  "lexically_normal p =
     (if p = [] then []
      else let rooted = (hd p = CHR ''/'');
               parts = split_path [] p;
               kept = rev (normal_parts rooted [] parts);
               slash = (last parts = [] \<or> last parts = ''.'' \<or> last parts = ''..'');
               body = join_path kept @ (if slash \<and> kept \<noteq> [] \<and> last kept \<noteq> ''..'' then ''/'' else '''')
           in if rooted then ''/'' @ body else if body = [] then ''.'' else body)"

section \<open>Directories and whole files\<close>

definition parent_exists :: "world \<Rightarrow> string \<Rightarrow> bool" where
  "parent_exists w p \<longleftrightarrow> parent_path p = [] \<or> parent_path p = ''/'' \<or> parent_path p \<in> w_dirs w"

text \<open>\<^verbatim>\<open>open(path, O_RDWR | O_CREAT)\<close>: \<open>False\<close> stands for a negative descriptor.\<close>

definition open_create :: "string \<Rightarrow> world \<Rightarrow> bool \<times> world" where
  "open_create p w =
     (case next_outcome w of (r, w) \<Rightarrow>
        if r = Io_error \<or> r = Io_eintr \<or> \<not> parent_exists w p \<or> p \<in> w_dirs w then (False, w)
        else (True, if w_files w p = None then w\<lparr>w_files := (w_files w)(p \<mapsto> [])\<rparr> else w))"

text \<open>All parents of a path and the path itself, for \<^verbatim>\<open>create_directories\<close>.\<close>

definition path_prefixes :: "string \<Rightarrow> string set" where
  "path_prefixes p = insert p (set (map (\<lambda>i. take i p) (filter (\<lambda>i. p ! i = CHR ''/'') [1..<length p])))"

definition under :: "string \<Rightarrow> string \<Rightarrow> bool" where
  "under dir p \<longleftrightarrow> p = dir \<or> take (length dir + 1) p = dir @ ''/''"

definition create_directories :: "string \<Rightarrow> world \<Rightarrow> bool \<times> world" where
  "create_directories p w =
     (case next_outcome w of (r, w) \<Rightarrow>
        if r = Io_error \<or> r = Io_eintr \<or> (\<exists>q\<in>path_prefixes p. w_files w q \<noteq> None) then (False, w)
        else (True, w\<lparr>w_dirs := w_dirs w \<union> path_prefixes p\<rparr>))"

definition remove_all :: "string \<Rightarrow> world \<Rightarrow> bool \<times> world" where
  "remove_all p w =
     (case next_outcome w of (r, w) \<Rightarrow>
        if r = Io_error \<or> r = Io_eintr then (False, w)
        else (True, w\<lparr>w_files := (\<lambda>q. if under p q then None else w_files w q),
                     w_dirs := {d \<in> w_dirs w. \<not> under p d}\<rparr>))"

text \<open>An \<^verbatim>\<open>std::ofstream\<close> opened for appending without writing, and one that replaces a file.\<close>

definition ofstream_touch :: "string \<Rightarrow> world \<Rightarrow> bool \<times> world" where
  "ofstream_touch p w = open_create p w"

definition ofstream_replace :: "string \<Rightarrow> bytes \<Rightarrow> world \<Rightarrow> bool \<times> world" where
  "ofstream_replace p bs w =
     (case open_create p w of (ok, w) \<Rightarrow>
        if \<not> ok then (False, w)
        else case next_outcome w of (r, w) \<Rightarrow>
          if r = Io_error then (False, w\<lparr>w_files := (w_files w)(p \<mapsto> [])\<rparr>)
          else (True, w\<lparr>w_files := (w_files w)(p \<mapsto> bs)\<rparr>))"

section \<open>Transfer loops\<close>

lemma next_outcome_script:
  "next_outcome w = (r, w') \<Longrightarrow> w' = w\<lparr>w_script := tl (w_script w)\<rparr>"
  "next_outcome w = (r, w') \<Longrightarrow> r \<noteq> Io_all \<Longrightarrow> length (w_script w') < length (w_script w)"
  "next_outcome w = (r, w') \<Longrightarrow> length (w_script w') \<le> length (w_script w)"
  by (auto simp: next_outcome_def split: list.splits)

lemma length_get_bytes_le: "length (get_bytes d p n) \<le> n"
  by (simp add: get_bytes_def)

lemma read_shrinks:
  "(r, w') = next_outcome w \<Longrightarrow> 0 < k \<Longrightarrow> k \<le> n \<Longrightarrow> n - k + length (w_script w') < n + length (w_script w)"
  "(r, w') = next_outcome w \<Longrightarrow> 0 < k \<Longrightarrow> k \<le> n \<Longrightarrow> n + length (w_script w') - k < n + length (w_script w)"
  using next_outcome_script(3) [of w r w'] by auto

text \<open>\<^verbatim>\<open>full_write_at(fd, buffer, size, offset)\<close>; \<open>buffer\<close> is what is still to be written.\<close>

function full_write_at :: "string \<Rightarrow> bytes \<Rightarrow> nat \<Rightarrow> world \<Rightarrow> bool \<times> world" where
  "full_write_at p buffer offset w =
     (if buffer = [] then (True, w)
      else case next_outcome w of (r, w') \<Rightarrow>
        (case r of
           Io_all \<Rightarrow> (True, pwrite_file p offset buffer w')
         | Io_short n \<Rightarrow>
             let n = min n (length buffer) in
             if n = 0 then (False, w')
             else full_write_at p (drop n buffer) (offset + n) (pwrite_file p offset (take n buffer) w')
         | Io_eintr \<Rightarrow> full_write_at p buffer offset w'
         | Io_error \<Rightarrow> (False, w')))"
  by pat_completeness auto
termination
  by (relation "measure (\<lambda>(p, buffer, offset, w). length (w_script w))")
    (auto dest!: next_outcome_script(2) [OF sym] simp: pwrite_file_def)

declare full_write_at.simps [simp del]

text \<open>\<^verbatim>\<open>full_write\<close> on a descriptor opened with \<^verbatim>\<open>O_APPEND\<close>: every write goes to the end of the file.\<close>

function full_append :: "string \<Rightarrow> bytes \<Rightarrow> world \<Rightarrow> bool \<times> world" where
  "full_append p buffer w =
     (if buffer = [] then (True, w)
      else case next_outcome w of (r, w') \<Rightarrow>
        (case r of
           Io_all \<Rightarrow> (True, pwrite_file p (length (contents w' p)) buffer w')
         | Io_short n \<Rightarrow>
             let n = min n (length buffer) in
             if n = 0 then (False, w')
             else full_append p (drop n buffer) (pwrite_file p (length (contents w' p)) (take n buffer) w')
         | Io_eintr \<Rightarrow> full_append p buffer w'
         | Io_error \<Rightarrow> (False, w')))"
  by pat_completeness auto
termination
  by (relation "measure (\<lambda>(p, buffer, w). length (w_script w))")
    (auto dest!: next_outcome_script(2) [OF sym] simp: pwrite_file_def)

declare full_append.simps [simp del]

text \<open>\<^verbatim>\<open>full_read_at\<close>: the bytes read so far and the number still wanted.\<close>

function full_read_at :: "string \<Rightarrow> bytes \<Rightarrow> nat \<Rightarrow> nat \<Rightarrow> world \<Rightarrow> bytes option \<times> world" where
  "full_read_at p got n offset w =
     (if n = 0 then (Some got, w)
      else case next_outcome w of (r, w') \<Rightarrow>
        let avail = get_bytes (contents w' p) offset n in
        (case r of
           Io_all \<Rightarrow> if avail = [] then (None, w') else full_read_at p (got @ avail) (n - length avail) (offset + length avail) w'
         | Io_short k \<Rightarrow>
             let part = take k avail in
             if part = [] then (None, w') else full_read_at p (got @ part) (n - length part) (offset + length part) w'
         | Io_eintr \<Rightarrow> full_read_at p got n offset w'
         | Io_error \<Rightarrow> (None, w')))"
  by pat_completeness auto
termination
  by (relation "measure (\<lambda>(p, got, n, offset, w). n + length (w_script w))")
    (auto simp: Let_def min.coboundedI1 length_get_bytes_le dest: next_outcome_script(2) [OF sym] intro!: read_shrinks)

declare full_read_at.simps [simp del]

text \<open>\<^verbatim>\<open>fdatasync\<close> retried while it is interrupted.\<close>

function fdatasync_loop :: "string \<Rightarrow> world \<Rightarrow> bool \<times> world" where
  "fdatasync_loop p w =
     (case next_outcome w of (r, w') \<Rightarrow>
        (case r of
           Io_eintr \<Rightarrow> fdatasync_loop p w'
         | Io_error \<Rightarrow> (False, w')
         | _ \<Rightarrow> (True, w'\<lparr>w_synced := (w_synced w')(p := length (contents w' p))\<rparr>)))"
  by pat_completeness auto
termination
  by (relation "measure (\<lambda>(p, w). length (w_script w))") (auto dest!: next_outcome_script(2) [OF sym])

declare fdatasync_loop.simps [simp del]

section \<open>What the loops do\<close>

text \<open>Worlds that differ in the script and the contents of one file only.\<close>

definition same_except :: "string \<Rightarrow> world \<Rightarrow> world \<Rightarrow> bool" where
  "same_except p w w' \<longleftrightarrow> (\<forall>q. q \<noteq> p \<longrightarrow> w_files w' q = w_files w q) \<and> w_dirs w' = w_dirs w \<and> w_synced w' = w_synced w"

definition same_data :: "world \<Rightarrow> world \<Rightarrow> bool" where
  "same_data w w' \<longleftrightarrow> w_files w' = w_files w \<and> w_dirs w' = w_dirs w \<and> w_synced w' = w_synced w"

lemma same_refl [simp]: "same_except p w w" "same_data w w"
  by (simp_all add: same_except_def same_data_def)

lemma same_except_trans: "same_except p w w' \<Longrightarrow> same_except p w' w'' \<Longrightarrow> same_except p w w''"
  by (simp add: same_except_def)

lemma same_data_trans: "same_data w w' \<Longrightarrow> same_data w' w'' \<Longrightarrow> same_data w w''"
  by (simp add: same_data_def)

lemma same_data_except: "same_data w w' \<Longrightarrow> same_except p w w'"
  by (simp add: same_except_def same_data_def)

lemma same_data_contents: "same_data w w' \<Longrightarrow> contents w' p = contents w p"
  by (simp add: same_data_def contents_def)

lemma next_outcome_same: "next_outcome w = (r, w') \<Longrightarrow> same_data w w'"
  by (auto simp: next_outcome_def same_data_def split: list.splits)

lemma pwrite_file_same [simp]: "same_except p w (pwrite_file p off bs w)"
  by (simp add: pwrite_file_def same_except_def)

lemma contents_pwrite [simp]: "contents (pwrite_file p off bs w) p = write_block (contents w p) off bs"
  by (simp add: pwrite_file_def contents_def)

lemma same_except_contents: "same_except p w w' \<Longrightarrow> q \<noteq> p \<Longrightarrow> contents w' q = contents w q"
  by (simp add: same_except_def contents_def)

text \<open>Outcomes without failure.\<close>

definition calm :: "world \<Rightarrow> bool" where
  "calm w \<longleftrightarrow> list_all (\<lambda>r. r \<noteq> Io_error \<and> r \<noteq> Io_short 0) (w_script w)"

lemma calm_next: "calm w \<Longrightarrow> next_outcome w = (r, w') \<Longrightarrow> calm w' \<and> r \<noteq> Io_error \<and> r \<noteq> Io_short 0"
  by (auto simp: calm_def next_outcome_def split: list.splits)

lemma calm_pwrite [simp]: "calm (pwrite_file p off bs w) = calm w"
  by (simp add: calm_def pwrite_file_def)

lemma length_write_block [simp]: "length (write_block d off bs) = max (length d) (off + length bs)"
  by (simp add: write_block_def)

lemma nth_write_block:
  "i < max (length d) (off + length bs) \<Longrightarrow>
   write_block d off bs ! i = (if off \<le> i \<and> i < off + length bs then bs ! (i - off) else if i < length d then d ! i else 0)"
  by (simp add: write_block_def nth_put_bytes nth_append)

lemma write_block_split: "a \<noteq> [] \<Longrightarrow> write_block (write_block d off a) (off + length a) b = write_block d off (a @ b)"
  by (intro nth_equalityI) (auto simp: nth_write_block nth_append)

lemma write_block_end: "write_block d (length d) bs = d @ bs"
  by (intro nth_equalityI) (auto simp: nth_write_block nth_append)

lemma full_write_at_step:
  "full_write_at p [] off w = (True, w)"
  "b \<noteq> [] \<Longrightarrow> w_script w = [] \<Longrightarrow> full_write_at p b off w = (True, pwrite_file p off b w)"
  "b \<noteq> [] \<Longrightarrow> w_script w = r # rs \<Longrightarrow> full_write_at p b off w =
     (let w = w\<lparr>w_script := rs\<rparr> in
      case r of Io_all \<Rightarrow> (True, pwrite_file p off b w)
      | Io_short n \<Rightarrow> let n = min n (length b) in if n = 0 then (False, w)
          else full_write_at p (drop n b) (off + n) (pwrite_file p off (take n b) w)
      | Io_eintr \<Rightarrow> full_write_at p b off w
      | Io_error \<Rightarrow> (False, w))"
  by (simp_all add: full_write_at.simps [of p] next_outcome_def Let_def)

lemma pwrite_script [simp]: "w_script (pwrite_file p off bs w) = w_script w"
  by (simp add: pwrite_file_def)

lemma contents_script [simp]: "contents (w\<lparr>w_script := rs\<rparr>) p = contents w p"
  by (simp add: contents_def)

lemma same_script [simp]:
  "same_except p (w\<lparr>w_script := rs\<rparr>) w' = same_except p w w'" "same_except p w (w'\<lparr>w_script := rs\<rparr>) = same_except p w w'"
  "same_data (w\<lparr>w_script := rs\<rparr>) w' = same_data w w'" "same_data w (w'\<lparr>w_script := rs\<rparr>) = same_data w w'"
  by (simp_all add: same_except_def same_data_def)

lemma same_except_pwrite_left [simp]:
  "same_except p (pwrite_file p off bs w) w' = same_except p w w'" "same_except p w (pwrite_file p off bs w') = same_except p w w'"
  by (simp_all add: pwrite_file_def same_except_def)

lemma full_write_at_result:
  assumes "full_write_at p b off w = (ok, w')"
  shows "same_except p w w' \<and> (ok \<and> b \<noteq> [] \<longrightarrow> contents w' p = write_block (contents w p) off b)"
  using assms
proof (induction "w_script w" arbitrary: b off w)
  case Nil
  then show ?case by (cases "b = []") (auto simp: full_write_at_step)
next
  case (Cons r rs)
  show ?case
  proof (cases "b = []")
    case False
    note step = Cons.prems [unfolded full_write_at_step(3) [OF False Cons.hyps(2) [symmetric]]]
    show ?thesis
    proof (cases r)
      case (Io_short k)
      let ?n = "min k (length b)"
      let ?w = "pwrite_file p off (take ?n b) (w\<lparr>w_script := rs\<rparr>)"
      show ?thesis
      proof (cases "?n = 0")
        case nz: False
        then have rec: "full_write_at p (drop ?n b) (off + ?n) ?w = (ok, w')" using step unfolding Io_short Let_def outcome.case if_not_P [OF nz] by simp
        note ih = Cons.hyps(1) [OF _ rec]
        have "write_block (write_block (contents w p) off (take ?n b)) (off + ?n) (drop ?n b) = write_block (contents w p) off b"
          using write_block_split [of "take ?n b" "contents w p" off "drop ?n b"] nz False by simp
        then show ?thesis using ih rec by (cases "drop ?n b = []") (auto simp: full_write_at_step(1))
      qed (use step Io_short in \<open>auto simp: Let_def\<close>)
    next
      case Io_eintr
      then have "full_write_at p b off (w\<lparr>w_script := rs\<rparr>) = (ok, w')" using step by simp
      from Cons.hyps(1) [OF _ this] show ?thesis by simp
    qed (use step in auto)
  qed (use Cons.prems in \<open>auto simp: full_write_at_step\<close>)
qed

lemma calm_script: "calm w \<Longrightarrow> w_script w = r # rs \<Longrightarrow> r \<noteq> Io_error \<and> r \<noteq> Io_short 0 \<and> calm (w\<lparr>w_script := rs\<rparr>)"
  by (simp add: calm_def)

lemma full_write_at_calm:
  "calm w \<Longrightarrow> fst (full_write_at p b off w) \<and> calm (snd (full_write_at p b off w))"
proof (induction "w_script w" arbitrary: b off w)
  case Nil
  then show ?case by (cases "b = []") (auto simp: full_write_at_step)
next
  case (Cons r rs)
  show ?case
  proof (cases "b = []")
    case False
    then show ?thesis using Cons.hyps(1) calm_script [OF Cons.prems Cons.hyps(2) [symmetric]]
      by (cases r) (auto simp: full_write_at_step(3) [OF False Cons.hyps(2) [symmetric]] Let_def)
  qed (use Cons.prems in \<open>simp add: full_write_at_step\<close>)
qed

lemma full_append_step:
  "full_append p [] w = (True, w)"
  "b \<noteq> [] \<Longrightarrow> w_script w = [] \<Longrightarrow> full_append p b w = (True, pwrite_file p (length (contents w p)) b w)"
  "b \<noteq> [] \<Longrightarrow> w_script w = r # rs \<Longrightarrow> full_append p b w =
     (let w = w\<lparr>w_script := rs\<rparr> in
      case r of Io_all \<Rightarrow> (True, pwrite_file p (length (contents w p)) b w)
      | Io_short n \<Rightarrow> let n = min n (length b) in if n = 0 then (False, w)
          else full_append p (drop n b) (pwrite_file p (length (contents w p)) (take n b) w)
      | Io_eintr \<Rightarrow> full_append p b w
      | Io_error \<Rightarrow> (False, w))"
  by (simp_all add: full_append.simps [of p] next_outcome_def Let_def)

text \<open>An append leaves a prefix of the buffer behind the file, all of it exactly on success.\<close>

lemma full_append_result:
  assumes "full_append p b w = (ok, w')"
  shows "same_except p w w' \<and> (\<exists>k\<le>length b. contents w' p = contents w p @ take k b \<and> (ok \<longleftrightarrow> k = length b))"
  using assms
proof (induction "w_script w" arbitrary: b w)
  case Nil
  then show ?case by (cases "b = []") (auto simp: full_append_step write_block_end)
next
  case (Cons r rs)
  show ?case
  proof (cases "b = []")
    case False
    note step = Cons.prems [unfolded full_append_step(3) [OF False Cons.hyps(2) [symmetric]]]
    show ?thesis
    proof (cases r)
      case (Io_short k)
      let ?n = "min k (length b)"
      let ?w = "pwrite_file p (length (contents w p)) (take ?n b) (w\<lparr>w_script := rs\<rparr>)"
      show ?thesis
      proof (cases "?n = 0")
        case nz: False
        then have rec: "full_append p (drop ?n b) ?w = (ok, w')" using step unfolding Io_short Let_def outcome.case if_not_P [OF nz] by simp
        from Cons.hyps(1) [OF _ rec] obtain j where j: "same_except p w w'" "j \<le> length b - ?n"
          "contents w' p = contents w p @ take ?n b @ take j (drop ?n b)" "ok \<longleftrightarrow> j = length b - ?n"
          by (auto simp: write_block_end)
        have "take ?n b @ take j (drop ?n b) = take (?n + j) b" by (simp add: take_add)
        then show ?thesis using j nz by (intro conjI exI [of _ "?n + j"]) auto
      qed (use step Io_short False in \<open>auto simp: Let_def\<close>)
    next
      case Io_eintr
      then have "full_append p b (w\<lparr>w_script := rs\<rparr>) = (ok, w')" using step by simp
      from Cons.hyps(1) [OF _ this] show ?thesis by simp
    qed (use step False in \<open>auto simp: write_block_end\<close>)
  qed (use Cons.prems in \<open>auto simp: full_append_step\<close>)
qed

lemma full_append_calm:
  "calm w \<Longrightarrow> fst (full_append p b w) \<and> calm (snd (full_append p b w))"
proof (induction "w_script w" arbitrary: b w)
  case Nil
  then show ?case by (cases "b = []") (auto simp: full_append_step)
next
  case (Cons r rs)
  show ?case
  proof (cases "b = []")
    case False
    then show ?thesis using Cons.hyps(1) calm_script [OF Cons.prems Cons.hyps(2) [symmetric]]
      by (cases r) (auto simp: full_append_step(3) [OF False Cons.hyps(2) [symmetric]] Let_def)
  qed (use Cons.prems in \<open>simp add: full_append_step\<close>)
qed

lemma full_read_at_step:
  "full_read_at p got 0 off w = (Some got, w)"
  "0 < n \<Longrightarrow> w_script w = r # rs \<Longrightarrow> full_read_at p got n off w =
     (let w = w\<lparr>w_script := rs\<rparr>; avail = get_bytes (contents w p) off n;
          part = (case r of Io_short k \<Rightarrow> take k avail | _ \<Rightarrow> avail) in
      case r of Io_eintr \<Rightarrow> full_read_at p got n off w
      | Io_error \<Rightarrow> (None, w)
      | _ \<Rightarrow> if part = [] then (None, w) else full_read_at p (got @ part) (n - length part) (off + length part) w)"
  "0 < n \<Longrightarrow> w_script w = [] \<Longrightarrow> full_read_at p got n off w =
     (let avail = get_bytes (contents w p) off n in
      if avail = [] then (None, w) else full_read_at p (got @ avail) (n - length avail) (off + length avail) w)"
  by (simp_all add: full_read_at.simps [of p] next_outcome_def Let_def split: outcome.splits)

lemma get_bytes_part:
  assumes "part = take k (get_bytes d off n)" "part \<noteq> []"
  shows "part @ get_bytes d (off + length part) (n - length part) = get_bytes d off n"
    "length part \<le> n" "off + length part \<le> length d"
proof -
  have l: "length part = min k (min n (length d - off))" using assms(1) by (simp add: get_bytes_def)
  show "length part \<le> n" using l by simp
  show "off + length part \<le> length d" using l assms(2) by (cases "off < length d") auto
  have p: "part = take (length part) (drop off d)"
  proof -
    have "part = take (min k n) (drop off d)" using assms(1) by (simp add: get_bytes_def)
    then show ?thesis by (cases "min k n \<le> length (drop off d)") (simp_all add: min_def)
  qed
  show "part @ get_bytes d (off + length part) (n - length part) = get_bytes d off n"
    using take_add [of "length part" "n - length part" "drop off d"] p \<open>length part \<le> n\<close>
    by (simp add: get_bytes_def add.commute)
qed

text \<open>A read that succeeds returns the wanted bytes, all inside the file, and changes nothing.\<close>

lemma full_read_at_result:
  assumes "full_read_at p got n off w = (res, w')"
  shows "same_data w w' \<and> (\<forall>bs. res = Some bs \<longrightarrow> bs = got @ get_bytes (contents w p) off n \<and> (0 < n \<longrightarrow> off + n \<le> length (contents w p)))"
  using assms
proof (induction "n + length (w_script w)" arbitrary: got n off w rule: less_induct)
  case less
  have cont: ?case
    if part: "part = take k (get_bytes (contents w p) off n)" "part \<noteq> []" "same_data w w1" "length (w_script w1) \<le> length (w_script w)"
      and rec: "full_read_at p (got @ part) (n - length part) (off + length part) w1 = (res, w')" for part k w1
  proof -
    note gp = get_bytes_part [OF part(1,2)]
    have "0 < length part" using part(2) by simp
    then have lt: "n - length part + length (w_script w1) < n + length (w_script w)"
      using gp(2) part(4) by (simp del: length_greater_0_conv)
    have ih: "same_data w w'" "\<forall>bs. res = Some bs \<longrightarrow> bs = got @ part @ get_bytes (contents w p) (off + length part) (n - length part) \<and>
        (0 < n - length part \<longrightarrow> off + length part + (n - length part) \<le> length (contents w p))"
      using less.hyps [OF lt rec] same_data_contents [OF part(3)] same_data_trans [OF part(3)] by auto
    show ?thesis
    proof (intro conjI allI impI)
      fix bs assume "res = Some bs"
      with ih(2) show "bs = got @ get_bytes (contents w p) off n" using gp(1) by simp
    next
      fix bs assume "res = Some bs" "0 < n"
      with ih(2) show "off + n \<le> length (contents w p)" using gp(2,3) by (cases "length part = n") auto
    qed (rule ih(1))
  qed
  show ?case
  proof (cases "n = 0")
    case False
    then have n: "0 < n" by simp
    have all: "get_bytes (contents w p) off n = take n (get_bytes (contents w p) off n)" by (simp add: get_bytes_def)
    show ?thesis
    proof (cases "w_script w")
      case Nil
      show ?thesis
      proof (cases "get_bytes (contents w p) off n = []")
        case nz: False
        from less.prems have "full_read_at p (got @ get_bytes (contents w p) off n) (n - length (get_bytes (contents w p) off n))
            (off + length (get_bytes (contents w p) off n)) w = (res, w')"
          unfolding full_read_at_step(3) [OF n Nil] Let_def if_not_P [OF nz] .
        then show ?thesis by (rule cont [OF all nz same_refl(2) order_refl])
      qed (use less.prems Nil n in \<open>auto simp: full_read_at_step(3)\<close>)
    next
      case (Cons r rs)
      note step = less.prems [unfolded full_read_at_step(2) [OF n Cons] Let_def, simplified contents_script]
      have same: "same_data w (w\<lparr>w_script := rs\<rparr>)" "length (w_script (w\<lparr>w_script := rs\<rparr>)) \<le> length (w_script w)" using Cons by simp_all
      show ?thesis
      proof (cases r)
        case Io_all
        show ?thesis
        proof (cases "get_bytes (contents w p) off n = []")
          case nz: False
          then show ?thesis using step Io_all by (intro cont [OF all nz same]) simp
        qed (use step Io_all same in auto)
      next
        case (Io_short k)
        show ?thesis
        proof (cases "take k (get_bytes (contents w p) off n) = []")
          case nz: False
          then show ?thesis using step unfolding Io_short outcome.case if_not_P [OF nz] by (intro cont [OF refl nz same])
        next
          case True then show ?thesis using step unfolding Io_short outcome.case if_P [OF True] by auto
        qed
      next
        case Io_eintr
        then have "full_read_at p got n off (w\<lparr>w_script := rs\<rparr>) = (res, w')" using step by simp
        from less.hyps [OF _ this] show ?thesis using Cons by simp
      qed (use step in auto)
    qed
  qed (use less.prems in \<open>auto simp: full_read_at_step(1) get_bytes_def\<close>)
qed

lemma full_read_at_calm:
  assumes "calm w" "off + n \<le> length (contents w p)"
  shows "fst (full_read_at p got n off w) = Some (got @ get_bytes (contents w p) off n) \<and> calm (snd (full_read_at p got n off w))"
  using assms
proof (induction "n + length (w_script w)" arbitrary: got n off w rule: less_induct)
  case less
  have cont: "fst (full_read_at p (got @ part) (n - length part) (off + length part) w1) = Some (got @ get_bytes (contents w p) off n) \<and>
      calm (snd (full_read_at p (got @ part) (n - length part) (off + length part) w1))"
    if part: "part = take k (get_bytes (contents w p) off n)" "part \<noteq> []" "same_data w w1" "length (w_script w1) \<le> length (w_script w)" "calm w1" for part k w1
  proof -
    note gp = get_bytes_part [OF part(1,2)]
    have "0 < length part" using part(2) by simp
    then have lt: "n - length part + length (w_script w1) < n + length (w_script w)"
      using gp(2) part(4) by (simp del: length_greater_0_conv)
    show ?thesis using less.hyps [OF lt part(5), of "off + length part" "got @ part"] gp less.prems(2) same_data_contents [OF part(3), of p] by simp
  qed
  show ?case
  proof (cases "n = 0")
    case False
    then have n: "0 < n" by simp
    have all: "get_bytes (contents w p) off n = take n (get_bytes (contents w p) off n)" by (simp add: get_bytes_def)
    have ne: "get_bytes (contents w p) off n \<noteq> []" using n less.prems(2) by (simp add: get_bytes_def)
    show ?thesis
    proof (cases "w_script w")
      case Nil
      then show ?thesis using cont [OF all ne, of w] n ne less.prems(1) by (simp only: full_read_at_step(3) Let_def if_False same_refl order_refl)
    next
      case (Cons r rs)
      note c = calm_script [OF less.prems(1) Cons]
      have same: "same_data w (w\<lparr>w_script := rs\<rparr>)" "length (w_script (w\<lparr>w_script := rs\<rparr>)) \<le> length (w_script w)" using Cons by simp_all
      note step = full_read_at_step(2) [OF n Cons, unfolded Let_def, simplified contents_script]
      show ?thesis
      proof (cases r)
        case Io_all
        then show ?thesis using cont [OF all ne same] c ne unfolding step by simp
      next
        case (Io_short k)
        then have nz: "take k (get_bytes (contents w p) off n) \<noteq> []" using ne c by auto
        show ?thesis unfolding step Io_short outcome.case if_not_P [OF nz] using cont [OF refl nz same] c by blast
      next
        case Io_eintr
        then show ?thesis using less.hyps [of n "w\<lparr>w_script := rs\<rparr>" off got] less.prems(2) Cons c unfolding step by simp
      qed (use c in simp)
    qed
  qed (use less.prems in \<open>simp add: full_read_at_step(1) get_bytes_def\<close>)
qed

lemma fdatasync_loop_step:
  "w_script w = [] \<Longrightarrow> fdatasync_loop p w = (True, w\<lparr>w_synced := (w_synced w)(p := length (contents w p))\<rparr>)"
  "w_script w = r # rs \<Longrightarrow> fdatasync_loop p w =
     (let w = w\<lparr>w_script := rs\<rparr> in
      case r of Io_eintr \<Rightarrow> fdatasync_loop p w | Io_error \<Rightarrow> (False, w)
      | _ \<Rightarrow> (True, w\<lparr>w_synced := (w_synced w)(p := length (contents w p))\<rparr>))"
  by (simp_all add: fdatasync_loop.simps [of p] next_outcome_def Let_def split: outcome.splits)

lemma fdatasync_loop_result:
  "fdatasync_loop p w = (ok, w') \<Longrightarrow> w_files w' = w_files w \<and> w_dirs w' = w_dirs w \<and>
     w_synced w' = (if ok then (w_synced w)(p := length (contents w p)) else w_synced w)"
proof (induction "w_script w" arbitrary: w)
  case Nil
  then show ?case by (auto simp: fdatasync_loop_step(1))
next
  case (Cons r rs)
  have "contents (w\<lparr>w_script := rs\<rparr>) p = contents w p" by simp
  then show ?case using Cons.hyps(1) [of "w\<lparr>w_script := rs\<rparr>"] Cons.prems
    by (cases r) (auto simp: fdatasync_loop_step(2) [OF Cons.hyps(2) [symmetric]] Let_def)
qed

lemma fdatasync_loop_calm: "calm w \<Longrightarrow> fst (fdatasync_loop p w) \<and> calm (snd (fdatasync_loop p w))"
proof (induction "w_script w" arbitrary: w)
  case Nil
  then show ?case by (auto simp: fdatasync_loop_step(1) calm_def)
next
  case (Cons r rs)
  then show ?case using Cons.hyps(1) [of "w\<lparr>w_script := rs\<rparr>"] calm_script [OF Cons.prems Cons.hyps(2) [symmetric]]
    by (cases r) (auto simp: fdatasync_loop_step(2) [OF Cons.hyps(2) [symmetric]] Let_def calm_def)
qed

text \<open>Outcomes in which no call is interrupted either: every call succeeds, perhaps with a part of the data.\<close>

definition steady :: "world \<Rightarrow> bool" where
  "steady w \<longleftrightarrow> calm w \<and> Io_eintr \<notin> set (w_script w)"

lemma next_outcome_subset: "next_outcome w = (r, w') \<Longrightarrow> set (w_script w') \<subseteq> set (w_script w)"
  by (auto simp: next_outcome_def split: list.splits)

lemma full_write_at_subset: "set (w_script (snd (full_write_at p b off w))) \<subseteq> set (w_script w)"
proof (induction "w_script w" arbitrary: b off w)
  case Nil then show ?case by (cases "b = []") (simp_all add: full_write_at_step)
next
  case (Cons r rs)
  note s = Cons.hyps(2) [symmetric]
  have IH: "set (w_script (snd (full_write_at p b' off' w'))) \<subseteq> insert x (set rs)" if "w_script w' = rs" for x b' off' w'
    using Cons.hyps(1) [of w' b' off'] that by auto
  show ?case by (cases "b = []"; cases r) (simp_all add: full_write_at_step(1) full_write_at_step(3) [OF _ s] s Let_def IH subset_insertI)
qed

lemma full_append_subset: "set (w_script (snd (full_append p b w))) \<subseteq> set (w_script w)"
proof (induction "w_script w" arbitrary: b w)
  case Nil then show ?case by (cases "b = []") (simp_all add: full_append_step)
next
  case (Cons r rs)
  note s = Cons.hyps(2) [symmetric]
  have IH: "set (w_script (snd (full_append p b' w'))) \<subseteq> insert x (set rs)" if "w_script w' = rs" for x b' w'
    using Cons.hyps(1) [of w' b'] that by auto
  show ?case by (cases "b = []"; cases r) (simp_all add: full_append_step(1) full_append_step(3) [OF _ s] s Let_def IH subset_insertI)
qed

lemma fdatasync_loop_subset: "set (w_script (snd (fdatasync_loop p w))) \<subseteq> set (w_script w)"
proof (induction "w_script w" arbitrary: w)
  case Nil then show ?case by (simp add: fdatasync_loop_step)
next
  case (Cons r rs)
  note s = Cons.hyps(2) [symmetric]
  have IH: "set (w_script (snd (fdatasync_loop p w'))) \<subseteq> insert x (set rs)" if "w_script w' = rs" for x w'
    using Cons.hyps(1) [of w'] that by auto
  show ?case by (cases r) (simp_all add: fdatasync_loop_step(2) [OF s] s Let_def IH subset_insertI)
qed

lemma full_read_at_subset: "full_read_at p got n off w = (res, w') \<Longrightarrow> set (w_script w') \<subseteq> set (w_script w)"
proof (induction p got n off w rule: full_read_at.induct)
  case (1 p got n off w)
  obtain r w1 where n: "next_outcome w = (r, w1)" by (cases "next_outcome w")
  note sub = next_outcome_subset [OF n]

  show ?case using 1(4) n sub 1(1-3) [OF _ n [symmetric] refl]
    by (subst (asm) full_read_at.simps) (cases r; auto simp: Let_def split: if_splits)
qed

end
