(* ===== verification/Catalog.thy ===== *)
theory Catalog
  imports Schema IO "HOL-Library.List_Lexorder" "HOL-Library.Char_ord"
begin

text \<open>
  The catalog of \<^verbatim>\<open>src/src/catalog/catalog.cpp\<close>: databases and tables are directories below the data root, and every table
  has a data file and a text file with its schema. The schema text is written to a temporary file that is synced and renamed.

  The operations act on a world of \<^verbatim>\<open>IO\<close>, where every system call that changes something may fail. An operation that calls a
  throwing function of \<^verbatim>\<open>std::filesystem\<close> returns a sum with the exception \<open>filesystem_error\<close>. Questions about the status of a
  path and reading through an \<^verbatim>\<open>std::ifstream\<close> are answered from the world without failure, and names of databases and tables
  are single components of a path.
\<close>

section \<open>Input streams\<close>

text \<open>\<^verbatim>\<open>in >> text\<close>: the next word and the rest of the stream.\<close>

definition stream_word :: "string \<Rightarrow> (string \<times> string) option" where
  "stream_word s =
     (let s = dropWhile isspace s; word = takeWhile (\<lambda>c. \<not> isspace c) s in
      if word = [] then None else Some (word, drop (length word) s))"

text \<open>The sign, the value and the rest after an integer in decimal.\<close>

definition stream_digits :: "string \<Rightarrow> (bool \<times> nat \<times> string) option" where
  "stream_digits s =
     (let s = dropWhile isspace s;
          negative = (s \<noteq> [] \<and> hd s = CHR ''-'');
          s = (if s \<noteq> [] \<and> (hd s = CHR ''-'' \<or> hd s = CHR ''+'') then tl s else s);
          digits = takeWhile isdigit s in
      if digits = [] then None else Some (negative, read_digits 0 digits, drop (length digits) s))"

text \<open>
  \<^verbatim>\<open>in >> number\<close> for an \<^verbatim>\<open>int\<close>: whether it succeeded, the value stored (0 without digits, the nearest bound when it does not fit)
  and the rest; for a \<^verbatim>\<open>uint16_t\<close> the value and the rest, where a minus sign negates modulo \<open>2 ^ 16\<close>.
\<close>

definition stream_int :: "string \<Rightarrow> bool \<times> int \<times> string" where
  "stream_int s =
     (case stream_digits s of
        None \<Rightarrow> (False, 0, s)
      | Some (negative, n, rest) \<Rightarrow>
          let v = (if negative then - int n else int n) in
          if v < - (2 ^ 31) then (False, - (2 ^ 31), rest)
          else if v > 2 ^ 31 - 1 then (False, 2 ^ 31 - 1, rest)
          else (True, v, rest))"

definition stream_u16 :: "string \<Rightarrow> (u16 \<times> string) option" where
  "stream_u16 s =
     (case stream_digits s of
        None \<Rightarrow> None
      | Some (negative, n, rest) \<Rightarrow>
          if n > 65535 then None else Some (if negative then - word_of_nat n else word_of_nat n, rest))"

text \<open>The lines \<^verbatim>\<open>std::getline\<close> returns until the end of the file.\<close>

abbreviation newline :: char where "newline \<equiv> CHR 0x0A"

fun getlines :: "string \<Rightarrow> string list" where
  "getlines s =
     (if s = [] then []
      else let line = takeWhile (\<lambda>c. c \<noteq> newline) s in line # getlines (drop (Suc (length line)) s))"

declare getlines.simps [simp del]

section \<open>The schema text\<close>

definition column_line :: "Column \<Rightarrow> string" where
  "column_line c =
     ''column '' @ col_name c @ '' '' @ type_to_string (col_type c) @ '' '' @ (if col_nullable c then ''1'' else ''0'') @ '' '' @
     show_nat (unat (col_max_size c)) @ '' '' @ show_nat (unat (col_precision c)) @ '' '' @ show_nat (unat (col_scale c))"

definition serialize_schema :: "Schema \<Rightarrow> string" where
  "serialize_schema s =
     ''table '' @ table_name s @ [newline] @
     ''storage '' @ (if storage_mode s = memory_storage then ''MEMORY'' else ''DISK'') @ [newline] @
     concat (map (\<lambda>c. column_line c @ [newline]) (columns s)) @
     concat (map (\<lambda>c. ''constraint '' @ constraint_serialized c @ [newline]) (constraints s)) @
     concat (map (\<lambda>i. ''index '' @ index_serialized i @ [newline]) (indexes s))"

record schema_parts =
  sp_columns :: "Column list"
  sp_constraints :: "ConstraintDefinition list"
  sp_indexes :: "IndexDefinition list"
  sp_mode :: TableStorageMode

text \<open>The fields of a column line after the word \<^verbatim>\<open>column\<close>.\<close>

definition read_column :: "string \<Rightarrow> Column option" where
  "read_column s =
     (case stream_word s of None \<Rightarrow> None | Some (column_name, s) \<Rightarrow>
      case stream_word s of None \<Rightarrow> None | Some (type_text, s) \<Rightarrow>
      case stream_int s of (ok, nullable, s) \<Rightarrow>
      if \<not> ok then None
      else case stream_u16 s of None \<Rightarrow> None | Some (max_size, s) \<Rightarrow>
      case stream_int s of (has_precision, precision, s) \<Rightarrow>
      case (if has_precision then stream_int s else (True, 0, s)) of (ok, scale, _) \<Rightarrow>
      if \<not> ok then None
      else case type_from_string type_text of None \<Rightarrow> None | Some ty \<Rightarrow>
      case from_catalog column_name ty (nullable \<noteq> 0) max_size (word_of_int precision) (word_of_int scale) of
        Inl _ \<Rightarrow> None
      | Inr c \<Rightarrow> Some c)"

text \<open>One pass of the loop over the lines: \<open>Inl\<close> is an exception that is not caught, \<open>None\<close> an invalid file.\<close>

definition read_line :: "string \<Rightarrow> schema_parts \<Rightarrow> exn + schema_parts option" where
  "read_line line p =
     (if line = [] then Inr (Some p)
      else case stream_word line of None \<Rightarrow> Inr None | Some (word, s) \<Rightarrow>
      if word = ''storage'' then
        case stream_word s of None \<Rightarrow> Inr None | Some (storage_text, _) \<Rightarrow>
          if storage_text = ''MEMORY'' then Inr (Some (p\<lparr>sp_mode := memory_storage\<rparr>))
          else if storage_text = ''DISK'' then Inr (Some (p\<lparr>sp_mode := disk_storage\<rparr>))
          else Inr None
      else if word = ''column'' then
        Inr (case read_column s of None \<Rightarrow> None | Some c \<Rightarrow> Some (p\<lparr>sp_columns := sp_columns p @ [c]\<rparr>))
      else if word = ''constraint'' then
        case stream_word s of None \<Rightarrow> Inr None | Some (constraint_text, _) \<Rightarrow>
          bindE (constraint_from_serialized constraint_text) (\<lambda>c. Inr (Some (p\<lparr>sp_constraints := sp_constraints p @ [c]\<rparr>)))
      else if word = ''index'' then
        case stream_word s of None \<Rightarrow> Inr None | Some (index_text, _) \<Rightarrow>
          bindE (index_from_serialized index_text) (\<lambda>i. Inr (Some (p\<lparr>sp_indexes := sp_indexes p @ [i]\<rparr>)))
      else Inr None)"

fun read_lines :: "string list \<Rightarrow> schema_parts \<Rightarrow> exn + schema_parts option" where
  "read_lines [] p = Inr (Some p)"
| "read_lines (line # ls) p = bindE (read_line line p) (\<lambda>r. case r of None \<Rightarrow> Inr None | Some p \<Rightarrow> read_lines ls p)"

definition no_parts :: schema_parts where
  "no_parts = \<lparr>sp_columns = [], sp_constraints = [], sp_indexes = [], sp_mode = disk_storage\<rparr>"

definition read_schema_text :: "string \<Rightarrow> exn + Schema option" where
  "read_schema_text text =
     (case getlines text of [] \<Rightarrow> Inr None | line # ls \<Rightarrow>
      case stream_word line of None \<Rightarrow> Inr None | Some (word, s) \<Rightarrow>
      case stream_word s of None \<Rightarrow> Inr None | Some (name, _) \<Rightarrow>
      if word \<noteq> ''table'' then Inr None
      else bindE (read_lines ls no_parts) (\<lambda>r. case r of None \<Rightarrow> Inr None | Some p \<Rightarrow>
        case schema_new name (sp_columns p) (sp_constraints p) (sp_indexes p) (sp_mode p) of
          Inl (Invalid_argument _) \<Rightarrow> Inr None
        | Inl e \<Rightarrow> Inl e
        | Inr s \<Rightarrow> Inr (Some s)))"

definition read_schema_file :: "string \<Rightarrow> world \<Rightarrow> exn + Schema option" where
  "read_schema_file path w =
     (case w_files w path of None \<Rightarrow> Inr None | Some bytes \<Rightarrow> read_schema_text (map char_of_byte bytes))"

section \<open>Durable files and directories\<close>

definition filesystem_error :: exn where
  "filesystem_error = Runtime_error ''filesystem error''"

text \<open>A system call that is not repeated when it is interrupted.\<close>

definition call_once :: "world \<Rightarrow> bool \<times> world" where
  "call_once w = (case next_outcome w of (r, w) \<Rightarrow> (r \<noteq> Io_error \<and> r \<noteq> Io_eintr, w))"

definition fsync_file :: "string \<Rightarrow> world \<Rightarrow> bool \<times> world" where
  "fsync_file p w =
     (case call_once w of (ok, w) \<Rightarrow>
        (ok, if ok then w\<lparr>w_synced := (w_synced w)(p := length (contents w p))\<rparr> else w))"

definition remove_file :: "string \<Rightarrow> world \<Rightarrow> (exn + unit) \<times> world" where
  "remove_file p w =
     (case call_once w of (ok, w) \<Rightarrow>
        if ok then (Inr (), w\<lparr>w_files := (w_files w)(p := None)\<rparr>) else (Inl filesystem_error, w))"

definition write_all :: "string \<Rightarrow> string \<Rightarrow> world \<Rightarrow> bool \<times> world" where
  "write_all fd text w = full_write_at fd (map byte_of text) 0 w"

text \<open>The descriptor is closed even when \<^verbatim>\<open>fsync\<close> fails.\<close>

definition fsync_directory :: "string \<Rightarrow> world \<Rightarrow> bool \<times> world" where
  "fsync_directory p w =
     (case call_once w of (ok, w) \<Rightarrow>
      if \<not> ok \<or> p \<notin> w_dirs w then (False, w)
      else case call_once w of (synced, w) \<Rightarrow> case call_once w of (closed, w) \<Rightarrow> (synced \<and> closed, w))"

definition sync_parent :: "string \<Rightarrow> world \<Rightarrow> bool \<times> world" where
  "sync_parent p w = (if parent_path p = [] then (True, w) else fsync_directory (parent_path p) w)"

definition create_directory_durable :: "string \<Rightarrow> world \<Rightarrow> bool \<times> world" where
  "create_directory_durable p w =
     (let existed = p \<in> w_dirs w in
      case create_directories p w of (ok, w) \<Rightarrow> if \<not> ok \<or> existed then (False, w) else sync_parent p w)"

definition create_empty_file_durable :: "string \<Rightarrow> world \<Rightarrow> (exn + bool) \<times> world" where
  "create_empty_file_durable p w =
     (case call_once w of (opened, w) \<Rightarrow>
      if \<not> opened \<or> w_files w p \<noteq> None \<or> p \<in> w_dirs w \<or> \<not> parent_exists w p then (Inr False, w)
      else case fsync_file p (w\<lparr>w_files := (w_files w)(p \<mapsto> []), w_synced := (w_synced w)(p := 0)\<rparr>) of (synced, w) \<Rightarrow>
      case call_once w of (closed, w) \<Rightarrow>
      if \<not> synced \<or> \<not> closed then
        case remove_file p w of (Inl e, w) \<Rightarrow> (Inl e, w) | (Inr _, w) \<Rightarrow> (Inr False, w)
      else case sync_parent p w of (ok, w) \<Rightarrow> (Inr ok, w))"

definition temp_path :: "string \<Rightarrow> string" where
  "temp_path path = path @ ''.tmp''"

definition rename_file :: "string \<Rightarrow> string \<Rightarrow> world \<Rightarrow> bool \<times> world" where
  "rename_file from to w =
     (case call_once w of (ok, w) \<Rightarrow>
      if \<not> ok \<or> w_files w from = None \<or> to \<in> w_dirs w then (False, w)
      else (True, w\<lparr>w_files := (w_files w)(from := None, to := w_files w from), w_synced := (w_synced w)(to := w_synced w from)\<rparr>))"

definition write_schema_file :: "string \<Rightarrow> Schema \<Rightarrow> world \<Rightarrow> (exn + bool) \<times> world" where
  "write_schema_file path schema w =
     (let temp = temp_path path;
          discard = (\<lambda>w. case remove_file temp w of (Inl e, w) \<Rightarrow> (Inl e, w) | (Inr _, w) \<Rightarrow> (Inr False, w)) in
      case call_once w of (opened, w) \<Rightarrow>
      if \<not> opened \<or> temp \<in> w_dirs w \<or> \<not> parent_exists w temp then (Inr False, w)
      else case write_all temp (serialize_schema schema) (w\<lparr>w_files := (w_files w)(temp \<mapsto> []), w_synced := (w_synced w)(temp := 0)\<rparr>) of
        (written, w) \<Rightarrow>
      case (if written then fsync_file temp w else (False, w)) of (ok, w) \<Rightarrow>
      case call_once w of (closed, w) \<Rightarrow>
      if \<not> ok \<or> \<not> closed then discard w
      else case rename_file temp path w of (renamed, w) \<Rightarrow>
      if \<not> renamed then discard w
      else case sync_parent path w of (ok, w) \<Rightarrow> (Inr ok, w))"

section \<open>The operations of the catalog\<close>

definition database_path :: "string \<Rightarrow> string \<Rightarrow> string" where
  "database_path root db = path_append root db"

definition table_path :: "string \<Rightarrow> string \<Rightarrow> string \<Rightarrow> string" where
  "table_path root db table = path_append (database_path root db) table"

definition schema_file_path :: "string \<Rightarrow> string \<Rightarrow> string \<Rightarrow> string" where
  "schema_file_path root db table = path_append (table_path root db table) ''schema.catalog''"

definition table_file_path :: "string \<Rightarrow> string \<Rightarrow> string \<Rightarrow> string" where
  "table_file_path root db table = path_append (table_path root db table) ''data.tbl''"

definition list_directory_names :: "string \<Rightarrow> world \<Rightarrow> string list" where
  "list_directory_names path w = sorted_list_of_set (filename ` {d \<in> w_dirs w. d \<noteq> path \<and> parent_path d = path})"

text \<open>The constructor throws when the data root cannot be made.\<close>

definition catalog_open :: "string \<Rightarrow> world \<Rightarrow> (exn + unit) \<times> world" where
  "catalog_open root w = (case create_directories root w of (ok, w) \<Rightarrow> (if ok then Inr () else Inl filesystem_error, w))"

definition database_exists :: "string \<Rightarrow> string \<Rightarrow> world \<Rightarrow> bool" where
  "database_exists root db w \<longleftrightarrow> database_path root db \<in> w_dirs w"

definition table_exists :: "string \<Rightarrow> string \<Rightarrow> string \<Rightarrow> world \<Rightarrow> bool" where
  "table_exists root db table w \<longleftrightarrow>
     table_path root db table \<in> w_dirs w \<and> w_files w (schema_file_path root db table) \<noteq> None \<and>
     w_files w (table_file_path root db table) \<noteq> None"

definition is_valid_new_table_name :: "string \<Rightarrow> string \<Rightarrow> string \<Rightarrow> world \<Rightarrow> bool" where
  "is_valid_new_table_name root db table w \<longleftrightarrow>
     database_exists root db w \<and> is_valid_table_name table \<and>
     \<not> (table_path root db table \<in> w_dirs w \<or> w_files w (table_path root db table) \<noteq> None)"

definition list_databases :: "string \<Rightarrow> world \<Rightarrow> string list" where
  "list_databases root w = list_directory_names root w"

definition list_tables :: "string \<Rightarrow> string \<Rightarrow> world \<Rightarrow> string list" where
  "list_tables root db w = list_directory_names (database_path root db) w"

definition load_schema :: "string \<Rightarrow> string \<Rightarrow> string \<Rightarrow> world \<Rightarrow> exn + Schema option" where
  "load_schema root db table w =
     (if \<not> table_exists root db table w then Inr None else read_schema_file (schema_file_path root db table) w)"

definition create_database :: "string \<Rightarrow> string \<Rightarrow> world \<Rightarrow> bool \<times> world" where
  "create_database root db w =
     (if \<not> is_valid_table_name db then (False, w) else create_directory_durable (database_path root db) w)"

definition remove_directory :: "string \<Rightarrow> world \<Rightarrow> bool \<times> world" where
  "remove_directory path w = (case remove_all path w of (ok, w) \<Rightarrow> if \<not> ok then (False, w) else sync_parent path w)"

definition drop_database :: "string \<Rightarrow> string \<Rightarrow> world \<Rightarrow> bool \<times> world" where
  "drop_database root db w =
     (if \<not> is_valid_table_name db \<or> \<not> database_exists root db w then (False, w) else remove_directory (database_path root db) w)"

definition cleanup_table_dir :: "string \<Rightarrow> world \<Rightarrow> (exn + bool) \<times> world" where
  "cleanup_table_dir dir w =
     (case remove_all dir w of (ok, w) \<Rightarrow>
      if \<not> ok then (Inl filesystem_error, w) else case fsync_directory (parent_path dir) w of (_, w) \<Rightarrow> (Inr False, w))"

definition create_table :: "string \<Rightarrow> string \<Rightarrow> Schema \<Rightarrow> world \<Rightarrow> (exn + bool) \<times> world" where
  "create_table root db schema w =
     (let dir = table_path root db (table_name schema) in
      if \<not> database_exists root db w \<or> \<not> schema_is_valid schema \<or> \<not> is_valid_new_table_name root db (table_name schema) w then (Inr False, w)
      else case create_directory_durable dir w of (ok, w) \<Rightarrow>
      if \<not> ok then (Inr False, w)
      else case create_empty_file_durable (table_file_path root db (table_name schema)) w of
        (Inl e, w) \<Rightarrow> (Inl e, w)
      | (Inr ok, w) \<Rightarrow>
      if \<not> ok then cleanup_table_dir dir w
      else case write_schema_file (schema_file_path root db (table_name schema)) schema w of
        (Inl e, w) \<Rightarrow> (Inl e, w)
      | (Inr ok, w) \<Rightarrow> if \<not> ok then cleanup_table_dir dir w else (Inr True, w))"

definition drop_table :: "string \<Rightarrow> string \<Rightarrow> string \<Rightarrow> world \<Rightarrow> bool \<times> world" where
  "drop_table root db table w =
     (if \<not> database_exists root db w \<or> \<not> table_exists root db table w then (False, w)
      else remove_directory (table_path root db table) w)"

definition replace_table_schema :: "string \<Rightarrow> string \<Rightarrow> Schema \<Rightarrow> world \<Rightarrow> (exn + bool) \<times> world" where
  "replace_table_schema root db schema w =
     (if \<not> database_exists root db w \<or> \<not> table_exists root db (table_name schema) w \<or> \<not> schema_is_valid schema then (Inr False, w)
      else write_schema_file (schema_file_path root db (table_name schema)) schema w)"

section \<open>Reading what was written\<close>

abbreviation no_space :: "string \<Rightarrow> bool" where "no_space \<equiv> list_all (\<lambda>c. \<not> isspace c)"

lemma isspace_chars [simp]: "isspace (CHR '' '')" "isspace newline"
  by code_simp+

lemma dropWhile_no_space: "no_space s \<Longrightarrow> s \<noteq> [] \<Longrightarrow> dropWhile isspace (s @ rest) = s @ rest"
  by (cases s) auto

lemma takeWhile_stops: "list_all P xs \<Longrightarrow> rest = [] \<or> \<not> P (hd rest) \<Longrightarrow> takeWhile P (xs @ rest) = xs"
  by (cases rest) (auto simp: list_all_iff takeWhile_append2 takeWhile_tail)

lemma stream_word_skip [simp]: "stream_word (CHR '' '' # s) = stream_word s"
  by (simp add: stream_word_def)

lemma stream_word_next:
  "no_space w \<Longrightarrow> w \<noteq> [] \<Longrightarrow> rest = [] \<or> isspace (hd rest) \<Longrightarrow> stream_word (w @ rest) = Some (w, rest)"
  by (simp add: stream_word_def Let_def dropWhile_no_space takeWhile_stops)

lemma stream_word_blank: "no_space w \<Longrightarrow> w \<noteq> [] \<Longrightarrow> stream_word (w @ CHR '' '' # rest) = Some (w, CHR '' '' # rest)"
  by (simp add: stream_word_next)

lemma stream_word_last: "no_space w \<Longrightarrow> w \<noteq> [] \<Longrightarrow> stream_word w = Some (w, [])"
  using stream_word_next [of w "[]"] by simp

lemma digit_no_space: "isdigit c \<Longrightarrow> \<not> isspace c" "isdigit c \<Longrightarrow> c \<noteq> CHR ''-'' \<and> c \<noteq> CHR ''+''"
  by (auto simp: isdigit_def isspace_def)

lemma no_space_show_nat [simp]: "no_space (show_nat n)"
  using digits_show_nat [of n] by (auto simp: list_all_iff dest: digit_no_space)

lemma hd_show_nat: "isdigit (hd (show_nat n))"
  using digits_show_nat [of n] by (cases "show_nat n") (auto simp: list_all_iff)

lemma stream_digits_show:
  assumes "rest = [] \<or> \<not> isdigit (hd rest)"
  shows "stream_digits (CHR '' '' # show_nat n @ rest) = Some (False, n, rest)"
  using assms digit_no_space(2) [OF hd_show_nat [of n]]
  by (simp add: stream_digits_def Let_def dropWhile_no_space takeWhile_stops digits_show_nat)

lemma stream_digits_blank: "stream_digits (CHR '' '' # show_nat n @ CHR '' '' # rest) = Some (False, n, CHR '' '' # rest)"
proof -
  have "\<not> isdigit (CHR '' '')" by code_simp
  then show ?thesis by (simp add: stream_digits_show)
qed

lemma stream_digits_last: "stream_digits (CHR '' '' # show_nat n) = Some (False, n, [])"
  using stream_digits_show [of "[]" n] by simp

lemma getlines_line: "newline \<notin> set line \<Longrightarrow> getlines (line @ newline # rest) = line # getlines rest"
proof -
  assume "newline \<notin> set line"
  then have "takeWhile (\<lambda>c. c \<noteq> newline) (line @ newline # rest) = line" by (intro takeWhile_stops) (auto simp: list_all_iff)
  then show ?thesis by (subst getlines.simps) (simp add: Let_def)
qed

lemma getlines_Nil [simp]: "getlines [] = []"
  by (subst getlines.simps) simp

lemma getlines_concat:
  "\<forall>x\<in>set xs. newline \<notin> set (f x) \<Longrightarrow> getlines (concat (map (\<lambda>x. f x @ [newline]) xs) @ rest) = map f xs @ getlines rest"
  by (induction xs) (simp_all add: getlines_line)

text \<open>Names, type names and column lines.\<close>

lemma valid_name_no_space: "is_valid_name s \<Longrightarrow> no_space s \<and> s \<noteq> [] \<and> CHR ''/'' \<notin> set s"
  by (cases s) (auto simp: is_valid_name_def list_all_iff islower_def isdigit_def isspace_def split: if_splits)

lemma no_newline: "no_space s \<Longrightarrow> newline \<notin> set s"
  by (auto simp: list_all_iff)

lemma type_text_no_space: "no_space (type_to_string ty)" "type_to_string ty \<noteq> []"
  by (cases ty; simp add: isspace_def)+

lemma bit_text: "(if b then ''1'' else ''0'') = show_nat (if b then 1 else 0)"
proof -
  have "show_nat 1 = ''1''" "show_nat 0 = ''0''" by code_simp+
  then show ?thesis by simp
qed

lemma read_column_line:
  assumes "column_wf c"
  shows "read_column (drop 6 (column_line c)) = Some c"
proof -
  have n: "is_valid_name (col_name c)" using assms by (auto simp: column_wf_def column_is_valid_def split: if_splits)
  have f: "type_from_string (type_to_string (col_type c)) = Some (col_type c)"
    "from_catalog (col_name c) (col_type c) (col_nullable c) (col_max_size c) (col_precision c) (col_scale c) = Inr c"
    using assms by (auto simp: from_catalog_iff column_wf_def)
  have b: "unat (col_max_size c) \<le> 65535" using unat_u16_lt [of "col_max_size c"] by linarith
  have i: "n \<le> 2147483647 \<Longrightarrow> stream_int (CHR '' '' # show_nat n @ CHR '' '' # rest) = (True, int n, CHR '' '' # rest)"
    "n \<le> 2147483647 \<Longrightarrow> stream_int (CHR '' '' # show_nat n) = (True, int n, [])" for n rest
    by (simp_all add: stream_int_def stream_digits_blank stream_digits_last)
  have z: "int (if col_nullable c then 1 else 0) \<noteq> 0 \<longleftrightarrow> col_nullable c" "(if col_nullable c then 1 else 0) \<le> (2147483647 :: nat)"
    by simp_all
  have w: "unat (w :: u8) \<le> 2147483647" "word_of_int (int (unat w)) = w" for w :: u8 using unsigned_less [of w, where ?'a = nat] by simp_all
  show ?thesis
    using n b valid_name_no_space [OF n]
    unfolding column_line_def read_column_def bit_text
    by (simp only: append.simps drop.simps drop_Cons_numeral append_assoc numeral_eq_Suc pred_numeral_simps)
      (simp add: stream_word_blank type_text_no_space i z w stream_u16_def stream_digits_blank f del: of_nat_eq_0_iff int_eq_iff)
qed

text \<open>The texts of constraints and indexes are single words when no part has white space.\<close>

definition constraint_storable :: "ConstraintDefinition \<Rightarrow> bool" where
  "constraint_storable c \<longleftrightarrow> constraint_text_ok c \<and> list_all no_space (con_columns c) \<and> list_all no_space (con_args c)"

definition schema_storable :: "Schema \<Rightarrow> bool" where
  "schema_storable s \<longleftrightarrow> schema_wf s \<and> list_all column_wf (columns s) \<and> list_all constraint_storable (constraints s)"

lemma no_space_join: "list_all no_space xs \<Longrightarrow> no_space (join_csv xs)"
  by (induction xs rule: join_csv.induct) (simp_all add: isspace_def)

lemma not_space_bar: "\<not> isspace (CHR ''|'')"
  by code_simp

lemma constraint_line_word:
  assumes "constraint_storable c" "constraint_wf s c"
  shows "no_space (constraint_serialized c)" "constraint_serialized c \<noteq> []"
    "constraint_from_serialized (constraint_serialized c) = Inr c"
proof -
  have "con_kind c \<in> {''primary_key'', ''unique'', ''foreign_key'', ''check''}"
    using assms(2) by (auto simp: constraint_wf_def Let_def)
  then have "no_space (con_kind c)" by (elim insertE emptyE) (simp_all add: isspace_def)
  then show "no_space (constraint_serialized c)"
    using assms(1) by (simp add: constraint_serialized_def constraint_storable_def no_space_join not_space_bar)
  show "constraint_from_serialized (constraint_serialized c) = Inr c"
    using assms(1) by (intro constraint_text_roundtrip) (simp add: constraint_storable_def)
qed (simp add: constraint_serialized_def)

lemma index_line_word:
  assumes "index_wf s i" "schema_wf s"
  shows "no_space (index_serialized i)" "index_serialized i \<noteq> []" "index_from_serialized (index_serialized i) = Inr i"
proof -
  obtain n where n: "idx_columns i = [n]" "is_valid_name n" "is_valid_name (idx_name i)"
    using assms by (auto simp: index_wf_def schema_wf_def column_is_valid_def split: if_splits)
  show "no_space (index_serialized i)"
    using n valid_name_no_space by (simp add: index_serialized_def not_space_bar bit_text)
  show "index_from_serialized (index_serialized i) = Inr i"
    by (rule index_text_roundtrip) (use n valid_name_field_ok in \<open>auto simp: field_ok_def\<close>)
qed (simp add: index_serialized_def)

text \<open>The lines of the three groups.\<close>

lemma keyword_line:
  "stream_word (''column '' @ w) = Some (''column'', CHR '' '' # w)" "stream_word (''constraint '' @ w) = Some (''constraint'', CHR '' '' # w)"
  "stream_word (''index '' @ w) = Some (''index'', CHR '' '' # w)" "stream_word (''storage '' @ w) = Some (''storage'', CHR '' '' # w)"
  "stream_word (''table '' @ w) = Some (''table'', CHR '' '' # w)"
  using stream_word_blank [of "''column''" w] stream_word_blank [of "''constraint''" w] stream_word_blank [of "''index''" w]
    stream_word_blank [of "''storage''" w] stream_word_blank [of "''table''" w]
  by (simp_all add: isspace_def)

lemma read_column_lines:
  "list_all column_wf cs \<Longrightarrow> read_lines (map column_line cs @ ls) p = read_lines ls (p\<lparr>sp_columns := sp_columns p @ cs\<rparr>)"
proof (induction cs arbitrary: p)
  case (Cons c cs)
  obtain w where w: "column_line c = ''column '' @ w" by (simp add: column_line_def)
  have "read_line (column_line c) p = Inr (Some (p\<lparr>sp_columns := sp_columns p @ [c]\<rparr>))"
    using read_column_line [of c] Cons.prems unfolding read_line_def w keyword_line by (simp add: w)
  then show ?case using Cons by simp
qed simp

lemma read_constraint_lines:
  "\<forall>c\<in>set cs. constraint_storable c \<and> constraint_wf s c \<Longrightarrow>
   read_lines (map (\<lambda>c. ''constraint '' @ constraint_serialized c) cs @ ls) p = read_lines ls (p\<lparr>sp_constraints := sp_constraints p @ cs\<rparr>)"
proof (induction cs arbitrary: p)
  case (Cons c cs)
  note w = constraint_line_word [of c s]
  have "read_line (''constraint '' @ constraint_serialized c) p = Inr (Some (p\<lparr>sp_constraints := sp_constraints p @ [c]\<rparr>))"
    using w Cons.prems unfolding read_line_def keyword_line by (simp add: stream_word_last)
  then show ?case using Cons by simp
qed simp

lemma read_index_lines:
  "\<forall>i\<in>set is. index_wf s i \<Longrightarrow> schema_wf s \<Longrightarrow>
   read_lines (map (\<lambda>i. ''index '' @ index_serialized i) is) p = Inr (Some (p\<lparr>sp_indexes := sp_indexes p @ is\<rparr>))"
proof (induction "is" arbitrary: p)
  case (Cons i "is")
  note w = index_line_word [of s i]
  have "read_line (''index '' @ index_serialized i) p = Inr (Some (p\<lparr>sp_indexes := sp_indexes p @ [i]\<rparr>))"
    using w Cons.prems unfolding read_line_def keyword_line by (simp add: stream_word_last)
  then show ?case using Cons by simp
qed simp

lemma read_schema_serialized:
  assumes "schema_storable s"
  shows "read_schema_text (serialize_schema s) = Inr (Some s)"
proof -
  have wf: "schema_wf s" and cols: "list_all column_wf (columns s)" and cons: "\<forall>c\<in>set (constraints s). constraint_storable c \<and> constraint_wf s c"
    and idxs: "\<forall>i\<in>set (indexes s). index_wf s i" and name: "is_valid_name (table_name s)"
    using assms by (auto simp: schema_storable_def list_all_iff schema_wf_def)
  let ?mode = "if storage_mode s = memory_storage then ''MEMORY'' else ''DISK''"
  have nl: "\<forall>c\<in>set (columns s). newline \<notin> set (column_line c)"
    "\<forall>c\<in>set (constraints s). newline \<notin> set (''constraint '' @ constraint_serialized c)"
    "\<forall>i\<in>set (indexes s). newline \<notin> set (''index '' @ index_serialized i)"
  proof -
    have "newline \<notin> set (column_line c)" if "column_wf c" for c
      using that no_newline [OF type_text_no_space(1)] no_newline [OF no_space_show_nat] no_newline [of "col_name c"] valid_name_no_space [of "col_name c"]
      by (auto simp: column_line_def column_wf_def column_is_valid_def split: if_splits)
    then show "\<forall>c\<in>set (columns s). newline \<notin> set (column_line c)" using cols by (simp add: list_all_iff)
    show "\<forall>c\<in>set (constraints s). newline \<notin> set (''constraint '' @ constraint_serialized c)"
      using cons no_newline [OF constraint_line_word(1)] by auto
    show "\<forall>i\<in>set (indexes s). newline \<notin> set (''index '' @ index_serialized i)"
      using idxs no_newline [OF index_line_word(1) [OF _ wf]] by auto
  qed
  have names: "newline \<notin> set (''table '' @ table_name s)" "newline \<notin> set (''storage '' @ ?mode)"
    using no_newline [of "table_name s"] valid_name_no_space [OF name] by auto
  have g: "getlines (serialize_schema s) = (''table '' @ table_name s) # (''storage '' @ ?mode) #
      map column_line (columns s) @ map (\<lambda>c. ''constraint '' @ constraint_serialized c) (constraints s) @
      map (\<lambda>i. ''index '' @ index_serialized i) (indexes s)"
    using getlines_line [OF names(1)] getlines_line [OF names(2)] getlines_concat [OF nl(1)] getlines_concat [OF nl(2)]
      getlines_concat [OF nl(3), of "[]"]
    by (simp add: serialize_schema_def)
  have m: "stream_word ?mode = Some (?mode, [])" by (rule stream_word_last) (simp_all add: isspace_def)
  have st: "read_line (''storage '' @ ?mode) p = Inr (Some (p\<lparr>sp_mode := storage_mode s\<rparr>))" for p
    unfolding read_line_def keyword_line using m by (cases "storage_mode s") simp_all
  have t: "stream_word (table_name s) = Some (table_name s, [])" using valid_name_no_space [OF name] by (simp add: stream_word_last)
  have new: "schema_new (table_name s) (columns s) (constraints s) (indexes s) (storage_mode s) = Inr s"
    using wf by (simp add: schema_new_iff mk_schema_def)
  show ?thesis
    unfolding read_schema_text_def g using t
    by (simp only: list.case keyword_line option.case prod.case stream_word_skip read_lines.simps st
        bindE_simps read_column_lines [OF cols] read_constraint_lines [OF cons] read_index_lines [OF idxs wf])
      (simp add: no_parts_def new)
qed

section \<open>What the file operations change\<close>

text \<open>Worlds with the same files and directories, whatever was synced.\<close>

definition same_tree :: "world \<Rightarrow> world \<Rightarrow> bool" where
  "same_tree w w' \<longleftrightarrow> w_files w' = w_files w \<and> w_dirs w' = w_dirs w"

lemma call_once_snd [simp]:
  "w_files (snd (call_once w)) = w_files w" "w_dirs (snd (call_once w)) = w_dirs w" "w_synced (snd (call_once w)) = w_synced w"
  by (simp_all add: call_once_def next_outcome_def split: list.split)

lemma fsync_directory_snd [simp]:
  "w_files (snd (fsync_directory p w)) = w_files w" "w_dirs (snd (fsync_directory p w)) = w_dirs w"
  "w_synced (snd (fsync_directory p w)) = w_synced w"
  by (simp_all add: fsync_directory_def split_beta)

lemma sync_parent_snd [simp]:
  "w_files (snd (sync_parent p w)) = w_files w" "w_dirs (snd (sync_parent p w)) = w_dirs w" "w_synced (snd (sync_parent p w)) = w_synced w"
  by (simp_all add: sync_parent_def)

lemma fsync_file_snd [simp]:
  "w_files (snd (fsync_file p w)) = w_files w" "w_dirs (snd (fsync_file p w)) = w_dirs w"
  "w_synced (snd (fsync_file p w)) = (if fst (fsync_file p w) then (w_synced w)(p := length (contents w p)) else w_synced w)"
  by (simp_all add: fsync_file_def split_beta contents_def)

lemma remove_file_snd [simp]:
  "w_dirs (snd (remove_file p w)) = w_dirs w" "w_synced (snd (remove_file p w)) = w_synced w"
  "q \<noteq> p \<Longrightarrow> w_files (snd (remove_file p w)) q = w_files w q"
  by (simp_all add: remove_file_def split_beta)

lemma call_once_tree: "call_once w = (ok, w') \<Longrightarrow> w_files w' = w_files w \<and> w_dirs w' = w_dirs w \<and> w_synced w' = w_synced w"
  using call_once_snd [of w] by simp

lemma fsync_file_tree:
  "fsync_file p w = (ok, w') \<Longrightarrow> w_files w' = w_files w \<and> w_dirs w' = w_dirs w \<and>
     w_synced w' = (if ok then (w_synced w)(p := length (contents w p)) else w_synced w)"
  using fsync_file_snd [where p = p and w = w] by simp

lemma sync_parent_tree:
  "sync_parent p w = (ok, w') \<Longrightarrow> w_files w' = w_files w \<and> w_dirs w' = w_dirs w \<and> w_synced w' = w_synced w"
  using sync_parent_snd [of p w] by simp

lemma remove_all_tree:
  "remove_all p w = (ok, w') \<Longrightarrow>
     w_files w' = (if ok then (\<lambda>q. if under p q then None else w_files w q) else w_files w) \<and>
     w_dirs w' = (if ok then {d \<in> w_dirs w. \<not> under p d} else w_dirs w)"
  using next_outcome_same by (fastforce simp: remove_all_def same_data_def split: prod.splits if_splits)

lemma create_directories_tree:
  "create_directories p w = (ok, w') \<Longrightarrow>
     w_files w' = w_files w \<and> w_dirs w' = (if ok then w_dirs w \<union> path_prefixes p else w_dirs w)"
  using next_outcome_same by (fastforce simp: create_directories_def same_data_def split: prod.splits if_splits)

lemma create_directory_durable_tree:
  assumes "create_directory_durable p w = (ok, w')"
  shows "w_files w' = w_files w \<and> (w_dirs w' = w_dirs w \<and> \<not> ok \<or> w_dirs w' = w_dirs w \<union> path_prefixes p)"
proof -
  obtain made w1 where m: "create_directories p w = (made, w1)" by (cases "create_directories p w")
  obtain ok2 w2 where y: "sync_parent p w1 = (ok2, w2)" by (cases "sync_parent p w1")
  have "w' = (if made \<and> p \<notin> w_dirs w then w2 else w1)" "ok \<longrightarrow> made"
    using assms unfolding create_directory_durable_def m y Let_def prod.case by (auto split: if_splits)
  then show ?thesis using create_directories_tree [OF m] sync_parent_tree [OF y] by (cases made) simp_all
qed

lemma create_empty_file_durable_tree:
  assumes "create_empty_file_durable p w = (r, w')"
  shows "w_dirs w' = w_dirs w \<and> (\<forall>q. q \<noteq> p \<longrightarrow> w_files w' q = w_files w q) \<and> (r = Inr True \<longrightarrow> w_files w' p = Some [])"
proof -
  obtain opened w1 where 1: "call_once w = (opened, w1)" by (cases "call_once w")
  let ?w1 = "w1\<lparr>w_files := (w_files w1)(p \<mapsto> []), w_synced := (w_synced w1)(p := 0)\<rparr>"
  obtain synced w2 where 2: "fsync_file p ?w1 = (synced, w2)" by (cases "fsync_file p ?w1")
  obtain closed w3 where 3: "call_once w2 = (closed, w3)" by (cases "call_once w2")
  obtain u w4 where 4: "remove_file p w3 = (u, w4)" by (cases "remove_file p w3")
  obtain ok w5 where 5: "sync_parent p w3 = (ok, w5)" by (cases "sync_parent p w3")
  note t1 = call_once_tree [OF 1] and t2 = fsync_file_tree [OF 2] and t3 = call_once_tree [OF 3] and t5 = sync_parent_tree [OF 5]
  have t3': "w_dirs w3 = w_dirs w" "w_files w3 = (w_files w)(p \<mapsto> [])" using t1 t2 t3 by simp_all
  have t4: "w_dirs w4 = w_dirs w" "\<forall>q. q \<noteq> p \<longrightarrow> w_files w4 q = w_files w q"
    using remove_file_snd [where p = p and w = w3] t3' unfolding 4 by simp_all
  show ?thesis
    using assms [unfolded create_empty_file_durable_def 1 2 3 4 5 prod.case] t1 t3' t4 t5 by (auto split: if_splits sum.splits)
qed

lemma full_write_new:
  assumes "full_write_at p b 0 (w\<lparr>w_files := (w_files w)(p \<mapsto> []), w_synced := y\<rparr>) = (ok, w')"
  shows "w_dirs w' = w_dirs w" "w_synced w' = y" "q \<noteq> p \<Longrightarrow> w_files w' q = w_files w q" "ok \<Longrightarrow> contents w' p = b"
proof -
  note r = full_write_at_result [OF assms]
  from r show "w_dirs w' = w_dirs w" "w_synced w' = y" "q \<noteq> p \<Longrightarrow> w_files w' q = w_files w q"
    by (auto simp: same_except_def)
  have e: "write_block [] 0 b = b" using write_block_end [of "[]" b] by simp
  show "contents w' p = b" if ok
  proof (cases "b = []")
    case True
    then show ?thesis using assms by (auto simp: full_write_at_step contents_def)
  next
    case False
    then show ?thesis using r that e by (simp add: contents_def)
  qed
qed

text \<open>A schema file is replaced as a whole: it keeps its old text, or it has all of the new text, and that is synced.\<close>

lemma write_schema_file_result:
  assumes "write_schema_file path s w = (r, w')"
  shows "w_dirs w' = w_dirs w \<and> (\<forall>q. q \<noteq> path \<and> q \<noteq> temp_path path \<longrightarrow> w_files w' q = w_files w q) \<and>
    (w_files w' path = w_files w path \<and> w_synced w' path = w_synced w path \<and> r \<noteq> Inr True \<or>
     w_files w' path = Some (map byte_of (serialize_schema s)) \<and> w_synced w' path = length (serialize_schema s) \<and> \<not> isl r)"
proof -
  let ?t = "temp_path path" and ?b = "map byte_of (serialize_schema s)"
  have ne: "?t \<noteq> path" by (simp add: temp_path_def)
  obtain opened w1 where 1: "call_once w = (opened, w1)" by (cases "call_once w")
  let ?w1 = "w1\<lparr>w_files := (w_files w1)(?t \<mapsto> []), w_synced := (w_synced w1)(?t := 0)\<rparr>"
  obtain written w2 where 2: "full_write_at ?t ?b 0 ?w1 = (written, w2)" by (cases "full_write_at ?t ?b 0 ?w1")
  obtain ok w3 where 3: "(if written then fsync_file ?t w2 else (False, w2)) = (ok, w3)" by (cases "if written then fsync_file ?t w2 else (False, w2)")
  obtain closed w4 where 4: "call_once w3 = (closed, w4)" by (cases "call_once w3")
  obtain renamed w5 where 5: "rename_file ?t path w4 = (renamed, w5)" by (cases "rename_file ?t path w4")
  obtain ok6 w6 where 6: "sync_parent path w5 = (ok6, w6)" by (cases "sync_parent path w5")
  note t1 = call_once_tree [OF 1] and t2 = full_write_new [OF 2] and t4 = call_once_tree [OF 4] and t6 = sync_parent_tree [OF 6]
  have t3: "w_files w3 = w_files w2" "w_dirs w3 = w_dirs w2" "w_synced w3 = (if ok then (w_synced w2)(?t := length (contents w2 ?t)) else w_synced w2)"
    "ok \<Longrightarrow> written"
    using 3 fsync_file_tree [of ?t w2] by (auto split: if_splits)
  have old: "w_dirs w4 = w_dirs w" "w_files w4 q = w_files w q" "w_synced w4 q = w_synced w q" if "q \<noteq> ?t" for q
    using t1 t2(1-3) t3 t4 that by auto
  have new: "contents w4 ?t = ?b" "w_synced w4 ?t = length ?b" if ok
    using t2(4) t3 t4 that by (auto simp: contents_def)
  have t5: "if renamed then w_dirs w5 = w_dirs w4 \<and> w_files w5 = (w_files w4)(?t := None, path \<mapsto> contents w4 ?t) \<and>
        w_synced w5 = (w_synced w4)(path := w_synced w4 ?t)
      else w_dirs w5 = w_dirs w4 \<and> w_files w5 = w_files w4 \<and> w_synced w5 = w_synced w4"
    using 5 by (auto simp: rename_file_def contents_def split_beta split: if_splits)
  note run = assms [unfolded write_schema_file_def Let_def write_all_def 1 prod.case 2 3 4 5 6]
  have gone: "w_dirs v' = w_dirs w \<and> (\<forall>q. q \<noteq> ?t \<longrightarrow> w_files v' q = w_files w q \<and> w_synced v' q = w_synced w q) \<and> x \<noteq> Inr True"
    if "(case remove_file ?t v of (Inl e, w) \<Rightarrow> (Inl e, w) | (Inr _, w) \<Rightarrow> (Inr False, w)) = (x, v')"
      "w_dirs v = w_dirs w4 \<and> w_files v = w_files w4 \<and> w_synced v = w_synced w4" for v v' and x :: "exn + bool"
    using that(1) old that(2) remove_file_snd [where p = ?t and w = v] by (cases "remove_file ?t v") (auto split: sum.splits)
  consider "\<not> opened \<or> ?t \<in> w_dirs w1 \<or> \<not> parent_exists w1 ?t"
    | "opened" "?t \<notin> w_dirs w1" "parent_exists w1 ?t" "\<not> ok \<or> \<not> closed"
    | "opened" "?t \<notin> w_dirs w1" "parent_exists w1 ?t" "ok" "closed" "\<not> renamed"
    | "opened" "?t \<notin> w_dirs w1" "parent_exists w1 ?t" "ok" "closed" "renamed" by blast
  then show ?thesis
  proof cases
    case 1 then show ?thesis using run t1 by auto
  next
    case 2 then show ?thesis using run gone [of w4 r w'] ne by auto
  next
    case 3 then show ?thesis using run gone [of w5 r w'] t5 ne by auto
  next
    case 4
    then have "r = Inr ok6" "w' = w6" using run by auto
    then show ?thesis using 4 t5 t6 new old ne by auto
  qed
qed

section \<open>Paths of the catalog\<close>

definition root_prefix :: "string \<Rightarrow> string" where
  "root_prefix root = path_append root []"

lemma split_slash: "CHR ''/'' \<notin> set a \<Longrightarrow> CHR ''/'' \<notin> set b \<Longrightarrow> a @ CHR ''/'' # x = b @ CHR ''/'' # y \<longleftrightarrow> a = b \<and> x = y"
proof (induction a arbitrary: b)
  case Nil then show ?case by (cases b) auto
next
  case (Cons c a) then show ?case by (cases b) auto
qed

lemma no_slash_eq: "CHR ''/'' \<notin> set a \<Longrightarrow> a \<noteq> b @ CHR ''/'' # y"
  by auto

lemma under_iff: "under dir q \<longleftrightarrow> q = dir \<or> (\<exists>x. q = dir @ CHR ''/'' # x)"
proof -
  have "take (length dir + 1) q = dir @ ''/'' \<Longrightarrow> q = dir @ CHR ''/'' # drop (length dir + 1) q"
    by (metis append.assoc append_Cons append_self_conv2 append_take_drop_id)
  then show ?thesis by (auto simp: under_def)
qed

lemma prefix_under: "q \<in> path_prefixes p \<Longrightarrow> under q p"
proof -
  have "under (take i p) p" if "i < length p" "p ! i = CHR ''/''" for i
    using id_take_nth_drop [OF that(1)] that(2) by (auto simp: under_iff)
  then show "q \<in> path_prefixes p \<Longrightarrow> under q p" by (auto simp: path_prefixes_def under_iff)
qed

lemma self_prefix: "p \<in> path_prefixes p"
  by (simp add: path_prefixes_def)

lemma catalog_paths:
  assumes "is_valid_name db"
  shows "database_path root db = root_prefix root @ db"
    and "is_valid_name t \<Longrightarrow> table_path root db t = root_prefix root @ db @ CHR ''/'' # t"
    and "is_valid_name t \<Longrightarrow> schema_file_path root db t = root_prefix root @ db @ CHR ''/'' # t @ CHR ''/'' # ''schema.catalog''"
    and "is_valid_name t \<Longrightarrow> table_file_path root db t = root_prefix root @ db @ CHR ''/'' # t @ CHR ''/'' # ''data.tbl''"
proof -
  have ls: "last x \<noteq> CHR ''/''" "x \<noteq> []" if "is_valid_name x" for x
    using valid_name_no_space [OF that] last_in_set [of x] by metis+
  show a: "database_path root db = root_prefix root @ db" by (simp add: database_path_def root_prefix_def path_append_def)
  show b: "is_valid_name t \<Longrightarrow> table_path root db t = root_prefix root @ db @ CHR ''/'' # t"
    using ls [OF assms] by (simp add: table_path_def a path_append_def)
  show "is_valid_name t \<Longrightarrow> schema_file_path root db t = root_prefix root @ db @ CHR ''/'' # t @ CHR ''/'' # ''schema.catalog''"
    "is_valid_name t \<Longrightarrow> table_file_path root db t = root_prefix root @ db @ CHR ''/'' # t @ CHR ''/'' # ''data.tbl''"
    using ls [of t] by (simp_all add: schema_file_path_def table_file_path_def b path_append_def)
qed

text \<open>Different tables have separate paths, and the directory of a table is not a parent of the directory of another table or of a database.\<close>

lemma table_paths_apart:
  assumes names: "is_valid_name db" "is_valid_name t" "is_valid_name db'" "is_valid_name t'"
  shows "under (table_path root db t) (table_path root db' t') \<longleftrightarrow> db' = db \<and> t' = t"
    "under (table_path root db t) (schema_file_path root db' t') \<longleftrightarrow> db' = db \<and> t' = t"
    "under (table_path root db t) (table_file_path root db' t') \<longleftrightarrow> db' = db \<and> t' = t"
    "schema_file_path root db t = schema_file_path root db' t' \<longleftrightarrow> db = db' \<and> t = t'"
    "table_file_path root db t = table_file_path root db' t' \<longleftrightarrow> db = db' \<and> t = t'"
    "schema_file_path root db t \<noteq> table_file_path root db' t'"
    "temp_path (schema_file_path root db t) \<noteq> table_file_path root db' t'"
    "temp_path (schema_file_path root db t) \<noteq> schema_file_path root db' t'"
  using valid_name_no_space [OF names(1)] valid_name_no_space [OF names(2)] valid_name_no_space [OF names(3)] valid_name_no_space [OF names(4)]
  by (auto simp: catalog_paths names under_iff split_slash no_slash_eq temp_path_def)

lemma database_paths_apart:
  assumes names: "is_valid_name db" "is_valid_name db'" "is_valid_name t'"
  shows "under (database_path root db) (table_path root db' t') \<longleftrightarrow> db' = db"
    "under (database_path root db) (schema_file_path root db' t') \<longleftrightarrow> db' = db"
    "under (database_path root db) (table_file_path root db' t') \<longleftrightarrow> db' = db"
    "\<not> under (table_path root db' t') (database_path root db)"
  using valid_name_no_space [OF names(1)] valid_name_no_space [OF names(2)] valid_name_no_space [OF names(3)]
  by (auto simp: catalog_paths names under_iff split_slash no_slash_eq)

section \<open>The catalog as a map\<close>

text \<open>
  What a client sees of a catalog: the tables with what loading their schema returns. \<open>catalog_spec\<close> gives for every operation and
  its result the views that are allowed afterwards.
\<close>

type_synonym view = "string \<times> string \<Rightarrow> (exn + Schema option) option"

definition catalog_view :: "string \<Rightarrow> world \<Rightarrow> view" where
  "catalog_view root w = (\<lambda>(db, t).
     if is_valid_name db \<and> is_valid_name t \<and> table_exists root db t w then Some (load_schema root db t w) else None)"

datatype catalog_op =
  Create_database string
| Drop_database string
| Create_table string Schema
| Drop_table string string
| Replace_schema string Schema

fun catalog_step :: "string \<Rightarrow> catalog_op \<Rightarrow> world \<Rightarrow> (exn + bool) \<times> world" where
  "catalog_step root (Create_database db) w = apfst Inr (create_database root db w)"
| "catalog_step root (Drop_database db) w = apfst Inr (drop_database root db w)"
| "catalog_step root (Create_table db s) w = create_table root db s w"
| "catalog_step root (Drop_table db t) w = apfst Inr (drop_table root db t w)"
| "catalog_step root (Replace_schema db s) w = replace_table_schema root db s w"

fun catalog_spec :: "catalog_op \<Rightarrow> exn + bool \<Rightarrow> view \<Rightarrow> view set" where
  "catalog_spec (Create_database db) r v = {v}"
| "catalog_spec (Drop_database db) r v =
     (let dropped = (\<lambda>k. if fst k = db then None else v k) in if r = Inr True then {dropped} else {v, dropped})"
| "catalog_spec (Create_table db s) r v =
     (let created = v((db, table_name s) \<mapsto> Inr (Some s)) in
      if r = Inr True then {created} else if r = Inr False then {v} else {v, created})"
| "catalog_spec (Drop_table db t) r v =
     (let dropped = v((db, t) := None) in if r = Inr True then {dropped} else {v, dropped})"
| "catalog_spec (Replace_schema db s) r v =
     (let replaced = v((db, table_name s) \<mapsto> Inr (Some s)) in
      if r = Inr True then {replaced} else if r = Inr False then {v, replaced} else {v})"

text \<open>The operations get a valid database name and, for a new schema, one the text form can hold.\<close>

fun op_ok :: "catalog_op \<Rightarrow> bool" where
  "op_ok (Create_database db) \<longleftrightarrow> True"
| "op_ok (Drop_database db) \<longleftrightarrow> True"
| "op_ok (Create_table db s) \<longleftrightarrow> is_valid_name db \<and> schema_storable s"
| "op_ok (Drop_table db t) \<longleftrightarrow> is_valid_name db \<and> is_valid_name t"
| "op_ok (Replace_schema db s) \<longleftrightarrow> is_valid_name db \<and> schema_storable s"

text \<open>Files of tables are in directories that exist.\<close>

definition files_in_dirs :: "string \<Rightarrow> world \<Rightarrow> bool" where
  "files_in_dirs root w \<longleftrightarrow> (\<forall>db t. is_valid_name db \<and> is_valid_name t \<and> table_path root db t \<notin> w_dirs w \<longrightarrow>
     w_files w (schema_file_path root db t) = None \<and> w_files w (table_file_path root db t) = None)"

lemma view_at_eq:
  assumes "is_valid_name db \<Longrightarrow> is_valid_name t \<Longrightarrow>
      (table_path root db t \<in> w_dirs w' \<longleftrightarrow> table_path root db t \<in> w_dirs w) \<and>
      w_files w' (schema_file_path root db t) = w_files w (schema_file_path root db t) \<and>
      w_files w' (table_file_path root db t) = w_files w (table_file_path root db t)"
  shows "catalog_view root w' (db, t) = catalog_view root w (db, t)"
proof (cases "is_valid_name db \<and> is_valid_name t")
  case True
  then show ?thesis using assms
    by (elim conjE) (simp only: catalog_view_def table_exists_def load_schema_def read_schema_file_def prod.case simp_thms)
qed (auto simp: catalog_view_def)

lemma view_eqI: "(\<And>db t. v (db, t) = v' (db, t)) \<Longrightarrow> v = (v' :: view)"
  by (auto simp: fun_eq_iff)

lemma view_stored:
  assumes "is_valid_name db" "schema_storable s" "table_path root db (table_name s) \<in> w_dirs w"
    "w_files w (schema_file_path root db (table_name s)) = Some (map byte_of (serialize_schema s))"
    "w_files w (table_file_path root db (table_name s)) \<noteq> None"
  shows "catalog_view root w (db, table_name s) = Some (Inr (Some s))"
proof -
  have "is_valid_name (table_name s)" using assms(2) by (simp add: schema_storable_def schema_wf_def)
  then show ?thesis using assms
    by (simp add: catalog_view_def table_exists_def load_schema_def read_schema_file_def read_schema_serialized)
qed

lemma create_database_view: "create_database root db w = (ok, w') \<Longrightarrow> catalog_view root w' = catalog_view root w"
proof (cases "is_valid_name db")
  case True
  assume "create_database root db w = (ok, w')"
  then have c: "create_directory_durable (database_path root db) w = (ok, w')"
    using True by (simp add: create_database_def is_valid_table_name_def)
  note t = create_directory_durable_tree [OF c]
  have "table_path root db' t' \<notin> path_prefixes (database_path root db)" if "is_valid_name db'" "is_valid_name t'" for db' t'
    using prefix_under database_paths_apart(4) [OF True that] by blast
  then show ?thesis using t by (intro view_eqI view_at_eq) auto
qed (simp add: create_database_def is_valid_table_name_def)

lemma remove_directory_tree:
  assumes "remove_directory path w = (ok, w')"
  shows "w_files w' = w_files w \<and> w_dirs w' = w_dirs w \<and> \<not> ok \<or>
    w_files w' = (\<lambda>q. if under path q then None else w_files w q) \<and> w_dirs w' = {d \<in> w_dirs w. \<not> under path d}"
proof -
  obtain done1 w1 where 1: "remove_all path w = (done1, w1)" by (cases "remove_all path w")
  obtain done2 w2 where 2: "sync_parent path w1 = (done2, w2)" by (cases "sync_parent path w1")
  have "w' = (if done1 then w2 else w1)" "ok \<longrightarrow> done1" using assms unfolding remove_directory_def 1 2 prod.case by (auto split: if_splits)
  then show ?thesis using remove_all_tree [OF 1] sync_parent_tree [OF 2] by (cases done1) simp_all
qed

lemma drop_database_view:
  assumes "drop_database root db w = (ok, w')"
  shows "catalog_view root w' \<in> catalog_spec (Drop_database db) (Inr ok) (catalog_view root w)"
proof (cases "is_valid_name db \<and> database_exists root db w")
  case True
  then have r: "remove_directory (database_path root db) w = (ok, w')"
    using assms by (simp add: drop_database_def is_valid_table_name_def)
  show ?thesis
  proof (rule disjE [OF remove_directory_tree [OF r]])
    assume "w_files w' = w_files w \<and> w_dirs w' = w_dirs w \<and> \<not> ok"
    moreover from this have "catalog_view root w' = catalog_view root w" by (intro view_eqI view_at_eq) auto
    ultimately show ?thesis by (simp add: Let_def)
  next
    assume t: "w_files w' = (\<lambda>q. if under (database_path root db) q then None else w_files w q) \<and>
      w_dirs w' = {d \<in> w_dirs w. \<not> under (database_path root db) d}"
    have "catalog_view root w' (db', t') = (if db' = db then None else catalog_view root w (db', t'))" for db' t'
    proof (cases "db' = db")
      case same: True
      then show ?thesis using t database_paths_apart(2) [of db db t'] by (simp add: catalog_view_def table_exists_def)
    next
      case False
      then show ?thesis using t database_paths_apart [of db db' t'] True by (simp only: if_False) (rule view_at_eq, simp)
    qed
    then have "catalog_view root w' = (\<lambda>k. if fst k = db then None else catalog_view root w k)" by (intro view_eqI) simp
    then show ?thesis by (simp add: Let_def)
  qed
qed (use assms in \<open>auto simp: drop_database_def is_valid_table_name_def Let_def split: if_splits\<close>)

lemma drop_table_view:
  assumes "drop_table root db t w = (ok, w')" "is_valid_name db" "is_valid_name t"
  shows "catalog_view root w' \<in> catalog_spec (Drop_table db t) (Inr ok) (catalog_view root w)"
proof (cases "database_exists root db w \<and> table_exists root db t w")
  case True
  then have r: "remove_directory (table_path root db t) w = (ok, w')"
    using assms by (simp add: drop_table_def)
  show ?thesis
  proof (rule disjE [OF remove_directory_tree [OF r]])
    assume "w_files w' = w_files w \<and> w_dirs w' = w_dirs w \<and> \<not> ok"
    moreover from this have "catalog_view root w' = catalog_view root w" by (intro view_eqI view_at_eq) auto
    ultimately show ?thesis by (simp add: Let_def)
  next
    assume tr: "w_files w' = (\<lambda>q. if under (table_path root db t) q then None else w_files w q) \<and>
      w_dirs w' = {d \<in> w_dirs w. \<not> under (table_path root db t) d}"
    have "catalog_view root w' (db', t') = ((catalog_view root w)((db, t) := None)) (db', t')" for db' t'
    proof (cases "db' = db \<and> t' = t")
      case same: True
      then show ?thesis using tr table_paths_apart(2) [OF assms(2,3) assms(2,3)] by (simp add: catalog_view_def table_exists_def)
    next
      case False
      then have "catalog_view root w' (db', t') = catalog_view root w (db', t')"
        using tr table_paths_apart(1-3) [OF assms(2,3), of db' t'] by (intro view_at_eq) auto
      then show ?thesis using False by auto
    qed
    then have "catalog_view root w' = (catalog_view root w)((db, t) := None)" by (rule view_eqI)
    then show ?thesis by (simp add: Let_def)
  qed
qed (use assms in \<open>auto simp: drop_table_def Let_def split: if_splits\<close>)

lemma stored_name: "schema_storable s \<Longrightarrow> is_valid_name (table_name s)"
  by (simp add: schema_storable_def schema_wf_def)

text \<open>The view after a schema file was written into an existing table directory with a data file.\<close>

lemma write_schema_view:
  assumes w: "write_schema_file (schema_file_path root db (table_name s)) s w = (r, w')"
    and ok: "is_valid_name db" "schema_storable s" "table_path root db (table_name s) \<in> w_dirs w"
      "w_files w (table_file_path root db (table_name s)) \<noteq> None"
  shows "catalog_view root w' = catalog_view root w \<and> r \<noteq> Inr True \<or>
    catalog_view root w' = (catalog_view root w)((db, table_name s) \<mapsto> Inr (Some s)) \<and> \<not> isl r"
proof -
  note n = stored_name [OF ok(2)] and t = write_schema_file_result [OF w]
  note apart = table_paths_apart [OF ok(1) n]
  have other: "catalog_view root w' (db', t') = catalog_view root w (db', t')" if "(db', t') \<noteq> (db, table_name s)" for db' t'
    using t apart(4,6-8) [of db' t' root] that apart(7) [of db' t' root] by (intro view_at_eq) auto
  have data: "w_files w' (table_file_path root db (table_name s)) = w_files w (table_file_path root db (table_name s))"
    using t apart(6,7) [OF ok(1) n, of root] by metis
  show ?thesis
  proof (rule disjE [OF conjunct2 [OF conjunct2 [OF t]]])
    assume same: "w_files w' (schema_file_path root db (table_name s)) = w_files w (schema_file_path root db (table_name s)) \<and>
      w_synced w' (schema_file_path root db (table_name s)) = w_synced w (schema_file_path root db (table_name s)) \<and> r \<noteq> Inr True"
    then have "catalog_view root w' (db, table_name s) = catalog_view root w (db, table_name s)"
      using t data by (intro view_at_eq) auto
    then have "catalog_view root w' = catalog_view root w" using other by (intro view_eqI) (metis)
    then show ?thesis using same by blast
  next
    assume new: "w_files w' (schema_file_path root db (table_name s)) = Some (map byte_of (serialize_schema s)) \<and>
      w_synced w' (schema_file_path root db (table_name s)) = length (serialize_schema s) \<and> \<not> isl r"
    then have "catalog_view root w' (db, table_name s) = Some (Inr (Some s))"
      using t data ok by (intro view_stored) auto
    then have "catalog_view root w' = (catalog_view root w)((db, table_name s) \<mapsto> Inr (Some s))"
      using other by (intro view_eqI) auto
    then show ?thesis using new by blast
  qed
qed

lemma replace_table_schema_view:
  assumes "replace_table_schema root db s w = (r, w')" "is_valid_name db" "schema_storable s"
  shows "catalog_view root w' \<in> catalog_spec (Replace_schema db s) r (catalog_view root w)"
proof (cases "database_exists root db w \<and> table_exists root db (table_name s) w \<and> schema_is_valid s")
  case True
  then have "write_schema_file (schema_file_path root db (table_name s)) s w = (r, w')" using assms(1) by (simp add: replace_table_schema_def)
  from write_schema_view [OF this assms(2,3)] True show ?thesis by (cases r) (auto simp: table_exists_def Let_def)
next
  case False
  then have "r = Inr False" "w' = w" using assms(1) by (auto simp: replace_table_schema_def split: if_splits)
  then show ?thesis by (simp add: Let_def)
qed

lemma cleanup_view:
  assumes "cleanup_table_dir (table_path root db t) w = (r, w')" "is_valid_name db" "is_valid_name t"
  shows "r = Inr False \<and> catalog_view root w' = (catalog_view root w)((db, t) := None) \<or> isl r \<and> catalog_view root w' = catalog_view root w"
proof -
  obtain ok w1 where 1: "remove_all (table_path root db t) w = (ok, w1)" by (cases "remove_all (table_path root db t) w")
  obtain o2 w2 where 2: "fsync_directory (parent_path (table_path root db t)) w1 = (o2, w2)" by (cases "fsync_directory (parent_path (table_path root db t)) w1")
  note t1 = remove_all_tree [OF 1]
  have t2: "w_files w2 = w_files w1" "w_dirs w2 = w_dirs w1" using fsync_directory_snd [of "parent_path (table_path root db t)" w1] unfolding 2 by simp_all
  note run = assms(1) [unfolded cleanup_table_dir_def 1 2 prod.case]
  show ?thesis
  proof (cases ok)
    case True
    have "catalog_view root w2 (db', t') = ((catalog_view root w)((db, t) := None)) (db', t')" for db' t'
    proof (cases "db' = db \<and> t' = t")
      case same: True
      then show ?thesis using t1 t2 True table_paths_apart(2) [OF assms(2,3) assms(2,3)] by (simp add: catalog_view_def table_exists_def)
    next
      case False
      then have "catalog_view root w2 (db', t') = catalog_view root w (db', t')"
        using t1 t2 True table_paths_apart(1-3) [OF assms(2,3), of db' t'] by (intro view_at_eq) auto
      then show ?thesis using False by auto
    qed
    then have "catalog_view root w2 = (catalog_view root w)((db, t) := None)" by (rule view_eqI)
    then show ?thesis using run True by auto
  next
    case False
    then have "catalog_view root w1 = catalog_view root w" using t1 by (intro view_eqI view_at_eq) auto
    then show ?thesis using run False by auto
  qed
qed

lemma create_table_view:
  assumes "create_table root db s w = (r, w')" "is_valid_name db" "schema_storable s" "files_in_dirs root w"
  shows "catalog_view root w' \<in> catalog_spec (Create_table db s) r (catalog_view root w)"
proof (cases "database_exists root db w \<and> schema_is_valid s \<and> is_valid_new_table_name root db (table_name s) w")
  case False
  then have "r = Inr False" "w' = w" using assms(1) by (auto simp: create_table_def Let_def split: if_splits)
  then show ?thesis by (simp add: Let_def)
next
  case True
  let ?d = "table_path root db (table_name s)" and ?f = "table_file_path root db (table_name s)" and ?c = "schema_file_path root db (table_name s)"
  let ?v = "catalog_view root w"
  note n = stored_name [OF assms(3)]
  note apart = table_paths_apart [OF assms(2) n]
  have d: "?d \<notin> w_dirs w" using True by (simp add: is_valid_new_table_name_def)
  then have none: "w_files w ?c = None" "w_files w ?f = None" using assms(2,4) n by (auto simp: files_in_dirs_def)
  have v0: "?v (db, table_name s) = None" using d by (simp add: catalog_view_def table_exists_def)
  obtain ok1 w1 where 1: "create_directory_durable ?d w = (ok1, w1)" by (cases "create_directory_durable ?d w")
  obtain r2 w2 where 2: "create_empty_file_durable ?f w1 = (r2, w2)" by (cases "create_empty_file_durable ?f w1")
  obtain r3 w3 where 3: "write_schema_file ?c s w2 = (r3, w3)" by (cases "write_schema_file ?c s w2")
  note t1 = create_directory_durable_tree [OF 1] and t2 = create_empty_file_durable_tree [OF 2]
  have pre: "table_path root db' t' \<in> path_prefixes ?d \<longleftrightarrow> (db', t') = (db, table_name s)" if "is_valid_name db'" "is_valid_name t'" for db' t'
    using prefix_under [of "table_path root db' t'" ?d] self_prefix [of ?d] table_paths_apart(1) [OF that assms(2) n, of root] by auto
  have nofile: "catalog_view root u (db, table_name s) = None" if "w_files u ?c = None" for u
    using that by (simp add: catalog_view_def table_exists_def)
  have v1: "catalog_view root w1 = ?v"
  proof (rule view_eqI)
    fix db' t'
    show "catalog_view root w1 (db', t') = ?v (db', t')"
    proof (cases "(db', t') = (db, table_name s)")
      case eq: True
      then show ?thesis using nofile [of w1] v0 t1 none by auto
    next
      case False
      then show ?thesis using t1 pre by (intro view_at_eq) auto
    qed
  qed
  have c2: "w_files w2 ?c = None" using t1 t2 none apart(6) [OF assms(2) n, of root] by auto
  have v2: "catalog_view root w2 = ?v"
  proof (rule view_eqI)
    fix db' t'
    show "catalog_view root w2 (db', t') = ?v (db', t')"
    proof (cases "(db', t') = (db, table_name s)")
      case eq: True
      then show ?thesis using nofile [OF c2] v0 by auto
    next
      case False
      have "catalog_view root w2 (db', t') = catalog_view root w1 (db', t')"
        using t2 False apart(5) [of db' t' root] table_paths_apart(6) [OF _ _ assms(2) n, of db' t' root] by (intro view_at_eq) auto
      then show ?thesis using v1 by simp
    qed
  qed
  note run = assms(1) [unfolded create_table_def Let_def 1 2 3 prod.case]
  have clean: "x \<noteq> Inr True \<and> (x = Inr False \<longrightarrow> catalog_view root u' = ?v) \<and> catalog_view root u' \<in> {?v, ?v((db, table_name s) \<mapsto> Inr (Some s))}"
    if "cleanup_table_dir ?d u = (x, u')" "catalog_view root u \<in> {?v, ?v((db, table_name s) \<mapsto> Inr (Some s))}" for u u' x
  proof -
    have "?v((db, table_name s) := None) = ?v" using v0 by auto
    then show ?thesis using cleanup_view [OF that(1) assms(2) n] that(2) v0 by auto
  qed
  consider "\<not> ok1" | e where "ok1" "r2 = Inl e" | "ok1" "r2 = Inr False" | "ok1" "r2 = Inr True" by (cases r2) auto
  then show ?thesis
  proof cases
    case 4
    have "?d \<in> w_dirs w2" "w_files w2 ?f \<noteq> None" using 4 t1 t2 self_prefix [of ?d] by auto
    from write_schema_view [OF 3 assms(2,3) this] have v3: "catalog_view root w3 = ?v \<and> r3 \<noteq> Inr True \<or>
      catalog_view root w3 = ?v((db, table_name s) \<mapsto> Inr (Some s)) \<and> \<not> isl r3" by (simp add: v2)
    then show ?thesis using run True 4 clean [of w3 r w'] by (cases r3) (auto simp: Let_def split: if_splits)
  qed (use run True v1 v2 clean [of w2 r w'] in \<open>auto simp: Let_def\<close>)
qed

text \<open>Files stay in existing directories.\<close>

lemma files_in_dirs_create_directory:
  assumes "create_directory_durable p w = (ok, w')" "files_in_dirs root w"
  shows "files_in_dirs root w'"
  using create_directory_durable_tree [OF assms(1)] assms(2) by (auto simp: files_in_dirs_def)

lemma files_in_dirs_remove:
  assumes "files_in_dirs root w" "w_files w' = (\<lambda>q. if under path q then None else w_files w q) \<and> w_dirs w' = {d \<in> w_dirs w. \<not> under path d}"
    "\<And>db t. is_valid_name db \<Longrightarrow> is_valid_name t \<Longrightarrow> under path (table_path root db t) \<Longrightarrow>
      under path (schema_file_path root db t) \<and> under path (table_file_path root db t)"
  shows "files_in_dirs root w'"
  using assms by (auto simp: files_in_dirs_def)

lemma files_in_dirs_file:
  assumes "files_in_dirs root w" "w_dirs w' = w_dirs w" "table_path root db t \<in> w_dirs w" "is_valid_name db" "is_valid_name t"
    "\<forall>q. q \<noteq> schema_file_path root db t \<and> q \<noteq> temp_path (schema_file_path root db t) \<and> q \<noteq> table_file_path root db t \<longrightarrow> w_files w' q = w_files w q"
  shows "files_in_dirs root w'"
  unfolding files_in_dirs_def
proof (intro allI impI, elim conjE)
  fix db' t' assume n: "is_valid_name db'" "is_valid_name t'" and d: "table_path root db' t' \<notin> w_dirs w'"
  then have ne: "\<not> (db' = db \<and> t' = t)" using assms(2,3) by auto
  note apart = table_paths_apart [OF assms(4,5) n, of root] and apart2 = table_paths_apart [OF n assms(4,5), of root]
  have "w_files w' (schema_file_path root db' t') = w_files w (schema_file_path root db' t')"
    "w_files w' (table_file_path root db' t') = w_files w (table_file_path root db' t')"
    using assms(6) apart apart2 ne by metis+
  then show "w_files w' (schema_file_path root db' t') = None \<and> w_files w' (table_file_path root db' t') = None"
    using assms(1,2) n d by (auto simp: files_in_dirs_def)
qed

lemma files_in_dirs_write_schema:
  assumes "write_schema_file (schema_file_path root db t) s w = (r, w')" "files_in_dirs root w"
    "table_path root db t \<in> w_dirs w" "is_valid_name db" "is_valid_name t"
  shows "files_in_dirs root w'"
  using write_schema_file_result [OF assms(1)] by (intro files_in_dirs_file [OF assms(2) _ assms(3-5)]) auto

lemma files_in_dirs_remove_table:
  assumes "files_in_dirs root w" "is_valid_name db" "is_valid_name t"
    "w_files w' = (\<lambda>q. if under (table_path root db t) q then None else w_files w q) \<and> w_dirs w' = {d \<in> w_dirs w. \<not> under (table_path root db t) d}"
  shows "files_in_dirs root w'"
  using table_paths_apart(1-3) [OF assms(2,3), where root = root] by (intro files_in_dirs_remove [OF assms(1,4)]) auto

lemma files_in_dirs_cleanup:
  assumes "cleanup_table_dir (table_path root db t) w = (r, w')" "files_in_dirs root w" "is_valid_name db" "is_valid_name t"
  shows "files_in_dirs root w'"
proof -
  obtain ok w1 where 1: "remove_all (table_path root db t) w = (ok, w1)" by (cases "remove_all (table_path root db t) w")
  obtain o2 w2 where 2: "fsync_directory (parent_path (table_path root db t)) w1 = (o2, w2)" by (cases "fsync_directory (parent_path (table_path root db t)) w1")
  note t1 = remove_all_tree [OF 1]
  have t2: "w_files w2 = w_files w1" "w_dirs w2 = w_dirs w1" using fsync_directory_snd [of "parent_path (table_path root db t)" w1] unfolding 2 by simp_all
  have "w' = (if ok then w2 else w1)" using assms(1) unfolding cleanup_table_dir_def 1 2 prod.case by (auto split: if_splits)
  then show ?thesis using files_in_dirs_remove_table [OF assms(2-4), of w'] t1 t2 assms(2) by (cases ok) (auto simp: files_in_dirs_def)
qed

lemma create_table_keeps_files:
  assumes "create_table root db s w = (r, w')" "is_valid_name db" "schema_storable s" "files_in_dirs root w"
  shows "files_in_dirs root w'"
proof (cases "database_exists root db w \<and> schema_is_valid s \<and> is_valid_new_table_name root db (table_name s) w")
  case True
  let ?d = "table_path root db (table_name s)" and ?f = "table_file_path root db (table_name s)" and ?c = "schema_file_path root db (table_name s)"
  note n = stored_name [OF assms(3)]
  obtain ok1 w1 where 1: "create_directory_durable ?d w = (ok1, w1)" by (cases "create_directory_durable ?d w")
  obtain r2 w2 where 2: "create_empty_file_durable ?f w1 = (r2, w2)" by (cases "create_empty_file_durable ?f w1")
  obtain r3 w3 where 3: "write_schema_file ?c s w2 = (r3, w3)" by (cases "write_schema_file ?c s w2")
  note f1 = files_in_dirs_create_directory [OF 1 assms(4)]
  have d1: "ok1 \<Longrightarrow> ?d \<in> w_dirs w1" using create_directory_durable_tree [OF 1] self_prefix [of ?d] by auto
  note t2 = create_empty_file_durable_tree [OF 2]
  have f2: "ok1 \<Longrightarrow> files_in_dirs root w2" using t2 by (intro files_in_dirs_file [OF f1 _ d1 assms(2) n]) auto
  have f3: "ok1 \<Longrightarrow> files_in_dirs root w3" using t2 d1 by (intro files_in_dirs_write_schema [OF 3 f2 _ assms(2) n]) auto
  note run = assms(1) [unfolded create_table_def Let_def 1 2 3 prod.case]
  show ?thesis using run True f1 f2 f3 files_in_dirs_cleanup [OF _ _ assms(2) n, of root _ r w'] by (auto split: if_splits sum.splits)
next
  case False
  then show ?thesis using assms(1,4) by (auto simp: create_table_def Let_def split: if_splits)
qed

lemma catalog_step_keeps_files:
  assumes "catalog_step root op w = (r, w')" "op_ok op" "files_in_dirs root w"
  shows "files_in_dirs root w'"
proof (cases op)
  case (Create_database db)
  then obtain ok where "create_database root db w = (ok, w')" using assms(1) by (cases "create_database root db w") auto
  then show ?thesis using assms(3) by (auto simp: create_database_def files_in_dirs_create_directory split: if_splits)
next
  case (Drop_database db)
  then obtain ok where d: "drop_database root db w = (ok, w')" using assms(1) by (cases "drop_database root db w") auto
  show ?thesis
  proof (cases "is_valid_name db \<and> database_exists root db w")
    case True
    then have r: "remove_directory (database_path root db) w = (ok, w')" using d by (simp add: drop_database_def is_valid_table_name_def)
    from remove_directory_tree [OF r] show ?thesis
      using files_in_dirs_remove [OF assms(3), of w' "database_path root db"] database_paths_apart [of db] True assms(3)
      by (auto simp: files_in_dirs_def)
  qed (use d assms(3) in \<open>auto simp: drop_database_def is_valid_table_name_def split: if_splits\<close>)
next
  case (Create_table db s)
  then show ?thesis using assms create_table_keeps_files by simp
next
  case (Drop_table db t)
  then obtain ok where d: "drop_table root db t w = (ok, w')" using assms(1) by (cases "drop_table root db t w") auto
  show ?thesis
  proof (cases "database_exists root db w \<and> table_exists root db t w")
    case True
    then have r: "remove_directory (table_path root db t) w = (ok, w')" using d by (simp add: drop_table_def)
    from remove_directory_tree [OF r] show ?thesis
      using files_in_dirs_remove_table [OF assms(3), of db t w'] Drop_table assms(2,3) by (auto simp: files_in_dirs_def)
  qed (use d assms(3) in \<open>auto simp: drop_table_def split: if_splits\<close>)
next
  case (Replace_schema db s)
  then show ?thesis using assms stored_name [of s] files_in_dirs_write_schema [of root db "table_name s" s w r w']
    by (auto simp: replace_table_schema_def table_exists_def split: if_splits)
qed

section \<open>Properties\<close>

text \<open>
  C15. The schema file of a table: reading the text of a schema returns the schema, for every well-formed schema whose constraints
  have parts that are not empty and contain no comma, bar or white space.
\<close>

theorem schema_text_roundtrip:
  "schema_storable s \<Longrightarrow> read_schema_text (serialize_schema s) = Inr (Some s)"
  by (rule read_schema_serialized)

theorem schema_text_roundtrip_witness:
  "schema_storable sample_schema \<and> read_schema_text (serialize_schema sample_schema) = Inr (Some sample_schema)"
proof -
  have wf: "schema_wf sample_schema" using sample_schema_new by (simp add: schema_new_iff)
  have cols: "list_all column_wf (columns sample_schema)" by code_simp
  have cons: "list_all constraint_storable (constraints sample_schema)" by code_simp
  have ok: "schema_storable sample_schema" using wf cols cons by (simp add: schema_storable_def)
  then show ?thesis using schema_text_roundtrip [OF ok] by simp
qed

text \<open>A check on a text with a space is cut at the space.\<close>

lemma check_with_space_cut:
  "read_line (''constraint '' @ constraint_serialized (make_check 1 [''name'', ''='', ''a b''])) p =
   Inr (Some (p\<lparr>sp_constraints := sp_constraints p @ [make_check 1 [''name'', ''='', ''a'']]\<rparr>))"
proof -
  have "stream_word (CHR '' '' # constraint_serialized (make_check 1 [''name'', ''='', ''a b''])) =
      Some (constraint_serialized (make_check 1 [''name'', ''='', ''a'']), '' b'')" by code_simp
  moreover have "constraint_text_ok (make_check 1 [''name'', ''='', ''a''])" by code_simp
  ultimately show ?thesis unfolding read_line_def keyword_line by (simp add: constraint_text_roundtrip)
qed


text \<open>Without failing calls a new table is created.\<close>

lemma quiet_calls:
  assumes "w_script w = []"
  shows "call_once w = (True, w)" "fsync_file p w = (True, w\<lparr>w_synced := (w_synced w)(p := length (contents w p))\<rparr>)"
    "fsync_directory p w = (p \<in> w_dirs w, w)" "rename_file p q w = (if w_files w p = None \<or> q \<in> w_dirs w then (False, w)
      else (True, w\<lparr>w_files := (w_files w)(p := None, q := w_files w p), w_synced := (w_synced w)(q := w_synced w p)\<rparr>))"
    "write_all p text w = (True, if text = [] then w else pwrite_file p 0 (map byte_of text) w)"
    "create_directories p w = (if \<exists>q\<in>path_prefixes p. w_files w q \<noteq> None then (False, w) else (True, w\<lparr>w_dirs := w_dirs w \<union> path_prefixes p\<rparr>))"
  using assms
  by (simp_all add: call_once_def next_outcome_def fsync_file_def fsync_directory_def rename_file_def write_all_def full_write_at_step
      create_directories_def)

definition one_database :: world where
  "one_database = \<lparr>w_files = Map.empty, w_dirs = {''data'', ''data/d''}, w_synced = (\<lambda>_. 0), w_script = []\<rparr>"

lemma one_database_paths:
  "table_path ''data'' ''d'' ''users'' = ''data/d/users''" "schema_file_path ''data'' ''d'' ''users'' = ''data/d/users/schema.catalog''"
  "table_file_path ''data'' ''d'' ''users'' = ''data/d/users/data.tbl''" "database_path ''data'' ''d'' = ''data/d''"
  "temp_path ''data/d/users/schema.catalog'' = ''data/d/users/schema.catalog.tmp''"
  "parent_path ''data/d/users/schema.catalog'' = ''data/d/users''" "parent_path ''data/d/users/schema.catalog.tmp'' = ''data/d/users''"
  "parent_path ''data/d/users/data.tbl'' = ''data/d/users''" "parent_path ''data/d/users'' = ''data/d''"
  "path_prefixes ''data/d/users'' = {''data'', ''data/d'', ''data/d/users''}"
  by code_simp+

lemma one_database_create: "fst (create_table ''data'' ''d'' sample_schema one_database) = Inr True"
proof -
  have n: "table_name sample_schema = ''users''" "schema_is_valid sample_schema" "is_valid_name ''users''" by code_simp+
  have t: "serialize_schema sample_schema \<noteq> []" by (simp add: serialize_schema_def)
  show ?thesis
    by (simp add: create_table_def Let_def n t one_database_paths one_database_def database_exists_def is_valid_new_table_name_def is_valid_table_name_def
        create_directory_durable_def sync_parent_def create_empty_file_durable_def write_schema_file_def parent_exists_def quiet_calls pwrite_file_def)
qed


end
