(* ===== verification/Page_Spec.thy ===== *)
theory Page_Spec
  imports Prelude
begin

text \<open>
  What a table file relies on when it uses a page: the contents of a page are a list with
  one optional record per slot, and each page operation is an operation on that list. The
  locale \<open>record_page\<close> states these laws for any representation of pages; its lemmas are
  what the clients of a page use. The page of \<^verbatim>\<open>page.cpp\<close> is an instance
  (theory \<open>Page\<close>).
\<close>

section \<open>Operations on slot lists\<close>

type_synonym slots = "bytes option list"

definition spec_slot :: "slots \<Rightarrow> nat" where
  "spec_slot rs = (case List.find (\<lambda>i. rs ! i = None) [0..<length rs] of Some i \<Rightarrow> i | None \<Rightarrow> length rs)"

definition spec_insert :: "slots \<Rightarrow> bytes \<Rightarrow> slots" where
  "spec_insert rs r = (if spec_slot rs < length rs then rs[spec_slot rs := Some r] else rs @ [Some r])"

definition spec_read :: "slots \<Rightarrow> nat \<Rightarrow> bytes option" where
  "spec_read rs i = (if i < length rs then rs ! i else None)"

definition record_bytes :: "slots \<Rightarrow> nat" where
  "record_bytes rs = sum_list (map (\<lambda>r. case r of None \<Rightarrow> 0 | Some b \<Rightarrow> length b) rs)"

lemma spec_slot_le: "spec_slot rs \<le> length rs"
  by (auto simp: spec_slot_def find_Some_iff split: option.splits)

lemma spec_slot_free: "spec_slot rs < length rs \<Longrightarrow> rs ! spec_slot rs = None"
proof (cases "List.find (\<lambda>i. rs ! i = None) [0..<length rs]")
  case (Some i)
  then have "rs ! i = None" by (auto simp: find_Some_iff)
  with Some show ?thesis by (simp add: spec_slot_def)
qed (simp add: spec_slot_def)

lemma spec_slot_full: "spec_slot rs = length rs \<longleftrightarrow> None \<notin> set rs"
proof
  assume "spec_slot rs = length rs"
  then have "List.find (\<lambda>i. rs ! i = None) [0..<length rs] = None"
    by (auto simp: spec_slot_def find_Some_iff split: option.splits)
  then show "None \<notin> set rs"
    by (auto simp: find_None_iff in_set_conv_nth)
next
  assume "None \<notin> set rs"
  then have "List.find (\<lambda>i. rs ! i = None) [0..<length rs] = None"
    by (auto simp: find_None_iff in_set_conv_nth)
  then show "spec_slot rs = length rs" by (simp add: spec_slot_def)
qed

lemma spec_read_insert:
  "spec_read (spec_insert rs r) i = (if i = spec_slot rs then Some r else spec_read rs i)"
  using spec_slot_le [of rs] by (auto simp: spec_read_def spec_insert_def nth_append less_Suc_eq)

lemma spec_read_update:
  "i < length rs \<Longrightarrow> spec_read (rs[i := v]) j = (if j = i then v else spec_read rs j)"
  by (simp add: spec_read_def)

lemma spec_read_slot: "spec_read rs (spec_slot rs) = None"
  using spec_slot_free [of rs] by (auto simp: spec_read_def)

section \<open>The page interface\<close>

locale record_page =
  fixes empty :: 'p
    and ins :: "'p \<Rightarrow> bytes \<Rightarrow> 'p \<times> u16 option"
    and upd :: "'p \<Rightarrow> u16 \<Rightarrow> bytes \<Rightarrow> 'p \<times> bool"
    and rem :: "'p \<Rightarrow> u16 \<Rightarrow> 'p \<times> bool"
    and rd :: "'p \<Rightarrow> u16 \<Rightarrow> bytes option"
    and lsn :: "'p \<Rightarrow> u64"
    and set_lsn :: "'p \<Rightarrow> u64 \<Rightarrow> 'p"
    and contents :: "'p \<Rightarrow> slots"
    and inv :: "'p \<Rightarrow> bool"
  assumes inv_empty: "inv empty"
    and contents_empty: "contents empty = []"
    and ins_law: "inv p \<Longrightarrow> ins p r = (p', res) \<Longrightarrow> inv p' \<and> lsn p' = lsn p \<and>
        (case res of None \<Rightarrow> contents p' = contents p
         | Some s \<Rightarrow> contents p' = spec_insert (contents p) r \<and> unat s = spec_slot (contents p) \<and> r \<noteq> [])"
    and upd_law: "inv p \<Longrightarrow> upd p s r = (p', ok) \<Longrightarrow> inv p' \<and> lsn p' = lsn p \<and>
        (if ok then spec_read (contents p) (unat s) \<noteq> None \<and> contents p' = (contents p)[unat s := Some r] \<and> r \<noteq> []
         else p' = p)"
    and rem_law: "inv p \<Longrightarrow> rem p s = (p', ok) \<Longrightarrow> inv p' \<and> lsn p' = lsn p \<and>
        ok = (spec_read (contents p) (unat s) \<noteq> None) \<and>
        (if ok then contents p' = (contents p)[unat s := None] else p' = p)"
    and rd_law: "inv p \<Longrightarrow> rd p s = spec_read (contents p) (unat s)"
    and set_lsn_law: "inv p \<Longrightarrow> inv (set_lsn p l) \<and> contents (set_lsn p l) = contents p \<and> lsn (set_lsn p l) = l"
begin

lemma read_after_insert:
  assumes "inv p" "ins p r = (p', Some s)"
  shows "rd p s = None" "rd p' s = Some r" "t \<noteq> s \<Longrightarrow> rd p' t = rd p t"
proof -
  have law: "inv p'" "contents p' = spec_insert (contents p) r" "unat s = spec_slot (contents p)"
    using ins_law [OF assms] by auto
  show "rd p s = None" "rd p' s = Some r"
    using law assms(1) by (simp_all add: rd_law spec_read_insert spec_read_slot)
  show "t \<noteq> s \<Longrightarrow> rd p' t = rd p t"
    using law assms(1) unat_eq_iff_u16 [of t s] by (simp add: rd_law spec_read_insert)
qed

lemma read_after_failed_insert:
  assumes "inv p" "ins p r = (p', None)"
  shows "rd p' t = rd p t"
  using ins_law [OF assms] assms(1) by (simp add: rd_law)

lemma read_after_update:
  assumes "inv p" "upd p s r = (p', ok)"
  shows "rd p' t = (if ok \<and> t = s then Some r else rd p t)"
  using upd_law [OF assms] assms(1)
  by (auto simp: rd_law spec_read_update unat_eq_iff_u16 spec_read_def split: if_splits)

lemma read_after_remove:
  assumes "inv p" "rem p s = (p', ok)"
  shows "rd p' t = (if t = s then None else rd p t)"
  using rem_law [OF assms] assms(1)
  by (auto simp: rd_law spec_read_update unat_eq_iff_u16 spec_read_def split: if_splits)

lemma read_set_lsn: "inv p \<Longrightarrow> rd (set_lsn p l) t = rd p t"
  using set_lsn_law [of p l] by (simp add: rd_law)

end

end
