(* ===== verification/Page.thy ===== *)
theory Page
  imports Page_Spec
begin

text \<open>
  The slotted page of \<^verbatim>\<open>src/src/storage/page.cpp\<close>. A page is its array
  \<^verbatim>\<open>data_\<close> of \<open>PAGE_SIZE\<close> bytes: a header (slot count, end of the free space, page LSN),
  a slot directory growing upwards and record bytes growing downwards from the end. The
  operations below are the methods of the class in the order of the file; fields of type
  \<^verbatim>\<open>uint16_t\<close> are 16-bit words and every cast of the source is written out. A method that
  modifies the page returns the new array, one that also has an output parameter returns
  \<open>None\<close> where the source returns \<^verbatim>\<open>false\<close>.

  \<open>page_wf\<close> is the layout invariant and \<open>page_records\<close> the abstract contents (one optional
  record per slot); the lemmas show that every operation keeps the invariant and acts on
  the contents as an operation on that list, that compaction frees every dead byte, and
  that an insert or an update fails only when the page really has no room.
\<close>

section \<open>Constants and representation (\<^verbatim>\<open>constants.hpp\<close>, \<^verbatim>\<open>page.hpp\<close>)\<close>

definition PAGE_SIZE :: nat where "PAGE_SIZE = 4096"
definition PAGE_HEADER_SIZE :: nat where "PAGE_HEADER_SIZE = 12"
definition SLOT_SIZE :: nat where "SLOT_SIZE = 4"
definition MAX_SLOTS :: nat where "MAX_SLOTS = (PAGE_SIZE - PAGE_HEADER_SIZE) div SLOT_SIZE"
definition SLOT_COUNT :: nat where "SLOT_COUNT = 2"
definition LENGTH_BYTES :: nat where "LENGTH_BYTES = 2"
definition PAGE_LSN :: nat where "PAGE_LSN = 4"
definition UINT64_BYTES :: nat where "UINT64_BYTES = 8"

lemmas page_consts = PAGE_SIZE_def PAGE_HEADER_SIZE_def SLOT_SIZE_def SLOT_COUNT_def
  LENGTH_BYTES_def PAGE_LSN_def UINT64_BYTES_def

lemma MAX_SLOTS_eq [simp]: "MAX_SLOTS = 1021"
  by (simp add: MAX_SLOTS_def page_consts)

record PageHeader =
  h_slot_count :: u16
  h_free_space_end :: u16
  h_page_lsn :: u64

record Slot =
  s_size :: u16
  s_offset :: u16

type_synonym page = bytes

section \<open>Byte-level accessors\<close>

definition read_uint16 :: "bytes \<Rightarrow> nat \<Rightarrow> u16" where
  "read_uint16 d p = ucast (d ! p) OR push_bit 8 (ucast (d ! (p + 1)))"

definition write_uint16 :: "bytes \<Rightarrow> nat \<Rightarrow> u16 \<Rightarrow> bytes" where
  "write_uint16 d p v = d[p := ucast (v AND 0xff), p + 1 := ucast (drop_bit 8 v AND 0xff)]"

definition read_uint64 :: "bytes \<Rightarrow> nat \<Rightarrow> u64" where
  "read_uint64 d p = fold (\<lambda>i value. value OR push_bit (i * 8) (ucast (d ! (p + i)))) [0..<UINT64_BYTES] 0"

definition write_uint64 :: "bytes \<Rightarrow> nat \<Rightarrow> u64 \<Rightarrow> bytes" where
  "write_uint64 d p v = fold (\<lambda>i d. d[p + i := ucast (drop_bit (i * 8) v AND 0xff)]) [0..<UINT64_BYTES] d"

definition slot_offset :: "u16 \<Rightarrow> u16" where
  "slot_offset slot_id = of_nat (PAGE_HEADER_SIZE + unat slot_id * SLOT_SIZE)"

definition header :: "page \<Rightarrow> PageHeader" where
  "header d = \<lparr> h_slot_count = read_uint16 d 0,
                h_free_space_end = read_uint16 d SLOT_COUNT,
                h_page_lsn = read_uint64 d PAGE_LSN \<rparr>"

definition write_header :: "page \<Rightarrow> PageHeader \<Rightarrow> page" where
  "write_header d h =
     (let d = write_uint16 d 0 (h_slot_count h);
          d = write_uint16 d SLOT_COUNT (h_free_space_end h)
      in write_uint64 d PAGE_LSN (h_page_lsn h))"

definition slot :: "page \<Rightarrow> u16 \<Rightarrow> Slot" where
  "slot d slot_id =
     (let pos = unat (slot_offset slot_id)
      in \<lparr> s_size = read_uint16 d pos, s_offset = read_uint16 d (pos + LENGTH_BYTES) \<rparr>)"

definition write_slot :: "page \<Rightarrow> u16 \<Rightarrow> Slot \<Rightarrow> page" where
  "write_slot d slot_id s =
     (let pos = unat (slot_offset slot_id);
          d = write_uint16 d pos (s_size s)
      in write_uint16 d (pos + LENGTH_BYTES) (s_offset s))"

definition free_space_start :: "page \<Rightarrow> u16" where
  "free_space_start d = of_nat (PAGE_HEADER_SIZE + unat (h_slot_count (header d)) * SLOT_SIZE)"

definition has_valid_layout :: "page \<Rightarrow> bool" where
  "has_valid_layout d =
     (let h = header d;
          start = PAGE_HEADER_SIZE + unat (h_slot_count h) * SLOT_SIZE
      in unat (h_slot_count h) \<le> MAX_SLOTS \<and>
         start \<le> unat (h_free_space_end h) \<and>
         unat (h_free_space_end h) \<le> PAGE_SIZE)"

section \<open>The methods of \<^verbatim>\<open>Page\<close>\<close>

definition page_reset :: page where
  "page_reset = write_header (replicate PAGE_SIZE 0)
     \<lparr> h_slot_count = 0, h_free_space_end = of_nat PAGE_SIZE, h_page_lsn = 0 \<rparr>"

definition page_slot_count :: "page \<Rightarrow> u16" where
  "page_slot_count d = h_slot_count (header d)"

definition page_lsn :: "page \<Rightarrow> u64" where
  "page_lsn d = h_page_lsn (header d)"

definition set_page_lsn :: "page \<Rightarrow> u64 \<Rightarrow> page" where
  "set_page_lsn d lsn = write_header d ((header d)\<lparr> h_page_lsn := lsn \<rparr>)"

definition contiguous_free_space :: "page \<Rightarrow> u16" where
  "contiguous_free_space d =
     (if \<not> has_valid_layout d then 0
      else let h = header d; start = free_space_start d
           in if h_free_space_end h < start then 0 else h_free_space_end h - start)"

text \<open>The first loop of \<^verbatim>\<open>compact\<close>: the live records and whether they are already packed.\<close>

fun compact_scan :: "page \<Rightarrow> nat list \<Rightarrow> u16 \<Rightarrow> bool \<Rightarrow> (u16 \<times> bytes) list
    \<Rightarrow> u16 \<times> bool \<times> (u16 \<times> bytes) list" where
  "compact_scan d [] expected_end already records = (expected_end, already, records)"
| "compact_scan d (i # is) expected_end already records =
     (let s = slot d (of_nat i)
      in if s_size s = 0 then compact_scan d is expected_end already records
         else let e = expected_end - s_size s
              in compact_scan d is e (already \<and> s_offset s = e)
                   (records @ [(of_nat i, get_bytes d (unat (s_offset s)) (unat (s_size s)))]))"

text \<open>The second loop of \<^verbatim>\<open>compact\<close>: the records are rewritten without gaps.\<close>

fun compact_rewrite :: "page \<Rightarrow> (u16 \<times> bytes) list \<Rightarrow> u16 \<Rightarrow> page \<times> u16" where
  "compact_rewrite d [] e = (d, e)"
| "compact_rewrite d ((i, r) # rs) e =
     (let e = e - of_nat (length r);
          d = put_bytes d (unat e) r;
          d = write_slot d i \<lparr> s_size = of_nat (length r), s_offset = e \<rparr>
      in compact_rewrite d rs e)"

definition compact :: "page \<Rightarrow> page" where
  "compact d =
     (if \<not> has_valid_layout d then d
      else let h = header d;
               (expected_end, already_compact, records) =
                 compact_scan d [0..<unat (h_slot_count h)] (of_nat PAGE_SIZE) True []
           in if already_compact \<and> h_free_space_end h = expected_end then d
              else let (d, e) = compact_rewrite d records (of_nat PAGE_SIZE)
                   in write_header d (h\<lparr> h_free_space_end := e \<rparr>))"

definition compact_and_get_free_space :: "page \<Rightarrow> page \<times> u16" where
  "compact_and_get_free_space d = (let d = compact d in (d, contiguous_free_space d))"

text \<open>
  The condition \<^verbatim>\<open>contiguous_free_space() < needed && compact_and_get_free_space() < needed\<close>
  of \<^verbatim>\<open>insert\<close> and \<^verbatim>\<open>update\<close>, with its effect: the page after it and whether there is room.
\<close>

definition make_room :: "page \<Rightarrow> nat \<Rightarrow> page \<times> bool" where
  "make_room d needed =
     (if unat (contiguous_free_space d) < needed
      then let (d, free) = compact_and_get_free_space d in (d, \<not> unat free < needed)
      else (d, True))"

text \<open>The search loop of \<^verbatim>\<open>insert\<close>: the first slot of size 0.\<close>

definition free_slot :: "page \<Rightarrow> nat option" where
  "free_slot d = List.find (\<lambda>i. s_size (slot d (of_nat i)) = 0) [0..<unat (h_slot_count (header d))]"

definition insert_at :: "page \<Rightarrow> u16 \<Rightarrow> bool \<Rightarrow> bytes \<Rightarrow> page" where
  "insert_at d target reuse_slot record =
     (let h = header d;
          new_offset = h_free_space_end h - of_nat (length record);
          d = put_bytes d (unat new_offset) record;
          d = write_slot d target \<lparr> s_size = of_nat (length record), s_offset = new_offset \<rparr>;
          h = h\<lparr> h_free_space_end := new_offset \<rparr>;
          h = (if reuse_slot then h else h\<lparr> h_slot_count := h_slot_count h + 1 \<rparr>)
      in write_header d h)"

definition page_insert :: "page \<Rightarrow> bytes \<Rightarrow> page \<times> u16 option" where
  "page_insert d record =
     (if record = [] \<or> \<not> has_valid_layout d then (d, None)
      else let h = header d;
               reuse_slot = (free_slot d \<noteq> None);
               target_slot = (case free_slot d of Some i \<Rightarrow> of_nat i | None \<Rightarrow> h_slot_count h);
               extra_slot_bytes = (if reuse_slot then 0 else SLOT_SIZE)
           in if \<not> reuse_slot \<and> unat (h_slot_count h) = MAX_SLOTS then (d, None)
              else let (d, ok) = make_room d (length record + extra_slot_bytes)
                   in if \<not> ok then (d, None)
                      else (insert_at d target_slot reuse_slot record, Some target_slot))"

definition page_remove :: "page \<Rightarrow> u16 \<Rightarrow> page \<times> bool" where
  "page_remove d slot_id =
     (if \<not> has_valid_layout d then (d, False)
      else if h_slot_count (header d) \<le> slot_id \<or> s_size (slot d slot_id) = 0 then (d, False)
      else (write_slot d slot_id \<lparr> s_size = 0, s_offset = 0 \<rparr>, True))"

definition page_update :: "page \<Rightarrow> u16 \<Rightarrow> bytes \<Rightarrow> page \<times> bool" where
  "page_update d slot_id record =
     (if record = [] \<or> \<not> has_valid_layout d \<or> h_slot_count (header d) \<le> slot_id then (d, False)
      else let old_slot = slot d slot_id
           in if s_size old_slot = 0 then (d, False)
              else if length record = unat (s_size old_slot)
                   then (put_bytes d (unat (s_offset old_slot)) record, True)
              else let trial = write_slot d slot_id \<lparr> s_size = 0, s_offset = 0 \<rparr>;
                       (trial, ok) = make_room trial (length record)
                   in if \<not> ok then (d, False)
                      else (insert_at trial slot_id True record, True))"

definition page_read :: "page \<Rightarrow> u16 \<Rightarrow> bytes option" where
  "page_read d slot_id =
     (if \<not> has_valid_layout d \<or> h_slot_count (header d) \<le> slot_id then None
      else let s = slot d slot_id
           in if s_size s = 0 \<or> unat (s_offset s) + unat (s_size s) > PAGE_SIZE then None
              else Some (get_bytes d (unat (s_offset s)) (unat (s_size s))))"

section \<open>Accessors as block reads and writes\<close>

lemma read_uint16_le: "read_uint16 d p = le_read 2 d p"
  by (simp add: read_uint16_def le_read_2)

lemma read_uint64_le: "read_uint64 d p = le_read 8 d p"
  by (simp add: read_uint64_def le_read_def UINT64_BYTES_def)

lemma write_uint16_put: "p + 2 \<le> length d \<Longrightarrow> write_uint16 d p v = put_bytes d p (le_bytes 2 v)"
  by (simp add: write_uint16_def le_bytes_2 list_update_2_put_bytes)

lemma write_uint64_put: "p + 8 \<le> length d \<Longrightarrow> write_uint64 d p v = put_bytes d p (le_bytes 8 v)"
  by (simp add: write_uint64_def fold_update_put le_bytes_def UINT64_BYTES_def)

lemma put_put_adjacent:
  assumes "p + length xs + length ys \<le> length d" "q = p + length xs"
  shows "put_bytes (put_bytes d p xs) q ys = put_bytes d p (xs @ ys)"
  using assms by (intro nth_equalityI) (auto simp: nth_put_bytes nth_append)

definition header_bytes :: "PageHeader \<Rightarrow> bytes" where
  "header_bytes h = le_bytes 2 (h_slot_count h) @ le_bytes 2 (h_free_space_end h) @ le_bytes 8 (h_page_lsn h)"

definition slot_bytes :: "Slot \<Rightarrow> bytes" where
  "slot_bytes s = le_bytes 2 (s_size s) @ le_bytes 2 (s_offset s)"

lemma length_header_bytes [simp]: "length (header_bytes h) = 12"
  by (simp add: header_bytes_def)

lemma length_slot_bytes [simp]: "length (slot_bytes s) = 4"
  by (simp add: slot_bytes_def)

lemma write_header_put: "12 \<le> length d \<Longrightarrow> write_header d h = put_bytes d 0 (header_bytes h)"
  by (simp add: write_header_def header_bytes_def write_uint16_put write_uint64_put page_consts
      put_put_adjacent)

lemma slot_offset_unat [simp]: "i < 1021 \<Longrightarrow> unat (slot_offset (of_nat i)) = 12 + 4 * i"
proof -
  assume i: "i < 1021"
  then have "slot_offset (of_nat i) = of_nat (12 + 4 * i)"
    by (simp add: slot_offset_def page_consts mult.commute del: of_nat_add of_nat_mult)
  with i show ?thesis by (simp del: of_nat_add of_nat_mult)
qed

lemma write_slot_put:
  "i < 1021 \<Longrightarrow> length d = 4096 \<Longrightarrow> write_slot d (of_nat i) s = put_bytes d (12 + 4 * i) (slot_bytes s)"
  by (simp add: write_slot_def slot_bytes_def write_uint16_put page_consts put_put_adjacent)

lemma slot_le:
  "i < 1021 \<Longrightarrow> slot d (of_nat i) =
     \<lparr> s_size = le_read 2 d (12 + 4 * i), s_offset = le_read 2 d (14 + 4 * i) \<rparr>"
  by (simp add: slot_def read_uint16_le page_consts)

lemma header_le:
  "header d = \<lparr> h_slot_count = le_read 2 d 0, h_free_space_end = le_read 2 d 2, h_page_lsn = le_read 8 d 4 \<rparr>"
  by (simp add: header_def read_uint16_le read_uint64_le page_consts)

subsection \<open>What a write leaves unchanged\<close>

lemma header_put [simp]:
  assumes "12 \<le> p" "p + length bs \<le> length d" "12 \<le> length d"
  shows "header (put_bytes d p bs) = header d"
  using assms by (simp add: header_le le_read_put_other)

lemma slot_put:
  assumes "i < 1021" "length d = 4096" "p + length bs \<le> 4096" "16 + 4 * i \<le> p \<or> p + length bs \<le> 12 + 4 * i"
  shows "slot (put_bytes d p bs) (of_nat i) = slot d (of_nat i)"
  using assms by (auto simp: slot_le le_read_put_other)

lemma le_read_put_within:
  assumes "p + length bs \<le> length d" "q = p + k" "k + n \<le> length bs"
  shows "le_read n (put_bytes d p bs) q = le_read n bs k"
  using assms by (intro le_read_cong) (auto simp: nth_put_bytes)

lemma le_read_append_right:
  "k = length xs + j \<Longrightarrow> le_read n (xs @ ys) k = le_read n ys j"
  by (intro le_read_cong) (simp add: nth_append)

lemma le_read_append_left:
  "k + n \<le> length xs \<Longrightarrow> le_read n (xs @ ys) k = le_read n xs k"
  by (intro le_read_cong) (simp add: nth_append)

lemma header_write_header [simp]: "12 \<le> length d \<Longrightarrow> header (write_header d h) = h"
  by (simp add: write_header_put header_le le_read_put_within [where k = 0]
      le_read_put_within [where k = 2] le_read_put_within [where k = 4]
      header_bytes_def le_read_append_left le_read_append_right [where j = 0]
      le_read_append_right [where j = 2] )

lemma slot_write_slot_same [simp]:
  "i < 1021 \<Longrightarrow> length d = 4096 \<Longrightarrow> slot (write_slot d (of_nat i) s) (of_nat i) = s"
  by (simp add: write_slot_put slot_le le_read_put_within [where k = 0] le_read_put_within [where k = 2]
      slot_bytes_def le_read_append_left le_read_append_right [where j = 0])

subsection \<open>The page as seen by slot index\<close>

definition nslots :: "page \<Rightarrow> nat" where "nslots d = unat (h_slot_count (header d))"
definition fse :: "page \<Rightarrow> nat" where "fse d = unat (h_free_space_end (header d))"
definition ssize :: "page \<Rightarrow> nat \<Rightarrow> nat" where "ssize d i = unat (s_size (slot d (of_nat i)))"
definition soff :: "page \<Rightarrow> nat \<Rightarrow> nat" where "soff d i = unat (s_offset (slot d (of_nat i)))"

definition dir_end :: "page \<Rightarrow> nat" where "dir_end d = 12 + 4 * nslots d"

abbreviation live :: "page \<Rightarrow> nat \<Rightarrow> bool" where "live d i \<equiv> 0 < ssize d i"

definition slot_record :: "page \<Rightarrow> nat \<Rightarrow> bytes option" where
  "slot_record d i = (if live d i then Some (get_bytes d (soff d i) (ssize d i)) else None)"

text \<open>The abstract contents of a page: one optional record per slot of the directory.\<close>

definition page_records :: "page \<Rightarrow> bytes option list" where
  "page_records d = map (slot_record d) [0..<nslots d]"

text \<open>
  The layout invariant: the array has its size, the header passes \<^verbatim>\<open>has_valid_layout\<close>,
  live records lie between the end of the free space and the end of the page, and no two
  of them overlap.
\<close>

definition slots_ok :: "page \<Rightarrow> nat \<Rightarrow> bool" where
  "slots_ok d e \<longleftrightarrow>
     (\<forall>i < nslots d. live d i \<longrightarrow> e \<le> soff d i \<and> soff d i + ssize d i \<le> PAGE_SIZE) \<and>
     (\<forall>i < nslots d. \<forall>j < nslots d. i \<noteq> j \<longrightarrow> live d i \<longrightarrow> live d j \<longrightarrow>
        soff d i + ssize d i \<le> soff d j \<or> soff d j + ssize d j \<le> soff d i)"

definition page_wf :: "page \<Rightarrow> bool" where
  "page_wf d \<longleftrightarrow> length d = PAGE_SIZE \<and> has_valid_layout d \<and> slots_ok d (fse d)"

definition live_bytes :: "page \<Rightarrow> nat" where
  "live_bytes d = (\<Sum>i < nslots d. ssize d i)"

lemma has_valid_layout_iff:
  "has_valid_layout d \<longleftrightarrow> nslots d \<le> 1021 \<and> dir_end d \<le> fse d \<and> fse d \<le> 4096"
  by (auto simp: has_valid_layout_def nslots_def fse_def dir_end_def Let_def page_consts)

lemma page_wf_iff:
  "page_wf d \<longleftrightarrow> length d = 4096 \<and> nslots d \<le> 1021 \<and> dir_end d \<le> fse d \<and> fse d \<le> 4096 \<and> slots_ok d (fse d)"
  by (auto simp: page_wf_def has_valid_layout_iff PAGE_SIZE_def)

lemma page_wfD:
  assumes "page_wf d"
  shows "length d = 4096" "nslots d \<le> 1021" "dir_end d \<le> fse d" "fse d \<le> 4096"
    "has_valid_layout d" "slots_ok d (fse d)"
  using assms by (auto simp: page_wf_iff has_valid_layout_iff)

lemma slots_okD1:
  assumes "slots_ok d e" "i < nslots d" "live d i"
  shows "e \<le> soff d i" "soff d i + ssize d i \<le> 4096"
  using assms by (auto simp: slots_ok_def PAGE_SIZE_def)

lemma slots_okD2:
  assumes "slots_ok d e" "i < nslots d" "j < nslots d" "i \<noteq> j" "live d i" "live d j"
  shows "soff d i + ssize d i \<le> soff d j \<or> soff d j + ssize d j \<le> soff d i"
  using assms by (auto simp: slots_ok_def)

lemma free_space_start_unat [simp]: "nslots d \<le> 1021 \<Longrightarrow> unat (free_space_start d) = dir_end d"
proof -
  assume n: "nslots d \<le> 1021"
  have "free_space_start d = of_nat (12 + 4 * nslots d)"
    by (simp add: free_space_start_def page_consts nslots_def mult.commute del: of_nat_add of_nat_mult)
  with n show ?thesis by (simp add: dir_end_def del: of_nat_add of_nat_mult)
qed

lemma contiguous_free_space_unat:
  assumes "has_valid_layout d"
  shows "unat (contiguous_free_space d) = fse d - dir_end d"
proof -
  have n: "nslots d \<le> 1021" and le: "dir_end d \<le> fse d"
    using assms by (auto simp: has_valid_layout_iff)
  have "free_space_start d \<le> h_free_space_end (header d)"
    using n le by (simp add: word_le_nat_alt fse_def)
  then show ?thesis
    using assms n by (simp add: contiguous_free_space_def Let_def unat_sub fse_def not_less)
qed

lemma page_lengths:
  "length (page_records d) = nslots d"
  by (simp add: page_records_def)

lemma nth_page_records [simp]: "i < nslots d \<Longrightarrow> page_records d ! i = slot_record d i"
  by (simp add: page_records_def)

lemma page_records_eqI:
  assumes "nslots d = nslots d'" "\<And>i. i < nslots d \<Longrightarrow> slot_record d i = slot_record d' i"
  shows "page_records d = page_records d'"
  using assms by (simp add: page_records_def)

subsection \<open>Effect of the three writes\<close>

lemma write_slot_effect:
  assumes "i < 1021" "length d = 4096"
  shows "length (write_slot d (of_nat i) s) = 4096"
    and "header (write_slot d (of_nat i) s) = header d"
    and "j < 1021 \<Longrightarrow> slot (write_slot d (of_nat i) s) (of_nat j) = (if j = i then s else slot d (of_nat j))"
    and "16 + 4 * i \<le> q \<Longrightarrow> q + n \<le> 4096 \<Longrightarrow> get_bytes (write_slot d (of_nat i) s) q n = get_bytes d q n"
proof -
  show "j < 1021 \<Longrightarrow> slot (write_slot d (of_nat i) s) (of_nat j) = (if j = i then s else slot d (of_nat j))"
    using assms by (cases "j = i") (simp, simp add: write_slot_put, intro slot_put, auto)
qed (use assms in \<open>auto simp: write_slot_put get_put_other\<close>)

lemma write_header_effect:
  assumes "length d = 4096"
  shows "length (write_header d h) = 4096"
    and "header (write_header d h) = h"
    and "j < 1021 \<Longrightarrow> slot (write_header d h) (of_nat j) = slot d (of_nat j)"
    and "12 \<le> q \<Longrightarrow> q + n \<le> 4096 \<Longrightarrow> get_bytes (write_header d h) q n = get_bytes d q n"
proof -
  show "header (write_header d h) = h" using assms by simp
qed (use assms in \<open>simp_all add: write_header_put slot_put get_put_other\<close>)

lemma put_record_effect:
  assumes "length d = 4096" "16 + 4 * j \<le> p" "p + length r \<le> 4096"
  shows "length (put_bytes d p r) = 4096"
    and "header (put_bytes d p r) = header d"
    and "i \<le> j \<Longrightarrow> i < 1021 \<Longrightarrow> slot (put_bytes d p r) (of_nat i) = slot d (of_nat i)"
  using assms by (auto simp: slot_put)

lemmas write_effects = write_slot_effect write_header_effect put_record_effect
lemmas page_views = nslots_def fse_def ssize_def soff_def dir_end_def

section \<open>Compaction\<close>

lemma live_bytes_le:
  assumes "page_wf d"
  shows "live_bytes d \<le> 4096 - fse d"
proof -
  let ?I = "\<lambda>i. {soff d i..<soff d i + ssize d i}"
  have ok: "slots_ok d (fse d)" using assms by (rule page_wfD)
  have disj: "?I i \<inter> ?I j = {}" if "i < nslots d" "j < nslots d" "i \<noteq> j" for i j
    using slots_okD2 [OF ok that] by (cases "live d i"; cases "live d j") auto
  have "live_bytes d = (\<Sum>i<nslots d. card (?I i))"
    by (simp add: live_bytes_def)
  also have "\<dots> = card (\<Union>i<nslots d. ?I i)"
    using disj by (subst card_UN_disjoint) auto
  also have "\<dots> \<le> card {fse d..<4096}"
  proof (rule card_mono)
    have "x \<in> {fse d..<4096}" if "i < nslots d" "x \<in> ?I i" for i x
      using slots_okD1 [OF ok that(1)] that(2) by (cases "live d i") auto
    then show "(\<Union>i<nslots d. ?I i) \<subseteq> {fse d..<4096}" by auto
  qed simp
  finally show ?thesis by simp
qed

definition live_list :: "page \<Rightarrow> nat list \<Rightarrow> (nat \<times> bytes) list" where
  "live_list d is = map (\<lambda>i. (i, get_bytes d (soff d i) (ssize d i))) (filter (live d) is)"

lemma live_list_simps [simp]:
  "live_list d [] = []"
  "live_list d (i # is) = (if live d i then (i, get_bytes d (soff d i) (ssize d i)) # live_list d is else live_list d is)"
  by (simp_all add: live_list_def)

lemma compact_scan_result:
  assumes "sum_list (map (ssize d) is) \<le> unat e"
  shows "\<exists>al. compact_scan d is e a rs =
     (of_nat (unat e - sum_list (map (ssize d) is)), al,
      rs @ map (\<lambda>(i, r). (of_nat i, r)) (live_list d is))"
  using assms
proof (induction "is" arbitrary: e a rs)
  case Nil
  then show ?case by simp
next
  case (Cons i "is")
  show ?case
  proof (cases "live d i")
    case False
    then have "s_size (slot d (of_nat i)) = 0" by (simp add: ssize_def u16_zero_iff)
    with False show ?thesis using Cons by simp
  next
    case True
    then have nz: "s_size (slot d (of_nat i)) \<noteq> 0" by (auto simp: ssize_def)
    let ?e = "e - s_size (slot d (of_nat i))"
    have "s_size (slot d (of_nat i)) \<le> e"
      using Cons.prems by (simp add: word_le_nat_alt ssize_def)
    then have e: "unat ?e = unat e - ssize d i"
      by (simp add: unat_sub ssize_def)
    have "sum_list (map (ssize d) is) \<le> unat ?e"
      using Cons.prems e by simp
    from Cons.IH [OF this, of "a \<and> s_offset (slot d (of_nat i)) = ?e"
        "rs @ [(of_nat i, get_bytes d (soff d i) (ssize d i))]"]
    show ?thesis
      using True nz e by (simp add: Let_def soff_def ssize_def)
  qed
qed

definition packed :: "page \<Rightarrow> (nat \<times> bytes) list \<Rightarrow> nat \<Rightarrow> nat \<Rightarrow> bool" where
  "packed d rs lo hi \<longleftrightarrow>
     (\<forall>(i, r) \<in> set rs. ssize d i = length r \<and> get_bytes d (soff d i) (length r) = r \<and>
        lo \<le> soff d i \<and> soff d i + length r \<le> hi) \<and>
     (\<forall>(i, r) \<in> set rs. \<forall>(j, t) \<in> set rs. i \<noteq> j \<longrightarrow>
        soff d i + length r \<le> soff d j \<or> soff d j + length t \<le> soff d i)"

abbreviation total_size :: "(nat \<times> bytes) list \<Rightarrow> nat" where
  "total_size rs \<equiv> sum_list (map (length \<circ> snd) rs)"

abbreviation word_slots :: "(nat \<times> bytes) list \<Rightarrow> (u16 \<times> bytes) list" where
  "word_slots rs \<equiv> map (\<lambda>(i, r). (of_nat i, r)) rs"

lemma packedD1:
  assumes "packed d rs lo hi" "(i, r) \<in> set rs"
  shows "ssize d i = length r" "get_bytes d (soff d i) (length r) = r"
    "lo \<le> soff d i" "soff d i + length r \<le> hi"
  using assms by (auto simp: packed_def)

lemma packedD2:
  assumes "packed d rs lo hi" "(i, r) \<in> set rs" "(j, t) \<in> set rs" "i \<noteq> j"
  shows "soff d i + length r \<le> soff d j \<or> soff d j + length t \<le> soff d i"
  using assms unfolding packed_def by blast

lemma packed_Cons:
  assumes "packed d rs lo m" "m \<le> soff d i" "soff d i + length r \<le> hi" "lo \<le> m" "m \<le> hi"
    "ssize d i = length r" "get_bytes d (soff d i) (length r) = r" "i \<notin> fst ` set rs"
  shows "packed d ((i, r) # rs) lo hi"
proof -
  have "j \<noteq> i" if "(j, t) \<in> set rs" for j t
    using that assms(8) by force
  then show ?thesis
    using assms(1-7) unfolding packed_def by fastforce
qed

lemma compact_rewrite_result:
  assumes "length d = 4096" "n \<le> 1021" "distinct (map fst rs)" "\<forall>(i, r) \<in> set rs. i < n"
    "12 + 4 * n + total_size rs \<le> unat e" "unat e \<le> 4096"
  shows "case compact_rewrite d (word_slots rs) e of (d', e') \<Rightarrow>
     length d' = 4096 \<and> header d' = header d \<and> unat e' = unat e - total_size rs \<and>
     (\<forall>j < n. j \<notin> fst ` set rs \<longrightarrow> slot d' (of_nat j) = slot d (of_nat j)) \<and>
     (\<forall>q k. unat e \<le> q \<longrightarrow> q + k \<le> 4096 \<longrightarrow> get_bytes d' q k = get_bytes d q k) \<and>
     packed d' rs (unat e') (unat e)"
  using assms
proof (induction rs arbitrary: d e)
  case Nil
  then show ?case by (simp add: packed_def)
next
  case (Cons ir rs)
  obtain i r where ir: "ir = (i, r)" by (cases ir)
  have i: "i < n" "i < 1021" "i \<notin> fst ` set rs" and len: "length r \<le> unat e"
    using Cons.prems ir by auto
  define e1 :: u16 where "e1 = e - of_nat (length r)"
  define d1 where "d1 = put_bytes d (unat e1) r"
  define s1 where "s1 = \<lparr> s_size = of_nat (length r), s_offset = e1 \<rparr>"
  define d2 where "d2 = write_slot d1 (of_nat i) s1"
  have e1: "unat e1 = unat e - length r"
    using len by (simp add: e1_def)
  have lo: "16 + 4 * i \<le> unat e1" "unat e1 + length r \<le> 4096" "unat e1 + length r = unat e"
    using Cons.prems ir i e1 by auto
  have d1: "length d1 = 4096" "header d1 = header d" "get_bytes d1 (unat e1) (length r) = r"
    using put_record_effect [OF Cons.prems(1) lo(1,2)] Cons.prems(1) lo(2) by (simp_all add: d1_def)
  have d1_slot: "slot d1 (of_nat j) = slot d (of_nat j)" if "j < n" "j < 1021" for j
    unfolding d1_def using that Cons.prems e1 ir by (intro slot_put) auto
  note w = write_slot_effect [OF i(2) d1(1), where s = s1, folded d2_def]
  obtain d' e' where eq: "compact_rewrite d2 (word_slots rs) e1 = (d', e')"
    by (cases "compact_rewrite d2 (word_slots rs) e1")
  have "case compact_rewrite d2 (word_slots rs) e1 of (d', e') \<Rightarrow>
     length d' = 4096 \<and> header d' = header d2 \<and> unat e' = unat e1 - total_size rs \<and>
     (\<forall>j < n. j \<notin> fst ` set rs \<longrightarrow> slot d' (of_nat j) = slot d2 (of_nat j)) \<and>
     (\<forall>q k. unat e1 \<le> q \<longrightarrow> q + k \<le> 4096 \<longrightarrow> get_bytes d' q k = get_bytes d2 q k) \<and>
     packed d' rs (unat e') (unat e1)"
    using Cons.prems ir e1 w(1) by (intro Cons.IH) auto
  then have ih: "length d' = 4096" "header d' = header d" "unat e' = unat e1 - total_size rs"
     "\<forall>j < n. j \<notin> fst ` set rs \<longrightarrow> slot d' (of_nat j) = slot d2 (of_nat j)"
     "\<forall>q k. unat e1 \<le> q \<longrightarrow> q + k \<le> 4096 \<longrightarrow> get_bytes d' q k = get_bytes d2 q k"
     "packed d' rs (unat e') (unat e1)"
    using eq w(2) d1(2) by auto
  have "slot d' (of_nat i) = s1"
    using ih(4) i w(3) [OF i(2)] by simp
  then have si: "soff d' i = unat e1" "ssize d' i = length r"
    using lo Cons.prems(6) by (auto simp: soff_def ssize_def s1_def)
  have "get_bytes d' (unat e1) (length r) = r"
    using ih(5) w(4) [OF lo(1,2)] d1(3) lo(2) by simp
  then have pk: "packed d' ((i, r) # rs) (unat e') (unat e)"
    using ih(3,6) si i lo by (intro packed_Cons [where m = "unat e1"]) auto
  have sl: "slot d' (of_nat j) = slot d (of_nat j)" if "j < n" "j \<notin> fst ` set (ir # rs)" for j
    using that ih(4) w(3) [of j] d1_slot [of j] Cons.prems(2) ir by auto
  have gb: "get_bytes d' q k = get_bytes d q k" if "unat e \<le> q" "q + k \<le> 4096" for q k
    using that ih(5) w(4) [of q k] lo Cons.prems(1) by (simp add: d1_def get_put_other)
  have "compact_rewrite d (word_slots (ir # rs)) e = (d', e')"
    using ir eq unfolding d2_def d1_def s1_def e1_def by (simp add: Let_def del: unat_u16_diff)
  then show ?case
    using ir ih(1,2,3) e1 sl gb pk by (simp add: comp_def)
qed

lemma total_size_live_list: "total_size (live_list d is) = sum_list (map (ssize d) is)"
  if "\<forall>i \<in> set is. live d i \<longrightarrow> soff d i + ssize d i \<le> length d"
  using that by (induction "is") auto

lemma distinct_live_list: "distinct is \<Longrightarrow> distinct (map fst (live_list d is))"
  by (simp add: live_list_def comp_def)

lemma live_bytes_sum_list: "live_bytes d = sum_list (map (ssize d) [0..<nslots d])"
  by (simp add: live_bytes_def interv_sum_list_conv_sum_set_nat atLeast0LessThan)

lemma in_live_list:
  "(i, r) \<in> set (live_list d is) \<longleftrightarrow> i \<in> set is \<and> live d i \<and> r = get_bytes d (soff d i) (ssize d i)"
  by (auto simp: live_list_def)

lemma fst_live_list: "fst ` set (live_list d is) = {i \<in> set is. live d i}"
  by (force simp: live_list_def)

lemma live_records_in_page:
  assumes "page_wf d" "i < nslots d" "live d i"
  shows "soff d i + ssize d i \<le> 4096" "fse d \<le> soff d i"
  using slots_okD1 [OF page_wfD(6)] assms by auto

lemma packed_views:
  assumes wf: "page_wf d" and hd: "header d' = (header d)\<lparr>h_free_space_end := e\<rparr>"
    and len: "length d' = 4096"
    and other: "\<forall>j < nslots d. \<not> live d j \<longrightarrow> ssize d' j = 0"
    and pk: "packed d' (live_list d [0..<nslots d]) (unat e) 4096"
    and room: "dir_end d \<le> unat e" "unat e \<le> 4096"
  shows "page_wf d'" "page_records d' = page_records d" "page_lsn d' = page_lsn d"
proof -
  have n: "nslots d' = nslots d" "fse d' = unat e" "dir_end d' = dir_end d"
    by (simp_all add: page_views hd)
  have mem: "(i, get_bytes d (soff d i) (ssize d i)) \<in> set (live_list d [0..<nslots d])"
      "length (get_bytes d (soff d i) (ssize d i)) = ssize d i" if "i < nslots d" "live d i" for i
    using that live_records_in_page(1) [OF wf that] page_wfD(1) [OF wf] by (simp_all add: in_live_list)
  have each: "ssize d' i = ssize d i" "get_bytes d' (soff d' i) (ssize d i) = get_bytes d (soff d i) (ssize d i)"
      "unat e \<le> soff d' i" "soff d' i + ssize d i \<le> 4096" if "i < nslots d" "live d i" for i
    using packedD1 [OF pk mem(1) [OF that]] mem(2) [OF that] by simp_all
  have size: "ssize d' i = ssize d i" if "i < nslots d" for i
    using that other each(1) by (cases "live d i") auto
  have disj: "soff d' i + ssize d i \<le> soff d' j \<or> soff d' j + ssize d j \<le> soff d' i"
    if "i < nslots d" "j < nslots d" "i \<noteq> j" "live d i" "live d j" for i j
    using packedD2 [OF pk mem(1) [OF that(1,4)] mem(1) [OF that(2,5)] that(3)]
      mem(2) [OF that(1,4)] mem(2) [OF that(2,5)] by simp
  show "page_wf d'"
    using len n room page_wfD(2) [OF wf] each(3,4) disj size
    by (auto simp: page_wf_iff slots_ok_def PAGE_SIZE_def)
  show "page_records d' = page_records d"
    using each(2) size n(1) by (intro page_records_eqI) (auto simp: slot_record_def)
  show "page_lsn d' = page_lsn d"
    by (simp add: page_lsn_def hd)
qed

lemma compact_scan_page:
  assumes "page_wf d"
  shows "\<exists>al. compact_scan d [0..<nslots d] (of_nat PAGE_SIZE) True [] =
     (of_nat (4096 - live_bytes d), al, word_slots (live_list d [0..<nslots d]))"
proof -
  have u: "unat (of_nat PAGE_SIZE :: u16) = 4096" by (simp add: PAGE_SIZE_def)
  have "sum_list (map (ssize d) [0..<nslots d]) \<le> unat (of_nat PAGE_SIZE :: u16)"
    using live_bytes_le [OF assms] u by (simp add: live_bytes_sum_list)
  from compact_scan_result [OF this, of True "[]"] show ?thesis
    unfolding u live_bytes_sum_list by simp
qed

lemma packed_cong:
  assumes "packed d rs lo hi"
    and "\<And>i r. (i, r) \<in> set rs \<Longrightarrow> ssize d' i = ssize d i \<and> soff d' i = soff d i"
    and "\<And>i r. (i, r) \<in> set rs \<Longrightarrow> get_bytes d' (soff d i) (length r) = get_bytes d (soff d i) (length r)"
  shows "packed d' rs lo hi"
  unfolding packed_def
proof (intro conjI ballI; clarify)
  fix i r assume m: "(i, r) \<in> set rs"
  then show "ssize d' i = length r \<and> get_bytes d' (soff d' i) (length r) = r \<and>
      lo \<le> soff d' i \<and> soff d' i + length r \<le> hi"
    using packedD1 [OF assms(1) m] assms(2,3) [OF m] by simp
next
  fix i r j t assume m: "(i, r) \<in> set rs" "(j, t) \<in> set rs" "i \<noteq> j" "\<not> soff d' j + length t \<le> soff d' i"
  then show "soff d' i + length r \<le> soff d' j"
    using packedD2 [OF assms(1) m(1,2,3)] assms(2) [OF m(1)] assms(2) [OF m(2)] by auto
qed

lemma compact_rewrite_page:
  assumes wf: "page_wf d"
    and rw: "compact_rewrite d (word_slots (live_list d [0..<nslots d])) (of_nat PAGE_SIZE) = (d', e)"
  shows "length d' = 4096" "header d' = header d" "unat e = 4096 - live_bytes d"
    "j < nslots d \<Longrightarrow> \<not> live d j \<Longrightarrow> slot d' (of_nat j) = slot d (of_nat j)"
    "packed d' (live_list d [0..<nslots d]) (unat e) 4096"
proof -
  let ?rs = "live_list d [0..<nslots d]" and ?P = "of_nat PAGE_SIZE :: u16"
  have nwf: "length d = 4096" "nslots d \<le> 1021" "dir_end d \<le> fse d" "fse d \<le> 4096"
    using wf by (simp_all add: page_wfD)
  have u: "unat ?P = 4096" by (simp add: PAGE_SIZE_def)
  have ts: "total_size ?rs = live_bytes d"
    using live_records_in_page(1) [OF wf] nwf(1)
    by (subst total_size_live_list) (auto simp: live_bytes_sum_list)
  have "case compact_rewrite d (word_slots ?rs) ?P of (d', e') \<Rightarrow>
     length d' = 4096 \<and> header d' = header d \<and> unat e' = unat ?P - total_size ?rs \<and>
     (\<forall>j < nslots d. j \<notin> fst ` set ?rs \<longrightarrow> slot d' (of_nat j) = slot d (of_nat j)) \<and>
     (\<forall>q k. unat ?P \<le> q \<longrightarrow> q + k \<le> 4096 \<longrightarrow> get_bytes d' q k = get_bytes d q k) \<and>
     packed d' ?rs (unat e') (unat ?P)"
    using nwf live_bytes_le [OF wf] u ts
    by (intro compact_rewrite_result) (auto simp: distinct_live_list in_live_list dir_end_def)
  then have "length d' = 4096 \<and> header d' = header d \<and> unat e = 4096 - live_bytes d \<and>
     (\<forall>j < nslots d. \<not> live d j \<longrightarrow> slot d' (of_nat j) = slot d (of_nat j)) \<and> packed d' ?rs (unat e) 4096"
    unfolding rw u ts by (auto simp: fst_live_list)
  then show "length d' = 4096" "header d' = header d" "unat e = 4096 - live_bytes d"
    "j < nslots d \<Longrightarrow> \<not> live d j \<Longrightarrow> slot d' (of_nat j) = slot d (of_nat j)"
    "packed d' (live_list d [0..<nslots d]) (unat e) 4096" by auto
qed

lemma compact_rewritten:
  assumes wf: "page_wf d"
    and rw: "compact_rewrite d (word_slots (live_list d [0..<nslots d])) (of_nat PAGE_SIZE) = (d', e)"
  defines "d2 \<equiv> write_header d' ((header d)\<lparr> h_free_space_end := e \<rparr>)"
  shows "page_wf d2" "page_records d2 = page_records d" "page_lsn d2 = page_lsn d"
    "header d2 = (header d)\<lparr> h_free_space_end := e \<rparr>"
proof -
  note d' = compact_rewrite_page [OF wf rw]
  have nwf: "nslots d \<le> 1021" "dir_end d \<le> fse d" "fse d \<le> 4096"
    using wf by (simp_all add: page_wfD)
  have lb: "live_bytes d \<le> 4096 - fse d" using wf by (rule live_bytes_le)
  note w = write_header_effect [OF d'(1), where h = "(header d)\<lparr> h_free_space_end := e \<rparr>", folded d2_def]
  have sl: "ssize d2 j = ssize d' j" "soff d2 j = soff d' j" if "j < nslots d" for j
    using w(3) [of j] that nwf(1) by (simp_all add: ssize_def soff_def)
  have pk: "packed d2 (live_list d [0..<nslots d]) (unat e) 4096"
  proof (rule packed_cong [OF d'(5)])
    fix i r assume m: "(i, r) \<in> set (live_list d [0..<nslots d])"
    then show "ssize d2 i = ssize d' i \<and> soff d2 i = soff d' i"
      using sl by (simp add: in_live_list)
    show "get_bytes d2 (soff d' i) (length r) = get_bytes d' (soff d' i) (length r)"
      using packedD1(3,4) [OF d'(5) m] d'(3) lb nwf by (intro w(4)) (auto simp: dir_end_def)
  qed
  have dead: "\<forall>j < nslots d. \<not> live d j \<longrightarrow> ssize d2 j = 0"
    using sl(1) d'(4) by (simp add: ssize_def)
  show "header d2 = (header d)\<lparr> h_free_space_end := e \<rparr>" by (rule w(2))
  show "page_wf d2" "page_records d2 = page_records d" "page_lsn d2 = page_lsn d"
    using packed_views [OF wf w(2) w(1) dead pk] d'(3) lb nwf by auto
qed

lemma compact_correct:
  assumes wf: "page_wf d"
  shows "page_wf (compact d)" "page_records (compact d) = page_records d"
    "page_lsn (compact d) = page_lsn d" "nslots (compact d) = nslots d"
    "fse (compact d) = 4096 - live_bytes d"
proof -
  obtain al where scan: "compact_scan d [0..<nslots d] (of_nat PAGE_SIZE) True [] =
      (of_nat (4096 - live_bytes d), al, word_slots (live_list d [0..<nslots d]))"
    using compact_scan_page [OF wf] by blast
  obtain d' e where rw: "compact_rewrite d (word_slots (live_list d [0..<nslots d])) (of_nat PAGE_SIZE) = (d', e)"
    by (cases "compact_rewrite d (word_slots (live_list d [0..<nslots d])) (of_nat PAGE_SIZE)")
  have "compact d = (if al \<and> h_free_space_end (header d) = of_nat (4096 - live_bytes d) then d
      else write_header d' ((header d)\<lparr> h_free_space_end := e \<rparr>))"
    using scan rw page_wfD(5) [OF wf] unfolding nslots_def by (simp add: compact_def Let_def)
  then consider (packed) "compact d = d" "fse d = 4096 - live_bytes d"
    | (moved) "compact d = write_header d' ((header d)\<lparr> h_free_space_end := e \<rparr>)"
    by (auto simp: fse_def simp del: of_nat_diff split: if_splits)
  then have "page_wf (compact d) \<and> page_records (compact d) = page_records d \<and>
      page_lsn (compact d) = page_lsn d \<and> nslots (compact d) = nslots d \<and> fse (compact d) = 4096 - live_bytes d"
    using wf compact_rewritten [OF wf rw] compact_rewrite_page(3) [OF wf rw]
    by cases (simp_all add: nslots_def fse_def)
  then show "page_wf (compact d)" "page_records (compact d) = page_records d"
    "page_lsn (compact d) = page_lsn d" "nslots (compact d) = nslots d"
    "fse (compact d) = 4096 - live_bytes d" by auto
qed

section \<open>Insert, update, remove and read\<close>

definition free_bytes :: "page \<Rightarrow> nat" where
  "free_bytes d = 4096 - dir_end d - live_bytes d"

lemma make_room_correct:
  assumes wf: "page_wf d" and mr: "make_room d k = (d', ok)"
  shows "page_wf d'" "page_records d' = page_records d" "page_lsn d' = page_lsn d"
    "nslots d' = nslots d" "ok \<longleftrightarrow> k \<le> free_bytes d" "ok \<longleftrightarrow> dir_end d' + k \<le> fse d'"
proof -
  note c = compact_correct [OF wf]
  have le: "live_bytes d \<le> 4096 - fse d" "dir_end d \<le> fse d" "fse d \<le> 4096"
    using live_bytes_le wf by (auto simp: page_wfD)
  have free: "unat (contiguous_free_space d) = fse d - dir_end d"
    "unat (contiguous_free_space (compact d)) = 4096 - live_bytes d - dir_end d"
    using c wf by (simp_all add: contiguous_free_space_unat page_wfD(5) dir_end_def)
  have cases: "(d', ok) = (if fse d - dir_end d < k then (compact d, k \<le> 4096 - live_bytes d - dir_end d) else (d, True))"
    using mr free by (simp add: make_room_def compact_and_get_free_space_def Let_def not_less split: if_splits)
  then have res: "d' = d \<or> d' = compact d" by (auto split: if_splits)
  then show "page_wf d'" "page_records d' = page_records d" "page_lsn d' = page_lsn d" "nslots d' = nslots d"
    using c wf by auto
  show "ok \<longleftrightarrow> k \<le> free_bytes d"
    using cases le by (auto simp: free_bytes_def split: if_splits)
  have "dir_end (compact d) = dir_end d" using c(4) by (simp add: dir_end_def)
  then show "ok \<longleftrightarrow> dir_end d' + k \<le> fse d'"
    using cases le c(5) by (auto split: if_splits)
qed

lemma insert_at_effect:
  assumes wf: "page_wf d" and r: "r \<noteq> []" and i: "i < 1021" "if reuse then i < nslots d else i = nslots d"
    and room: "dir_end d + length r + (if reuse then 0 else 4) \<le> fse d"
  defines "d' \<equiv> insert_at d (of_nat i) reuse r"
  shows "length d' = 4096" "nslots d' = (if reuse then nslots d else Suc (nslots d))"
    "fse d' = fse d - length r" "page_lsn d' = page_lsn d"
    "ssize d' i = length r" "soff d' i = fse d - length r" "slot_record d' i = Some r"
    "j < nslots d \<Longrightarrow> j \<noteq> i \<Longrightarrow> ssize d' j = ssize d j \<and> soff d' j = soff d j"
    "fse d \<le> q \<Longrightarrow> q + n \<le> 4096 \<Longrightarrow> get_bytes d' q n = get_bytes d q n"
proof -
  let ?off = "h_free_space_end (header d) - of_nat (length r)"
  let ?s = "\<lparr> s_size = of_nat (length r), s_offset = ?off \<rparr>"
  let ?h = "let h = (header d)\<lparr> h_free_space_end := ?off \<rparr>
            in if reuse then h else h\<lparr> h_slot_count := h_slot_count h + 1 \<rparr>"
  have wfd: "length d = 4096" "nslots d \<le> 1021" "dir_end d \<le> fse d" "fse d \<le> 4096"
    using wf by (simp_all add: page_wfD)
  have off: "unat ?off = fse d - length r" and small: "length r < 65536"
    using room wfd by (simp_all add: fse_def)
  define d1 where "d1 = put_bytes d (unat ?off) r"
  define d2 where "d2 = write_slot d1 (of_nat i) ?s"
  have d': "d' = write_header d2 ?h"
    by (simp add: d'_def insert_at_def d1_def d2_def Let_def)
  have p: "16 + 4 * i \<le> unat ?off" "unat ?off + length r \<le> 4096"
    using off room i wfd by (auto simp: dir_end_def split: if_splits)
  note e1 = put_record_effect [OF wfd(1) p, folded d1_def]
  note e2 = write_slot_effect [OF i(1) e1(1), where s = ?s, folded d2_def]
  note e3 = write_header_effect [OF e2(1), where h = ?h, folded d']
  show "length d' = 4096" by (rule e3(1))
  have inc: "unat (h_slot_count (header d) + 1) = Suc (nslots d)" if "\<not> reuse"
    using wfd(2) by (simp add: nslots_def unat_word_ariths)
  show "nslots d' = (if reuse then nslots d else Suc (nslots d))"
    using e3(2) inc by (simp add: nslots_def Let_def)
  show "fse d' = fse d - length r" using e3(2) off by (simp add: fse_def Let_def)
  show "page_lsn d' = page_lsn d" using e3(2) by (simp add: page_lsn_def Let_def)
  have si: "slot d' (of_nat i) = ?s" using e3(3) e2(3) i(1) by simp
  then show sz: "ssize d' i = length r" and so: "soff d' i = fse d - length r"
    using off small by (simp_all add: ssize_def soff_def)
  have "get_bytes d' (unat ?off) (length r) = get_bytes d1 (unat ?off) (length r)"
    using p e3(4) e2(4) by simp
  also have "\<dots> = r" using p wfd(1) by (simp add: d1_def)
  finally show "slot_record d' i = Some r" using sz so off r by (simp add: slot_record_def)
  have "slot d1 (of_nat j) = slot d (of_nat j)" if "j < nslots d"
    unfolding d1_def using that wfd p off room by (intro slot_put) (auto simp: dir_end_def)
  then show "ssize d' j = ssize d j \<and> soff d' j = soff d j" if "j < nslots d" "j \<noteq> i"
    using that e3(3) e2(3) wfd(2) by (simp add: ssize_def soff_def)
  show "get_bytes d' q n = get_bytes d q n" if "fse d \<le> q" "q + n \<le> 4096"
    using that p off wfd room i e3(4) [of q n] e2(4) [of q n]
    by (simp add: d1_def get_put_other dir_end_def split: if_splits)
qed

lemma insert_at_correct:
  assumes wf: "page_wf d" and r: "r \<noteq> []" and i: "i < 1021" "if reuse then i < nslots d \<and> \<not> live d i else i = nslots d"
    and room: "dir_end d + length r + (if reuse then 0 else 4) \<le> fse d"
  defines "d' \<equiv> insert_at d (of_nat i) reuse r"
  shows "page_wf d'" "page_lsn d' = page_lsn d"
    "page_records d' = (if reuse then (page_records d)[i := Some r] else page_records d @ [Some r])"
proof -
  have i': "if reuse then i < nslots d else i = nslots d" using i(2) by (simp split: if_splits)
  note e = insert_at_effect [OF wf r i(1) i' room, folded d'_def]
  have wfd: "length d = 4096" "nslots d \<le> 1021" "dir_end d \<le> fse d" "fse d \<le> 4096" "slots_ok d (fse d)"
    using wf by (simp_all add: page_wfD)
  have old: "j < nslots d" if "j < nslots d'" "j \<noteq> i" for j
    using that e(2) i' by (auto split: if_splits)
  have same: "ssize d' j = ssize d j" "soff d' j = soff d j" if "j < nslots d'" "j \<noteq> i" for j
    using e(8) old that by auto
  have above: "fse d \<le> soff d' j" "soff d' j + ssize d' j \<le> 4096" if "j < nslots d'" "j \<noteq> i" "live d' j" for j
    using slots_okD1 [OF wfd(5) old] same that by auto
  have at_i: "soff d' i + ssize d' i = fse d" using e(5,6) room by simp
  have "slots_ok d' (fse d')"
    unfolding slots_ok_def PAGE_SIZE_def
  proof (intro conjI allI impI)
    fix j assume j: "j < nslots d'" "live d' j"
    show "fse d' \<le> soff d' j" "soff d' j + ssize d' j \<le> 4096"
      using above [OF j(1) _ j(2)] at_i e(3,6) wfd(4) by (cases "j = i", auto)+
  next
    fix j k assume jk: "j < nslots d'" "k < nslots d'" "j \<noteq> k" "live d' j" "live d' k"
    then show "soff d' j + ssize d' j \<le> soff d' k \<or> soff d' k + ssize d' k \<le> soff d' j"
      using above at_i slots_okD2 [OF wfd(5), of j k] old same by (cases "j = i"; cases "k = i") auto
  qed
  then show "page_wf d'"
    using e(1,2,3) wfd i room by (auto simp: page_wf_iff dir_end_def split: if_splits)
  show "page_lsn d' = page_lsn d" by (rule e(4))
  have rec: "slot_record d' j = (if j = i then Some r else slot_record d j)" if "j < nslots d'" for j
  proof (cases "j = i")
    case False
    then show ?thesis
      using that same above e(9) by (auto simp: slot_record_def)
  qed (simp add: e(7))
  show "page_records d' = (if reuse then (page_records d)[i := Some r] else page_records d @ [Some r])"
    using e(2) i' rec by (intro nth_equalityI)
      (auto simp: page_lengths nth_list_update nth_append nth_page_records less_Suc_eq)
qed

lemma free_slot_records:
  assumes "page_wf d"
  shows "free_slot d = (if spec_slot (page_records d) < nslots d then Some (spec_slot (page_records d)) else None)"
proof -
  have eq: "s_size (slot d (of_nat i)) = 0 \<longleftrightarrow> page_records d ! i = None" if "i < nslots d" for i
    using that by (simp add: slot_record_def ssize_def u16_zero_iff)
  have "free_slot d = List.find (\<lambda>i. page_records d ! i = None) [0..<nslots d]"
    unfolding free_slot_def nslots_def [symmetric] by (rule find_cong) (auto simp: eq)
  moreover have "List.find (\<lambda>i. page_records d ! i = None) [0..<nslots d] = Some i \<Longrightarrow> i < nslots d" for i
    by (auto simp: find_Some_iff)
  ultimately show ?thesis
    by (auto simp: spec_slot_def page_lengths split: option.splits)
qed

lemma slot_record_None: "slot_record d i = None \<longleftrightarrow> \<not> live d i"
  by (simp add: slot_record_def)

lemma length_live_record:
  "page_wf d \<Longrightarrow> i < nslots d \<Longrightarrow> live d i \<Longrightarrow> length (get_bytes d (soff d i) (ssize d i)) = ssize d i"
  using live_records_in_page(1) by (simp add: page_wfD(1))

lemma live_bytes_records: "page_wf d \<Longrightarrow> live_bytes d = record_bytes (page_records d)"
  unfolding live_bytes_sum_list record_bytes_def page_records_def map_map
  by (intro arg_cong [where f = sum_list] map_cong) (auto simp: slot_record_def length_live_record)

definition spec_free :: "slots \<Rightarrow> nat" where
  "spec_free rs = PAGE_SIZE - PAGE_HEADER_SIZE - SLOT_SIZE * length rs - record_bytes rs"

lemma free_bytes_records: "page_wf d \<Longrightarrow> free_bytes d = spec_free (page_records d)"
  by (simp add: free_bytes_def spec_free_def live_bytes_records dir_end_def page_lengths page_consts)

lemma has_layout_slot:
  assumes "page_wf d"
  shows "h_slot_count (header d) \<le> s \<longleftrightarrow> nslots d \<le> unat s"
  by (simp add: nslots_def word_le_nat_alt)

definition insert_needs :: "slots \<Rightarrow> bytes \<Rightarrow> nat" where
  "insert_needs rs r = length r + (if None \<in> set rs then 0 else SLOT_SIZE)"

lemma page_insert_cases:
  assumes wf: "page_wf d"
  defines "rs \<equiv> page_records d"
  shows "page_insert d r =
    (if r = [] \<or> None \<notin> set rs \<and> length rs = MAX_SLOTS then (d, None)
     else let (d', ok) = make_room d (insert_needs rs r)
          in if ok then (insert_at d' (of_nat (spec_slot rs)) (None \<in> set rs) r, Some (of_nat (spec_slot rs)))
             else (d', None))"
proof -
  have full: "None \<notin> set rs \<longleftrightarrow> spec_slot rs = nslots d"
    using spec_slot_full [of rs] by (simp add: rs_def page_lengths)
  have le: "spec_slot rs \<le> nslots d" using spec_slot_le [of rs] by (simp add: rs_def page_lengths)
  have fs: "free_slot d = (if None \<in> set rs then Some (spec_slot rs) else None)"
    using free_slot_records [OF wf] full le by (auto simp: rs_def)
  have tgt: "(case free_slot d of Some i \<Rightarrow> of_nat i | None \<Rightarrow> h_slot_count (header d)) = (of_nat (spec_slot rs) :: u16)"
    using fs full by (auto simp: nslots_def)
  show ?thesis
    unfolding page_insert_def Let_def tgt using fs full page_wfD(5) [OF wf]
    by (auto simp: rs_def page_lengths insert_needs_def nslots_def split: prod.splits)
qed

lemma page_insert_law:
  assumes wf: "page_wf d" and ins: "page_insert d r = (d', res)"
  shows "page_wf d' \<and> page_lsn d' = page_lsn d \<and>
    (case res of None \<Rightarrow> page_records d' = page_records d
     | Some s \<Rightarrow> page_records d' = spec_insert (page_records d) r \<and>
         unat s = spec_slot (page_records d) \<and> r \<noteq> [])"
proof (cases "r = [] \<or> None \<notin> set (page_records d) \<and> length (page_records d) = MAX_SLOTS")
  case True
  then show ?thesis using ins wf by (auto simp: page_insert_cases)
next
  case False
  let ?rs = "page_records d"
  obtain d1 ok where mr: "make_room d (insert_needs ?rs r) = (d1, ok)" by (cases "make_room d (insert_needs ?rs r)")
  note m = make_room_correct [OF wf mr]
  show ?thesis
  proof (cases ok)
    case False
    with \<open>\<not> (r = [] \<or> _)\<close> show ?thesis using ins mr m by (auto simp: page_insert_cases [OF wf])
  next
    case True
    let ?i = "spec_slot ?rs" and ?re = "None \<in> set ?rs"
    have lens: "length ?rs = nslots d" "nslots d \<le> 1021" using wf by (simp_all add: page_lengths page_wfD)
    have i: "?re \<longrightarrow> ?i < nslots d \<and> ?rs ! ?i = None" "\<not> ?re \<longrightarrow> ?i = nslots d"
      using spec_slot_full [of ?rs] spec_slot_le [of ?rs] spec_slot_free [of ?rs] lens by auto
    then have i1: "?i < 1021" using lens False by auto
    have i2: "if ?re then ?i < nslots d1 \<and> \<not> live d1 ?i else ?i = nslots d1"
      using i m(2,4) slot_record_None [of d1 ?i] nth_page_records [of ?i d1] by (auto simp: page_lengths)
    have room: "dir_end d1 + length r + (if ?re then 0 else 4) \<le> fse d1"
      using m(6) True by (auto simp: insert_needs_def SLOT_SIZE_def)
    have "r \<noteq> []" using False by simp
    note c = insert_at_correct [OF m(1) this i1 i2 room]
    have "d' = insert_at d1 (of_nat ?i) ?re r" "res = Some (of_nat ?i)"
      using ins mr True False by (simp_all add: page_insert_cases [OF wf] split: if_splits)
    then show ?thesis
      using c m(2,3) i lens i1 False by (auto simp: spec_insert_def)
  qed
qed

text \<open>Whether an insert succeeds depends on the contents alone, never on fragmentation.\<close>

lemma page_insert_succeeds_iff:
  assumes "page_wf d"
  shows "snd (page_insert d r) \<noteq> None \<longleftrightarrow>
     r \<noteq> [] \<and> (None \<in> set (page_records d) \<or> length (page_records d) < MAX_SLOTS) \<and>
     insert_needs (page_records d) r \<le> spec_free (page_records d)"
proof -
  obtain d1 ok where mr: "make_room d (insert_needs (page_records d) r) = (d1, ok)"
    by (cases "make_room d (insert_needs (page_records d) r)")
  have "length (page_records d) \<le> MAX_SLOTS" using assms by (simp add: page_lengths page_wfD)
  then show ?thesis
    using make_room_correct(5) [OF assms mr] mr
    by (auto simp: page_insert_cases [OF assms] free_bytes_records [OF assms])
qed

lemma page_read_law:
  assumes "page_wf d"
  shows "page_read d s = spec_read (page_records d) (unat s)"
proof (cases "unat s < nslots d")
  case True
  then have "unat (s_size (slot d s)) = 0 \<or> unat (s_offset (slot d s)) + unat (s_size (slot d s)) \<le> 4096"
    using live_records_in_page(1) [OF assms True] by (auto simp: soff_def ssize_def)
  then show ?thesis
    using True page_wfD(5) [OF assms] has_layout_slot [OF assms, of s]
    by (auto simp: page_read_def spec_read_def page_lengths slot_record_def ssize_def soff_def Let_def
        page_consts u16_zero_iff)
next
  case False
  then show ?thesis
    using has_layout_slot [OF assms, of s] by (simp add: page_read_def spec_read_def page_lengths)
qed

lemma kill_slot:
  assumes wf: "page_wf d" and i: "i < nslots d"
  defines "d' \<equiv> write_slot d (of_nat i) \<lparr> s_size = 0, s_offset = 0 \<rparr>"
  shows "page_wf d'" "page_records d' = (page_records d)[i := None]" "page_lsn d' = page_lsn d"
    "header d' = header d"
proof -
  have wfd: "length d = 4096" "nslots d \<le> 1021" "dir_end d \<le> fse d" "slots_ok d (fse d)"
    using wf by (simp_all add: page_wfD)
  with i have i1: "i < 1021" by simp
  note e = write_slot_effect [OF i1 wfd(1), where s = "\<lparr> s_size = 0, s_offset = 0 \<rparr>", folded d'_def]
  have views: "nslots d' = nslots d" "fse d' = fse d" "dir_end d' = dir_end d"
    by (simp_all add: page_views e(2))
  have sl: "ssize d' j = (if j = i then 0 else ssize d j)" "j \<noteq> i \<Longrightarrow> soff d' j = soff d j" if "j < nslots d" for j
    using e(3) [of j] that wfd(2) by (simp_all add: ssize_def soff_def)
  show "header d' = header d" by (rule e(2))
  show "page_lsn d' = page_lsn d" by (simp add: page_lsn_def e(2))
  show "page_wf d'"
    using wf e(1) views sl by (auto simp: page_wf_iff slots_ok_def)
  have "slot_record d' j = (if j = i then None else slot_record d j)" if "j < nslots d" for j
    using that i sl [OF that] live_records_in_page [OF wf that] wfd(3) e(4) [of "soff d j" "ssize d j"]
    by (auto simp: slot_record_def dir_end_def)
  then show "page_records d' = (page_records d)[i := None]"
    using views by (intro nth_equalityI) (auto simp: page_lengths nth_list_update)
qed

lemma page_remove_law:
  assumes wf: "page_wf d" and rem: "page_remove d s = (d', ok)"
  shows "page_wf d' \<and> page_lsn d' = page_lsn d \<and> ok = (spec_read (page_records d) (unat s) \<noteq> None) \<and>
    (if ok then page_records d' = (page_records d)[unat s := None] else d' = d)"
proof -
  have sz: "s_size (slot d s) = 0 \<longleftrightarrow> \<not> live d (unat s)" by (simp add: ssize_def u16_zero_iff)
  have ok: "ok = (spec_read (page_records d) (unat s) \<noteq> None)"
    "d' = (if ok then write_slot d s \<lparr> s_size = 0, s_offset = 0 \<rparr> else d)"
    using rem page_wfD(5) [OF wf] has_layout_slot [OF wf, of s] sz
    by (auto simp: page_remove_def spec_read_def page_lengths slot_record_def not_le split: if_splits)
  show ?thesis
  proof (cases ok)
    case True
    then have "unat s < nslots d" using ok by (simp add: spec_read_def page_lengths split: if_splits)
    from kill_slot [OF wf this] True ok show ?thesis by simp
  qed (use ok wf in simp)
qed

lemma overwrite_record:
  assumes wf: "page_wf d" and i: "i < nslots d" "live d i" and r: "length r = ssize d i"
  defines "d' \<equiv> put_bytes d (soff d i) r"
  shows "page_wf d'" "page_records d' = (page_records d)[i := Some r]" "page_lsn d' = page_lsn d"
proof -
  have wfd: "length d = 4096" "nslots d \<le> 1021" "dir_end d \<le> fse d" "slots_ok d (fse d)"
    using wf by (simp_all add: page_wfD)
  note li = live_records_in_page [OF wf i]
  have hd: "header d' = header d" and len: "length d' = 4096"
    using wfd li r by (simp_all add: d'_def dir_end_def)
  have views: "nslots d' = nslots d" "fse d' = fse d" "dir_end d' = dir_end d"
    by (simp_all add: page_views hd)
  have "slot d' (of_nat j) = slot d (of_nat j)" if "j < nslots d" for j
    unfolding d'_def using that wfd li r by (intro slot_put) (auto simp: dir_end_def)
  then have sl: "ssize d' j = ssize d j" "soff d' j = soff d j" if "j < nslots d" for j
    using that by (simp_all add: ssize_def soff_def)
  show "page_wf d'"
    using wf len views sl by (auto simp: page_wf_iff slots_ok_def)
  show "page_lsn d' = page_lsn d" by (simp add: page_lsn_def hd)
  have "get_bytes d' (soff d j) (ssize d j) = get_bytes d (soff d j) (ssize d j)"
    if "j < nslots d" "j \<noteq> i" "live d j" for j
    unfolding d'_def using slots_okD2 [OF wfd(4) that(1) i(1) that(2,3) i(2)] li r wfd
      live_records_in_page [OF wf that(1,3)] by (intro get_put_other) auto
  then have "slot_record d' j = (if j = i then Some r else slot_record d j)" if "j < nslots d" for j
    using that sl i r li wfd by (auto simp: slot_record_def d'_def)
  then show "page_records d' = (page_records d)[i := Some r]"
    using views by (intro nth_equalityI) (auto simp: page_lengths nth_list_update)
qed

lemma record_bytes_update_None:
  "i < length rs \<Longrightarrow> rs ! i = Some b \<Longrightarrow> record_bytes (rs[i := None]) + length b = record_bytes rs"
  by (induction rs arbitrary: i) (auto simp: record_bytes_def nth_Cons add.assoc split: nat.splits)

lemma records_fit:
  assumes "page_wf d"
  shows "record_bytes (page_records d) + 12 + 4 * length (page_records d) \<le> 4096"
  using live_bytes_le [OF assms] page_wfD(3,4) [OF assms]
  by (simp add: live_bytes_records [OF assms] dir_end_def page_lengths)

text \<open>The branch of \<^verbatim>\<open>update\<close> that replaces a record by one of another size.\<close>

definition trial_update :: "page \<Rightarrow> u16 \<Rightarrow> bytes \<Rightarrow> page \<times> bool" where
  "trial_update d s r =
     (let (trial, ok) = make_room (write_slot d s \<lparr> s_size = 0, s_offset = 0 \<rparr>) (length r)
      in if ok then (insert_at trial s True r, True) else (d, False))"

lemma trial_update_correct:
  assumes wf: "page_wf d" and s: "unat s < nslots d" and r: "r \<noteq> []"
    and tu: "trial_update d s r = (d', ok)"
  shows "page_wf d' \<and> page_lsn d' = page_lsn d \<and> ok = (length r \<le> spec_free ((page_records d)[unat s := None])) \<and>
    (if ok then page_records d' = (page_records d)[unat s := Some r] else d' = d)"
proof -
  let ?k = "write_slot d s \<lparr> s_size = 0, s_offset = 0 \<rparr>"
  have k: "page_wf ?k" "page_records ?k = (page_records d)[unat s := None]" "page_lsn ?k = page_lsn d"
    "nslots ?k = nslots d"
    using kill_slot [OF wf s] by (simp_all add: nslots_def)
  obtain t o1 where mr: "make_room ?k (length r) = (t, o1)" by (cases "make_room ?k (length r)")
  note m = make_room_correct [OF k(1) mr]
  have ok: "ok = o1" "o1 = (length r \<le> spec_free ((page_records d)[unat s := None]))"
    using tu mr m(5) free_bytes_records [OF k(1)] k(2) by (auto simp: trial_update_def split: if_splits)
  show ?thesis
  proof (cases o1)
    case True
    have st: "unat s < 1021" "unat s < nslots t \<and> \<not> live t (unat s)"
      using s m(2,4) k(2,4) page_wfD(2) [OF wf] nth_page_records [of "unat s" t] slot_record_None [of t "unat s"]
      by (auto simp: page_lengths)
    have "d' = insert_at t s True r" using tu mr True by (simp add: trial_update_def)
    then show ?thesis
      using insert_at_correct [OF m(1) r st(1), of True] st(2) m(2,3,6) k True ok by simp
  qed (use ok tu mr wf in \<open>simp add: trial_update_def\<close>)
qed

lemma page_update_law_iff:
  assumes wf: "page_wf d" and up: "page_update d s r = (d', ok)"
  shows "page_wf d' \<and> page_lsn d' = page_lsn d \<and>
    ok = (r \<noteq> [] \<and> spec_read (page_records d) (unat s) \<noteq> None \<and>
          length r \<le> spec_free ((page_records d)[unat s := None])) \<and>
    (if ok then page_records d' = (page_records d)[unat s := Some r] else d' = d)"
proof (cases "r \<noteq> [] \<and> spec_read (page_records d) (unat s) \<noteq> None")
  case False
  then show ?thesis
    using up wf has_layout_slot [OF wf, of s]
    by (auto simp: page_update_def spec_read_def page_lengths slot_record_def ssize_def u16_zero_iff not_le
        split: if_splits)
next
  case True
  then have s: "unat s < nslots d" "live d (unat s)"
    by (auto simp: spec_read_def page_lengths slot_record_def split: if_splits)
  show ?thesis
  proof (cases "length r = ssize d (unat s)")
    case same: True
    have "d' = put_bytes d (soff d (unat s)) r" "ok"
      using up True s same page_wfD(5) [OF wf] has_layout_slot [OF wf, of s]
      by (auto simp: page_update_def ssize_def soff_def Let_def u16_zero_iff split: if_splits)
    moreover have "length r \<le> spec_free ((page_records d)[unat s := None])"
      using record_bytes_update_None [of "unat s" "page_records d"] records_fit [OF wf] s same
      by (simp add: spec_free_def page_lengths slot_record_def length_live_record [OF wf] page_consts)
    ultimately show ?thesis using overwrite_record [OF wf s same] True by simp
  next
    case other: False
    have "trial_update d s r = (d', ok)"
      using up True s other page_wfD(5) [OF wf] has_layout_slot [OF wf, of s]
      by (auto simp: page_update_def trial_update_def ssize_def Let_def u16_zero_iff split: prod.splits if_splits)
    from trial_update_correct [OF wf s(1) _ this] True show ?thesis by simp
  qed
qed

lemma page_update_law:
  assumes "page_wf d" "page_update d s r = (d', ok)"
  shows "page_wf d' \<and> page_lsn d' = page_lsn d \<and>
    (if ok then spec_read (page_records d) (unat s) \<noteq> None \<and>
       page_records d' = (page_records d)[unat s := Some r] \<and> r \<noteq> [] else d' = d)"
  using page_update_law_iff [OF assms] by auto

lemma write_header_lsn:
  fixes l :: u64
  assumes wf: "page_wf d"
  defines "d' \<equiv> write_header d ((header d)\<lparr> h_page_lsn := l \<rparr>)"
  shows "page_wf d'" "page_records d' = page_records d" "page_lsn d' = l"
proof -
  have wfd: "length d = 4096" "nslots d \<le> 1021" "dir_end d \<le> fse d" using wf by (simp_all add: page_wfD)
  note e = write_header_effect [OF wfd(1), where h = "(header d)\<lparr> h_page_lsn := l \<rparr>", folded d'_def]
  have views: "nslots d' = nslots d" "fse d' = fse d" "dir_end d' = dir_end d"
    by (simp_all add: page_views e(2))
  have sl: "ssize d' j = ssize d j" "soff d' j = soff d j" if "j < nslots d" for j
    using e(3) [of j] that wfd(2) by (simp_all add: ssize_def soff_def)
  show "page_wf d'" using wf e(1) views sl by (auto simp: page_wf_iff slots_ok_def)
  have "slot_record d' j = slot_record d j" if "j < nslots d" for j
    using sl [OF that] live_records_in_page [OF wf that] wfd(3) e(4) [of "soff d j" "ssize d j"]
    by (auto simp: slot_record_def dir_end_def)
  then show "page_records d' = page_records d" using views by (intro page_records_eqI) auto
  show "page_lsn d' = l" by (simp add: page_lsn_def e(2))
qed

lemma set_page_lsn_law:
  "page_wf d \<Longrightarrow> page_wf (set_page_lsn d l) \<and> page_records (set_page_lsn d l) = page_records d \<and> page_lsn (set_page_lsn d l) = l"
  by (simp add: set_page_lsn_def write_header_lsn)

lemma page_reset_law: "page_wf page_reset" "page_records page_reset = []" "page_lsn page_reset = 0"
proof -
  have hd: "header page_reset = \<lparr> h_slot_count = 0, h_free_space_end = of_nat PAGE_SIZE, h_page_lsn = 0 \<rparr>"
    and len: "length page_reset = 4096"
    unfolding page_reset_def by (intro write_header_effect; simp add: PAGE_SIZE_def)+
  have "nslots page_reset = 0" "fse page_reset = 4096"
    by (simp_all add: nslots_def fse_def hd PAGE_SIZE_def)
  then show "page_wf page_reset" "page_records page_reset = []"
    using len by (simp_all add: page_wf_iff slots_ok_def dir_end_def page_records_def)
  show "page_lsn page_reset = 0" by (simp add: page_lsn_def hd)
qed

text \<open>The page of the source implements the interface its clients rely on.\<close>

interpretation pg: record_page page_reset page_insert page_update page_remove page_read page_lsn set_page_lsn
  page_records page_wf
  by unfold_locales
    (fact page_reset_law page_insert_law page_update_law page_remove_law page_read_law set_page_lsn_law)+

lemma page_insert_reset:
  assumes "r \<noteq> []" "length r \<le> 4080"
  shows "\<exists>d'. page_insert page_reset r = (d', Some 0) \<and> page_wf d' \<and> page_records d' = [Some r]"
proof -
  obtain d' res where eq: "page_insert page_reset r = (d', res)" by (cases "page_insert page_reset r")
  have "snd (page_insert page_reset r) \<noteq> None"
    using assms unfolding page_insert_succeeds_iff [OF page_reset_law(1)] page_reset_law(2)
    by (simp add: insert_needs_def spec_free_def record_bytes_def page_consts)
  then obtain s where s: "res = Some s" using eq by auto
  have "page_wf d' \<and> page_records d' = [Some r] \<and> unat s = 0"
    using pg.ins_law [OF page_reset_law(1) eq]
    by (simp add: s page_reset_law spec_insert_def spec_slot_def)
  then show ?thesis using eq s by (simp add: unat_eq_0)
qed

section \<open>Properties\<close>

text \<open>
  C1. Insert refines the abstract page: on a well-formed page it keeps the layout invariant
  and the page LSN; if it returns a slot, the contents are the old ones with the record in
  the first free slot (or in a new last slot) and that slot is returned; if it fails, the
  contents are unchanged even though the page may have been compacted.
\<close>

theorem page_insert_refines:
  assumes "page_wf d"
  shows "case page_insert d r of (d', res) \<Rightarrow>
    page_wf d' \<and> page_lsn d' = page_lsn d \<and>
    (case res of None \<Rightarrow> page_records d' = page_records d
     | Some s \<Rightarrow> page_records d' = spec_insert (page_records d) r \<and> unat s = spec_slot (page_records d))"
  using pg.ins_law [OF assms surjective_pairing, of r]
  by (simp add: case_prod_beta split: option.splits)

theorem page_insert_refines_witness:
  "page_wf page_reset \<and> snd (page_insert page_reset [7, 8]) = Some 0 \<and>
   page_records (fst (page_insert page_reset [7, 8])) = [Some [7, 8]]"
  using page_insert_refines [OF page_reset_law(1), of "[7, 8]"] page_insert_reset [of "[7, 8]"]
  by (auto simp: page_reset_law spec_insert_def spec_slot_def)

text \<open>
  C2. Insert fails only when the page has no room: with a well-formed page it succeeds
  exactly when the record is not empty, a slot can be had, and the record (with a new slot
  where none is free) fits in the bytes that the header, the directory and the live records
  leave. Holes left by deleted or moved records never make it fail.
\<close>

theorem page_insert_complete:
  assumes "page_wf d"
  shows "snd (page_insert d r) \<noteq> None \<longleftrightarrow>
     r \<noteq> [] \<and> (None \<in> set (page_records d) \<or> length (page_records d) < MAX_SLOTS) \<and>
     length r + (if None \<in> set (page_records d) then 0 else SLOT_SIZE)
       + SLOT_SIZE * length (page_records d) + record_bytes (page_records d) + PAGE_HEADER_SIZE \<le> PAGE_SIZE"
  using page_insert_succeeds_iff [OF assms, of r] records_fit [OF assms]
  by (auto simp: insert_needs_def spec_free_def page_consts)

theorem page_insert_complete_witness:
  "page_wf page_reset \<and> snd (page_insert page_reset (replicate 4080 1)) \<noteq> None \<and>
   snd (page_insert page_reset (replicate 4081 1)) = None"
  using page_insert_complete [OF page_reset_law(1), of "replicate 4080 1"]
    page_insert_complete [OF page_reset_law(1), of "replicate 4081 1"]
  by (simp add: page_reset_law record_bytes_def page_consts)

text \<open>
  C3. Update refines the abstract page and is complete: it succeeds exactly when the record
  is not empty, the slot holds a record and the new record fits once the old one is given
  up; then only that slot changes. Otherwise the page is left byte for byte as it was.
\<close>

theorem page_update_refines:
  assumes "page_wf d"
  shows "case page_update d s r of (d', ok) \<Rightarrow>
    page_wf d' \<and> page_lsn d' = page_lsn d \<and>
    ok = (r \<noteq> [] \<and> spec_read (page_records d) (unat s) \<noteq> None \<and>
          length r \<le> spec_free ((page_records d)[unat s := None])) \<and>
    (if ok then page_records d' = (page_records d)[unat s := Some r] else d' = d)"
  using page_update_law_iff [OF assms surjective_pairing, of s r]
  by (simp add: case_prod_beta)

theorem page_update_refines_witness:
  "page_wf (fst (page_insert page_reset [7, 8])) \<and>
   snd (page_update (fst (page_insert page_reset [7, 8])) 0 [9, 9, 9])"
proof -
  obtain d' where d': "page_insert page_reset [7, 8] = (d', Some 0)" "page_wf d'" "page_records d' = [Some [7, 8]]"
    using page_insert_reset [of "[7, 8]"] by auto
  show ?thesis
    using page_update_refines [OF d'(2), where s = 0 and r = "[9, 9, 9]"] d'
    by (simp add: case_prod_beta spec_read_def spec_free_def record_bytes_def page_consts)
qed

text \<open>
  C4. Remove and read: remove succeeds exactly on a slot that holds a record and empties
  that slot only; read returns the record of the slot, and nothing for an empty slot or a
  slot the page does not have.
\<close>

theorem page_remove_read_refine:
  assumes "page_wf d"
  shows "page_read d t = spec_read (page_records d) (unat t) \<and>
    (case page_remove d s of (d', ok) \<Rightarrow>
       page_wf d' \<and> ok = (page_read d s \<noteq> None) \<and>
       page_read d' t = (if t = s then None else page_read d t) \<and> (\<not> ok \<longrightarrow> d' = d))"
  using pg.rem_law [OF assms surjective_pairing, of s] pg.read_after_remove [OF assms surjective_pairing, of s t]
  by (simp add: case_prod_beta pg.rd_law [OF assms])

theorem page_remove_read_refine_witness:
  "page_wf page_reset \<and> page_read page_reset 5 = None \<and> \<not> snd (page_remove page_reset 5)"
  using page_remove_read_refine [OF page_reset_law(1), of 5 5]
  by (simp add: case_prod_beta page_reset_law spec_read_def)

text \<open>
  Compaction frees every dead byte: it keeps the invariant, the contents and the LSN, and
  afterwards the contiguous free space is the whole page less the header, the directory and
  the live records.
\<close>

lemma compact_frees_all:
  assumes "page_wf d"
  shows "page_wf (compact d) \<and> page_records (compact d) = page_records d \<and> page_lsn (compact d) = page_lsn d \<and>
    unat (contiguous_free_space (compact d)) = spec_free (page_records d)"
  using compact_correct [OF assms] free_bytes_records [OF assms]
  by (simp add: contiguous_free_space_unat page_wfD(5) free_bytes_def dir_end_def)

lemma compact_frees_all_witness:
  "page_wf page_reset \<and> unat (contiguous_free_space (compact page_reset)) = 4084"
  using compact_frees_all [OF page_reset_law(1)]
  by (simp add: page_reset_law spec_free_def record_bytes_def page_consts)

end
