(* ===== verification/Wal.thy ===== *)
theory Wal
  imports Page IO
begin

text \<open>
  The write-ahead log, from \<^verbatim>\<open>src/src/storage/wal_manager.cpp\<close>. The log file and the table files are
  files of the world of \<open>IO\<close>; the manager is the record of its fields, with the descriptor as
  the fact that the file is open. A record type is kept as its 16-bit number, as the source
  keeps it after the cast.
\<close>

section \<open>Records\<close>

definition WAL_MAGIC :: u32 where "WAL_MAGIC = 0x304c4157"
definition NO_PAGE_ID :: u32 where "NO_PAGE_ID = 0xffffffff"
definition SCHEMA_FILE_NAME :: string where "SCHEMA_FILE_NAME = ''schema.catalog''"
definition TABLE_FILE_NAME :: string where "TABLE_FILE_NAME = ''data.tbl''"
definition HEADER_SIZE :: nat where "HEADER_SIZE = 42"

datatype WalRecordType =
  begin_record | page_update | commit_record | abort_record | checkpoint_record | create_table | drop_table | schema_update

primrec type_code :: "WalRecordType \<Rightarrow> u16" where
  "type_code begin_record = 1"
| "type_code page_update = 2"
| "type_code commit_record = 3"
| "type_code abort_record = 4"
| "type_code checkpoint_record = 5"
| "type_code create_table = 6"
| "type_code drop_table = 7"
| "type_code schema_update = 8"

record WalRecord =
  r_type :: u16
  r_lsn :: u64
  r_txn :: u64
  r_page_id :: u32
  r_table_file :: string
  r_before :: bytes
  r_after :: bytes
  r_active :: "u64 list"

record wal =
  wal_path :: string
  wal_open :: bool
  last_lsn :: u64
  durable_lsn :: u64

definition append_uint16 :: "bytes \<Rightarrow> u16 \<Rightarrow> bytes" where
  "append_uint16 out v = out @ [ucast (v AND 0xff)] @ [ucast (drop_bit 8 v AND 0xff)]"

definition append_uint32 :: "bytes \<Rightarrow> u32 \<Rightarrow> bytes" where
  "append_uint32 out v = fold (\<lambda>i out. out @ [ucast (drop_bit (i * 8) v AND 0xff)]) [0..<4] out"

definition append_uint64 :: "bytes \<Rightarrow> u64 \<Rightarrow> bytes" where
  "append_uint64 out v = fold (\<lambda>i out. out @ [ucast (drop_bit (i * 8) v AND 0xff)]) [0..<8] out"

definition wal_read_uint16 :: "bytes \<Rightarrow> nat \<Rightarrow> u16" where
  "wal_read_uint16 d p = ucast (d ! p) OR push_bit 8 (ucast (d ! (p + 1)))"

definition wal_read_uint32 :: "bytes \<Rightarrow> nat \<Rightarrow> u32" where
  "wal_read_uint32 d p = fold (\<lambda>i v. v OR push_bit (i * 8) (ucast (d ! (p + i)))) [0..<4] 0"

definition wal_read_uint64 :: "bytes \<Rightarrow> nat \<Rightarrow> u64" where
  "wal_read_uint64 d p = fold (\<lambda>i v. v OR push_bit (i * 8) (ucast (d ! (p + i)))) [0..<8] 0"

text \<open>The bytes \<^verbatim>\<open>append_record\<close> builds.\<close>

definition encode_record :: "WalRecord \<Rightarrow> bytes" where
  "encode_record r =
     (let out = append_uint32 [] WAL_MAGIC;
          out = append_uint16 out (r_type r);
          out = append_uint64 out (r_lsn r);
          out = append_uint64 out (r_txn r);
          out = append_uint32 out (r_page_id r);
          out = append_uint32 out (of_nat (length (r_table_file r)));
          out = append_uint32 out (of_nat (length (r_before r)));
          out = append_uint32 out (of_nat (length (r_after r)));
          out = append_uint32 out (of_nat (length (r_active r)));
          out = out @ map byte_of (r_table_file r);
          out = out @ r_before r;
          out = out @ r_after r
      in fold (\<lambda>t out. append_uint64 out t) (r_active r) out)"

section \<open>Reading the log\<close>

text \<open>A record from its 42 header bytes and its body.\<close>

definition decode_record :: "bytes \<Rightarrow> bytes \<Rightarrow> WalRecord" where
  "decode_record hdr body =
     (let table_file_size = unat (wal_read_uint32 hdr 26);
          before_size = unat (wal_read_uint32 hdr 30);
          after_size = unat (wal_read_uint32 hdr 34);
          active_count = unat (wal_read_uint32 hdr 38)
      in \<lparr> r_type = wal_read_uint16 hdr 4,
           r_lsn = wal_read_uint64 hdr 6,
           r_txn = wal_read_uint64 hdr 14,
           r_page_id = wal_read_uint32 hdr 22,
           r_table_file = map char_of_byte (take table_file_size body),
           r_before = get_bytes body table_file_size before_size,
           r_after = get_bytes body (table_file_size + before_size) after_size,
           r_active = map (\<lambda>i. wal_read_uint64 body (table_file_size + before_size + after_size + 8 * i)) [0..<active_count] \<rparr>)"

definition body_size :: "bytes \<Rightarrow> nat" where
  "body_size hdr =
     unat (wal_read_uint32 hdr 26) + unat (wal_read_uint32 hdr 30) +
     unat (wal_read_uint32 hdr 34) + unat (wal_read_uint32 hdr 38) * 8"

text \<open>The loop of \<^verbatim>\<open>read_all_records\<close> from an offset, with the records read so far.\<close>

function read_records_loop :: "string \<Rightarrow> nat \<Rightarrow> nat \<Rightarrow> WalRecord list \<Rightarrow> world \<Rightarrow> WalRecord list option \<times> world" where
  "read_records_loop p file_size offset records w =
     (if offset + HEADER_SIZE \<le> file_size then
        case full_read_at p [] HEADER_SIZE offset w of
          (None, w) \<Rightarrow> (None, w)
        | (Some hdr, w) \<Rightarrow>
          if wal_read_uint32 hdr 0 \<noteq> WAL_MAGIC then (None, w)
          else if offset + HEADER_SIZE + body_size hdr > file_size then (Some records, w)
          else case full_read_at p [] (body_size hdr) (offset + HEADER_SIZE) w of
            (None, w) \<Rightarrow> (None, w)
          | (Some body, w) \<Rightarrow>
            read_records_loop p file_size (offset + HEADER_SIZE + body_size hdr) (records @ [decode_record hdr body]) w
      else (Some records, w))"
  by pat_completeness auto
termination
  by (relation "measure (\<lambda>(p, file_size, offset, records, w). file_size - offset)") (auto simp: HEADER_SIZE_def)

declare read_records_loop.simps [simp del]

text \<open>\<^verbatim>\<open>fstat\<close> gives the size of the open file or fails.\<close>

definition read_all_records :: "string \<Rightarrow> world \<Rightarrow> WalRecord list option \<times> world" where
  "read_all_records p w =
     (case next_outcome w of (r, w) \<Rightarrow>
        if r = Io_error \<or> r = Io_eintr then (None, w)
        else read_records_loop p (length (contents w p)) 0 [] w)"

section \<open>Pages and table directories\<close>

definition page_from_image :: "bytes \<Rightarrow> page" where
  "page_from_image img = (if length img = PAGE_SIZE then img else page_reset)"

definition write_page_image :: "WalRecord \<Rightarrow> bytes \<Rightarrow> u64 \<Rightarrow> world \<Rightarrow> bool \<times> world" where
  "write_page_image r img lsn w =
     (if r_page_id r = NO_PAGE_ID \<or> r_table_file r = [] \<or> length img \<noteq> PAGE_SIZE then (False, w)
      else case open_create (r_table_file r) w of (ok, w) \<Rightarrow>
        if \<not> ok then (False, w)
        else let out = (if filename (r_table_file r) = TABLE_FILE_NAME
                        then set_page_lsn (page_from_image img) lsn else img)
             in full_write_at (r_table_file r) out (unat (r_page_id r) * PAGE_SIZE) w)"

definition redo_create_table :: "WalRecord \<Rightarrow> world \<Rightarrow> bool \<times> world" where
  "redo_create_table r w =
     (if r_table_file r = [] then (False, w)
      else case create_directories (r_table_file r) w of (ok, w) \<Rightarrow>
        if \<not> ok then (False, w)
        else case ofstream_touch (path_append (r_table_file r) TABLE_FILE_NAME) w of (ok, w) \<Rightarrow>
          if \<not> ok then (False, w)
          else ofstream_replace (path_append (r_table_file r) SCHEMA_FILE_NAME) (r_after r) w)"

definition redo_drop_table :: "WalRecord \<Rightarrow> world \<Rightarrow> bool \<times> world" where
  "redo_drop_table r w = (if r_table_file r = [] then (False, w) else remove_all (r_table_file r) w)"

definition write_schema_text :: "string \<Rightarrow> bytes \<Rightarrow> world \<Rightarrow> bool \<times> world" where
  "write_schema_text table_dir schema_image w =
     (if table_dir = [] \<or> schema_image = [] then (False, w)
      else case create_directories table_dir w of (ok, w) \<Rightarrow>
        if \<not> ok then (False, w)
        else ofstream_replace (path_append table_dir SCHEMA_FILE_NAME) schema_image w)"

section \<open>The manager\<close>

definition append_record ::
  "WalRecordType \<Rightarrow> u64 \<Rightarrow> string \<Rightarrow> u32 \<Rightarrow> bytes \<Rightarrow> bytes \<Rightarrow> u64 list \<Rightarrow> wal \<times> world \<Rightarrow> u64 \<times> wal \<times> world" where
  "append_record ty txn table_file page_id before_image after_image active = (\<lambda>(m, w).
     if \<not> wal_open m then (0, m, w)
     else let lsn = last_lsn m + 1;
              r = \<lparr> r_type = type_code ty, r_lsn = lsn, r_txn = txn, r_page_id = page_id, r_table_file = table_file,
                    r_before = before_image, r_after = after_image, r_active = active \<rparr>
          in case full_append (wal_path m) (encode_record r) w of (ok, w) \<Rightarrow>
               if \<not> ok then (0, m, w) else (lsn, m\<lparr>last_lsn := lsn\<rparr>, w))"

definition begin_transaction :: "u64 \<Rightarrow> wal \<times> world \<Rightarrow> u64 \<times> wal \<times> world" where
  "begin_transaction txn = append_record begin_record txn '''' NO_PAGE_ID [] [] []"

definition log_page_update :: "u64 \<Rightarrow> string \<Rightarrow> u32 \<Rightarrow> page \<Rightarrow> page \<Rightarrow> wal \<times> world \<Rightarrow> u64 \<times> wal \<times> world" where
  "log_page_update txn table_file page_id before_page after_page =
     append_record page_update txn table_file page_id before_page after_page []"

definition log_page_update_raw :: "u64 \<Rightarrow> string \<Rightarrow> u32 \<Rightarrow> bytes \<Rightarrow> bytes \<Rightarrow> wal \<times> world \<Rightarrow> u64 \<times> wal \<times> world" where
  "log_page_update_raw txn file_path page_id before_image after_image s =
     (if length before_image \<noteq> PAGE_SIZE \<or> length after_image \<noteq> PAGE_SIZE then (0, s)
      else append_record page_update txn file_path page_id before_image after_image [] s)"

definition commit_transaction :: "u64 \<Rightarrow> wal \<times> world \<Rightarrow> u64 \<times> wal \<times> world" where
  "commit_transaction txn = append_record commit_record txn '''' NO_PAGE_ID [] [] []"

definition abort_transaction :: "u64 \<Rightarrow> wal \<times> world \<Rightarrow> u64 \<times> wal \<times> world" where
  "abort_transaction txn = append_record abort_record txn '''' NO_PAGE_ID [] [] []"

definition checkpoint :: "u64 list \<Rightarrow> wal \<times> world \<Rightarrow> u64 \<times> wal \<times> world" where
  "checkpoint active = append_record checkpoint_record 0 '''' NO_PAGE_ID [] [] active"

definition log_create_table :: "u64 \<Rightarrow> string \<Rightarrow> string \<Rightarrow> wal \<times> world \<Rightarrow> u64 \<times> wal \<times> world" where
  "log_create_table txn table_dir schema_text =
     append_record create_table txn (lexically_normal table_dir) NO_PAGE_ID [] (map byte_of schema_text) []"

definition log_drop_table :: "u64 \<Rightarrow> string \<Rightarrow> wal \<times> world \<Rightarrow> u64 \<times> wal \<times> world" where
  "log_drop_table txn table_dir = append_record drop_table txn (lexically_normal table_dir) NO_PAGE_ID [] [] []"

definition log_schema_update :: "u64 \<Rightarrow> string \<Rightarrow> string \<Rightarrow> string \<Rightarrow> wal \<times> world \<Rightarrow> u64 \<times> wal \<times> world" where
  "log_schema_update txn table_dir before_text after_text =
     append_record schema_update txn (lexically_normal table_dir) NO_PAGE_ID (map byte_of before_text) (map byte_of after_text) []"

definition flush :: "wal \<times> world \<Rightarrow> bool \<times> wal \<times> world" where
  "flush = (\<lambda>(m, w).
     if \<not> wal_open m then (False, m, w)
     else case fdatasync_loop (wal_path m) w of (ok, w) \<Rightarrow>
       if \<not> ok then (False, m, w) else (True, m\<lparr>durable_lsn := last_lsn m\<rparr>, w))"

definition flush_through :: "u64 \<Rightarrow> wal \<times> world \<Rightarrow> bool \<times> wal \<times> world" where
  "flush_through lsn s = (if lsn \<le> durable_lsn (fst s) then (True, s) else flush s)"

definition wal_sync :: "wal \<times> world \<Rightarrow> bool \<times> wal \<times> world" where
  "wal_sync s = flush s"

definition max_lsn :: "u64 \<Rightarrow> WalRecord list \<Rightarrow> u64" where
  "max_lsn lsn records = fold (\<lambda>r m. if r_lsn r > m then r_lsn r else m) records lsn"

definition wal_new :: "string \<Rightarrow> world \<Rightarrow> (exn + wal) \<times> world" where
  "wal_new path w =
     (case open_create path w of (ok, w) \<Rightarrow>
        if \<not> ok then (Inl (Runtime_error (''could not open wal file: '' @ path)), w)
        else let m = \<lparr> wal_path = path, wal_open = True, last_lsn = 0, durable_lsn = 0 \<rparr> in
          case read_all_records path w of
            (None, w) \<Rightarrow> (Inr m, w)
          | (Some records, w) \<Rightarrow>
              let m = m\<lparr>last_lsn := max_lsn (last_lsn m) records\<rparr> in (Inr (m\<lparr>durable_lsn := last_lsn m\<rparr>), w))"

definition wal_close :: "wal \<times> world \<Rightarrow> wal \<times> world" where
  "wal_close s = (if wal_open (fst s) then case flush s of (_, m, w) \<Rightarrow> (m\<lparr>wal_open := False\<rparr>, w) else s)"

section \<open>Recovery and rollback\<close>

text \<open>One record of the redo pass; \<open>False\<close> makes \<^verbatim>\<open>recover\<close> return \<^verbatim>\<open>false\<close>.\<close>

definition redo_record :: "WalRecord \<Rightarrow> world \<Rightarrow> bool \<times> world" where
  "redo_record r w =
     (if r_type r = type_code page_update \<and> r_after r \<noteq> [] then write_page_image r (r_after r) (r_lsn r) w
      else if r_type r = type_code create_table then redo_create_table r w
      else if r_type r = type_code drop_table then redo_drop_table r w
      else if r_type r = type_code schema_update then write_schema_text (r_table_file r) (r_after r) w
      else (True, w))"

fun redo_all :: "(WalRecord \<Rightarrow> bool) \<Rightarrow> WalRecord list \<Rightarrow> world \<Rightarrow> bool \<times> world" where
  "redo_all known [] w = (True, w)"
| "redo_all known (r # rs) w =
     (if \<not> known r then redo_all known rs w
      else case redo_record r w of (ok, w) \<Rightarrow> if \<not> ok then (False, w) else redo_all known rs w)"

text \<open>One record of the undo passes of \<^verbatim>\<open>recover\<close> and \<^verbatim>\<open>rollback_transaction\<close>.\<close>

definition undo_record :: "WalRecord \<Rightarrow> wal \<times> world \<Rightarrow> bool \<times> wal \<times> world" where
  "undo_record r s =
     (if r_type r = type_code page_update \<and> r_before r \<noteq> [] then
        (case log_page_update (r_txn r) (r_table_file r) (r_page_id r)
                (page_from_image (r_after r)) (page_from_image (r_before r)) s of (lsn, m, w) \<Rightarrow>
           if lsn = 0 then (False, m, w)
           else case write_page_image r (r_before r) lsn w of (ok, w) \<Rightarrow> (ok, m, w))
      else if r_type r = type_code create_table then
        (case log_drop_table (r_txn r) (r_table_file r) s of (lsn, m, w) \<Rightarrow>
           if lsn = 0 then (False, m, w)
           else case redo_drop_table r w of (ok, w) \<Rightarrow> (ok, m, w))
      else if r_type r = type_code schema_update then
        (case log_schema_update (r_txn r) (r_table_file r) (map char_of_byte (r_after r)) (map char_of_byte (r_before r)) s of
           (lsn, m, w) \<Rightarrow>
           if lsn = 0 then (False, m, w)
           else case write_schema_text (r_table_file r) (r_before r) w of (ok, w) \<Rightarrow> (ok, m, w))
      else (True, s))"

text \<open>The list is the log in reverse order.\<close>

fun undo_all :: "(WalRecord \<Rightarrow> bool) \<Rightarrow> WalRecord list \<Rightarrow> wal \<times> world \<Rightarrow> bool \<times> wal \<times> world" where
  "undo_all loser [] s = (True, s)"
| "undo_all loser (r # rs) s =
     (if \<not> loser r then undo_all loser rs s
      else case undo_record r s of (ok, s) \<Rightarrow> if \<not> ok then (False, s) else undo_all loser rs s)"

fun abort_all :: "u64 list \<Rightarrow> wal \<times> world \<Rightarrow> bool \<times> wal \<times> world" where
  "abort_all [] s = (True, s)"
| "abort_all (t # ts) s =
     (case abort_transaction t s of (lsn, s) \<Rightarrow> if lsn = 0 then (False, s) else abort_all ts s)"

definition txns_of :: "WalRecordType \<Rightarrow> WalRecord list \<Rightarrow> u64 list" where
  "txns_of ty records = map r_txn (filter (\<lambda>r. r_type r = type_code ty) records)"

text \<open>The set \<^verbatim>\<open>losers\<close>, iterated in increasing order.\<close>

definition losers :: "WalRecord list \<Rightarrow> u64 list" where
  "losers records =
     (let committed = txns_of commit_record records; aborted = txns_of abort_record records
      in filter (\<lambda>t. t \<notin> set committed \<and> t \<notin> set aborted) (sort (remdups (txns_of begin_record records))))"

definition recover :: "wal \<times> world \<Rightarrow> bool \<times> wal \<times> world" where
  "recover = (\<lambda>(m, w).
     if \<not> wal_open m then (False, m, w)
     else case read_all_records (wal_path m) w of
       (None, w) \<Rightarrow> (False, m, w)
     | (Some records, w) \<Rightarrow>
       let committed = txns_of commit_record records;
           aborted = txns_of abort_record records;
           m = m\<lparr>last_lsn := max_lsn (last_lsn m) records\<rparr>;
           lost = losers records;
           known = (\<lambda>r. \<not> (r_txn r \<noteq> 0 \<and> r_txn r \<notin> set committed \<and> r_txn r \<notin> set aborted \<and> r_txn r \<notin> set lost))
       in case redo_all known records w of (ok, w) \<Rightarrow>
          if \<not> ok then (False, m, w)
          else case undo_all (\<lambda>r. r_txn r \<in> set lost) (rev records) (m, w) of (ok, s) \<Rightarrow>
            if \<not> ok then (False, s)
            else case abort_all lost s of (ok, s) \<Rightarrow>
              if \<not> ok then (False, s) else flush s)"

definition rollback_transaction :: "u64 \<Rightarrow> wal \<times> world \<Rightarrow> bool \<times> wal \<times> world" where
  "rollback_transaction txn = (\<lambda>(m, w).
     if \<not> wal_open m \<or> txn = 0 then (False, m, w)
     else case read_all_records (wal_path m) w of
       (None, w) \<Rightarrow> (False, m, w)
     | (Some records, w) \<Rightarrow>
       case undo_all (\<lambda>r. r_txn r = txn) (rev records) (m, w) of (ok, s) \<Rightarrow>
         if \<not> ok then (False, s)
         else case abort_transaction txn s of (lsn, s) \<Rightarrow>
           if lsn = 0 then (False, s) else flush s)"

section \<open>The bytes of a record\<close>

lemma fold_append_map: "fold (\<lambda>i out. out @ [f i]) xs out = out @ map f xs"
  by (induction xs arbitrary: out) simp_all

lemma append_uint_le:
  "append_uint16 out v2 = out @ le_bytes 2 v2" "append_uint32 out v4 = out @ le_bytes 4 v4" "append_uint64 out v8 = out @ le_bytes 8 v8"
  by (simp_all only: append_uint16_def append_uint32_def append_uint64_def fold_append_map le_bytes_def [of 4] le_bytes_def [of 8] le_bytes_2) simp

lemma wal_read_le:
  "wal_read_uint16 d p = le_read 2 d p" "wal_read_uint32 d p = le_read 4 d p" "wal_read_uint64 d p = le_read 8 d p"
  by (simp_all add: wal_read_uint16_def wal_read_uint32_def wal_read_uint64_def le_read_2 le_read_def [of 4] le_read_def [of 8])

definition enc_header :: "WalRecord \<Rightarrow> bytes" where
  "enc_header r = le_bytes 4 WAL_MAGIC @ le_bytes 2 (r_type r) @ le_bytes 8 (r_lsn r) @ le_bytes 8 (r_txn r) @
     le_bytes 4 (r_page_id r) @ le_bytes 4 (of_nat (length (r_table_file r)) :: u32) @ le_bytes 4 (of_nat (length (r_before r)) :: u32) @
     le_bytes 4 (of_nat (length (r_after r)) :: u32) @ le_bytes 4 (of_nat (length (r_active r)) :: u32)"

definition enc_body :: "WalRecord \<Rightarrow> bytes" where
  "enc_body r = map byte_of (r_table_file r) @ r_before r @ r_after r @ concat (map (le_bytes 8) (r_active r))"

lemma encode_record_split: "encode_record r = enc_header r @ enc_body r"
proof -
  have "fold (\<lambda>t out. append_uint64 out t) ts out = out @ concat (map (le_bytes 8) ts)" for ts out
    by (induction ts arbitrary: out) (simp_all add: append_uint_le)
  then show ?thesis by (simp add: encode_record_def append_uint_le Let_def enc_header_def enc_body_def)
qed

lemma length_enc_header [simp]: "length (enc_header r) = 42"
  by (simp add: enc_header_def)

lemma length_enc_body:
  "length (enc_body r) = length (r_table_file r) + length (r_before r) + length (r_after r) + 8 * length (r_active r)"
proof -
  have "length (concat (map (le_bytes 8) ts)) = 8 * length ts" for ts :: "u64 list" by (induction ts) simp_all
  then show ?thesis by (simp add: enc_body_def)
qed

text \<open>The sizes fit the 32-bit fields of the header.\<close>

definition record_ok :: "WalRecord \<Rightarrow> bool" where
  "record_ok r \<longleftrightarrow> length (r_table_file r) < 2 ^ 32 \<and> length (r_before r) < 2 ^ 32 \<and> length (r_after r) < 2 ^ 32 \<and> length (r_active r) < 2 ^ 32"

lemma le_read_field:
  assumes "length a = p" "LENGTH('a::len) \<le> n * 8"
  shows "le_read n (a @ le_bytes n v @ b) p = (v :: 'a word)"
proof -
  have "le_read n (a @ le_bytes n v @ b) p = (le_read n (le_bytes n v) 0 :: 'a word)"
    using assms(1) by (intro le_read_cong) (simp add: nth_append)
  with assms(2) show ?thesis by simp
qed

lemma enc_header_fields:
  "wal_read_uint32 (enc_header r) 0 = WAL_MAGIC" "wal_read_uint16 (enc_header r) 4 = r_type r"
  "wal_read_uint64 (enc_header r) 6 = r_lsn r" "wal_read_uint64 (enc_header r) 14 = r_txn r"
  "wal_read_uint32 (enc_header r) 22 = r_page_id r" "wal_read_uint32 (enc_header r) 26 = of_nat (length (r_table_file r))"
  "wal_read_uint32 (enc_header r) 30 = of_nat (length (r_before r))" "wal_read_uint32 (enc_header r) 34 = of_nat (length (r_after r))"
  "wal_read_uint32 (enc_header r) 38 = of_nat (length (r_active r))"
proof -
  let ?m = "le_bytes 4 WAL_MAGIC" and ?t = "le_bytes 2 (r_type r)" and ?l = "le_bytes 8 (r_lsn r)" and ?x = "le_bytes 8 (r_txn r)"
    and ?p = "le_bytes 4 (r_page_id r)" and ?f = "le_bytes 4 (of_nat (length (r_table_file r)) :: u32)"
    and ?b = "le_bytes 4 (of_nat (length (r_before r)) :: u32)" and ?a = "le_bytes 4 (of_nat (length (r_after r)) :: u32)"
    and ?c = "le_bytes 4 (of_nat (length (r_active r)) :: u32)"
  note field = le_read_field [where n = 4 and 'a = 32, simplified] le_read_field [where n = 8 and 'a = 64, simplified] le_read_field [where n = 2 and 'a = 16, simplified]
  note header = enc_header_def wal_read_le
  show "wal_read_uint32 (enc_header r) 0 = WAL_MAGIC"
    using field(1) [of "[]" 0 WAL_MAGIC] by (simp add: header)
  show "wal_read_uint16 (enc_header r) 4 = r_type r" using field(3) [of ?m 4 "r_type r"] by (simp add: header)
  show "wal_read_uint64 (enc_header r) 6 = r_lsn r" using field(2) [of "?m @ ?t" 6 "r_lsn r"] by (simp add: header)
  show "wal_read_uint64 (enc_header r) 14 = r_txn r" using field(2) [of "?m @ ?t @ ?l" 14 "r_txn r"] by (simp add: header)
  show "wal_read_uint32 (enc_header r) 22 = r_page_id r" using field(1) [of "?m @ ?t @ ?l @ ?x" 22 "r_page_id r"] by (simp add: header)
  show "wal_read_uint32 (enc_header r) 26 = of_nat (length (r_table_file r))"
    using field(1) [of "?m @ ?t @ ?l @ ?x @ ?p" 26 "of_nat (length (r_table_file r))"] by (simp add: header)
  show "wal_read_uint32 (enc_header r) 30 = of_nat (length (r_before r))"
    using field(1) [of "?m @ ?t @ ?l @ ?x @ ?p @ ?f" 30 "of_nat (length (r_before r))"] by (simp add: header)
  show "wal_read_uint32 (enc_header r) 34 = of_nat (length (r_after r))"
    using field(1) [of "?m @ ?t @ ?l @ ?x @ ?p @ ?f @ ?b" 34 "of_nat (length (r_after r))"] by (simp add: header)
  show "wal_read_uint32 (enc_header r) 38 = of_nat (length (r_active r))"
    using field(1) [of "?m @ ?t @ ?l @ ?x @ ?p @ ?f @ ?b @ ?a" 38 "of_nat (length (r_active r))" "[]"] by (simp add: header)
qed

lemma unat_of_nat_u32 [simp]: "n < 2 ^ 32 \<Longrightarrow> unat (of_nat n :: u32) = n"
  by (simp add: unat_of_nat take_bit_nat_eq_self)

lemma body_size_header: "record_ok r \<Longrightarrow> body_size (enc_header r) = length (enc_body r)"
  by (simp add: body_size_def enc_header_fields record_ok_def length_enc_body)

lemma read_active:
  "map (\<lambda>i. le_read 8 (a @ concat (map (le_bytes 8) ts)) (length a + 8 * i)) [0..<length ts] = (ts :: u64 list)"
proof (induction ts arbitrary: a)
  case (Cons t ts)
  have "le_read 8 (a @ le_bytes 8 t @ concat (map (le_bytes 8) ts)) (length a) = t" by (rule le_read_field) simp_all
  moreover have "map (\<lambda>i. le_read 8 ((a @ le_bytes 8 t) @ concat (map (le_bytes 8) ts)) (length (a @ le_bytes 8 t) + 8 * i)) [0..<length ts] = ts"
    by (rule Cons.IH)
  ultimately show ?case by (simp add: upt_conv_Cons map_Suc_upt [symmetric] comp_def add.assoc del: upt_Suc)
qed simp

lemma decode_encode: "record_ok r \<Longrightarrow> decode_record (enc_header r) (enc_body r) = r"
proof -
  assume ok: "record_ok r"
  let ?a = "map byte_of (r_table_file r) @ r_before r @ r_after r"
  have "map (\<lambda>i. wal_read_uint64 (enc_body r) (length (r_table_file r) + length (r_before r) + length (r_after r) + 8 * i)) [0..<length (r_active r)] = r_active r"
    using read_active [of ?a "r_active r"] by (simp add: enc_body_def wal_read_le add.assoc)
  then show ?thesis
    using ok by (simp add: decode_record_def enc_header_fields record_ok_def Let_def) (simp add: enc_body_def get_bytes_def)
qed

section \<open>What a log file says\<close>

text \<open>The records in a byte string, as \<^verbatim>\<open>read_all_records\<close> finds them; \<open>None\<close> where it gives up.\<close>

function parse_log :: "bytes \<Rightarrow> WalRecord list option" where
  "parse_log d =
     (if length d < 42 then Some []
      else let hdr = take 42 d; n = body_size hdr in
        if wal_read_uint32 hdr 0 \<noteq> WAL_MAGIC then None
        else if length d < 42 + n then Some []
        else map_option (Cons (decode_record hdr (take n (drop 42 d)))) (parse_log (drop (42 + n) d)))"
  by pat_completeness auto
termination
  by (relation "measure length") auto

declare parse_log.simps [simp del]

lemma parse_log_encode:
  assumes "record_ok r"
  shows "parse_log (encode_record r @ d) = map_option (Cons r) (parse_log d)"
  using assms body_size_header [OF assms] decode_encode [OF assms]
  by (subst parse_log.simps) (simp add: encode_record_split enc_header_fields Let_def)

lemma parse_log_encode_all:
  "list_all record_ok rs \<Longrightarrow> parse_log (concat (map encode_record rs) @ d) = map_option ((@) rs) (parse_log d)"
  by (induction rs; cases "parse_log d") (simp_all add: parse_log_encode)

lemma parse_log_torn:
  assumes "record_ok r" "k < length (encode_record r)"
  shows "parse_log (take k (encode_record r)) = Some []"
proof (cases "k < 42")
  case False
  then have "take k (encode_record r) = enc_header r @ take (k - 42) (enc_body r)" by (simp add: encode_record_split)
  moreover have "k - 42 < length (enc_body r)" using assms(2) False by (simp add: encode_record_split)
  ultimately show ?thesis using body_size_header [OF assms(1)] by (simp add: parse_log.simps enc_header_fields Let_def)
next
  case True
  then have "length (take k (encode_record r)) < 42" by simp
  then show ?thesis by (subst parse_log.simps) (simp only: if_True)
qed

text \<open>Any prefix of a log, as a crash may leave it, reads as the records it has completely.\<close>

lemma parse_log_prefix:
  assumes "list_all record_ok rs" "n \<le> length (concat (map encode_record rs))"
  shows "\<exists>k\<le>length rs. parse_log (take n (concat (map encode_record rs))) = Some (take k rs) \<and>
    (\<forall>j\<le>length rs. length (concat (map encode_record (take j rs))) \<le> n \<longrightarrow> j \<le> k)"
  using assms
proof (induction rs arbitrary: n)
  case Nil then show ?case by (simp add: parse_log.simps)
next
  case (Cons r rs)
  have ok: "record_ok r" "list_all record_ok rs" using Cons.prems(1) by simp_all
  show ?case
  proof (cases "n < length (encode_record r)")
    case True
    then have "take n (concat (map encode_record (r # rs))) = take n (encode_record r)" by simp
    then show ?thesis using parse_log_torn [OF ok(1) True] True
      by (intro exI [of _ 0]) (auto simp: take_Cons' split: if_splits)
  next
    case False
    then have "n - length (encode_record r) \<le> length (concat (map encode_record rs))" using Cons.prems(2) by simp
    from Cons.IH [OF ok(2) this] obtain k where k: "k \<le> length rs"
      "parse_log (take (n - length (encode_record r)) (concat (map encode_record rs))) = Some (take k rs)"
      "\<forall>j\<le>length rs. length (concat (map encode_record (take j rs))) \<le> n - length (encode_record r) \<longrightarrow> j \<le> k" by blast
    have "take n (concat (map encode_record (r # rs))) =
        encode_record r @ take (n - length (encode_record r)) (concat (map encode_record rs))" using False by simp
    then have "parse_log (take n (concat (map encode_record (r # rs)))) = Some (take (Suc k) (r # rs))"
      using k(2) by (simp add: parse_log_encode [OF ok(1)])
    moreover have "j \<le> Suc k" if "j \<le> length (r # rs)" "length (concat (map encode_record (take j (r # rs)))) \<le> n" for j
      using that k(3) by (cases j) auto
    ultimately show ?thesis using k(1) by (intro exI [of _ "Suc k"]) auto
  qed
qed

lemma read_records_loop_parse:
  assumes "read_records_loop p (length (contents w p)) off recs w = (res, w')" "off \<le> length (contents w p)"
  shows "same_data w w' \<and>
    (\<forall>rs. res = Some rs \<longrightarrow> map_option ((@) recs) (parse_log (drop off (contents w p))) = Some rs) \<and>
    (calm w \<longrightarrow> res = map_option ((@) recs) (parse_log (drop off (contents w p))) \<and> calm w')"
  using assms
proof (induction "length (contents w p) - off" arbitrary: off recs w rule: less_induct)
  case less
  let ?d = "contents w p"
  show ?case
  proof (cases "off + HEADER_SIZE \<le> length ?d")
    case False
    then show ?thesis using less.prems by (auto simp: read_records_loop.simps HEADER_SIZE_def parse_log.simps)
  next
    case True
    obtain h w1 where h: "full_read_at p [] HEADER_SIZE off w = (h, w1)" by (cases "full_read_at p [] HEADER_SIZE off w")
    note hr = full_read_at_result [OF h] and hc = full_read_at_calm [of w off HEADER_SIZE p "[]"]
    show ?thesis
    proof (cases h)
      case None
      then show ?thesis using less.prems(1) True h hr hc by (auto simp: read_records_loop.simps)
    next
      case (Some hdr)
      then have hdr: "hdr = take 42 (drop off ?d)" "same_data w w1" "contents w1 p = ?d" "calm w \<Longrightarrow> calm w1"
        using hr hc h True by (auto simp: HEADER_SIZE_def get_bytes_def same_data_contents)
      have parse: "parse_log (drop off ?d) =
        (if wal_read_uint32 hdr 0 \<noteq> WAL_MAGIC then None
         else if length ?d < off + 42 + body_size hdr then Some []
         else map_option (Cons (decode_record hdr (get_bytes ?d (off + 42) (body_size hdr)))) (parse_log (drop (off + 42 + body_size hdr) ?d)))"
        using True by (subst parse_log.simps) (auto simp: hdr(1) HEADER_SIZE_def Let_def get_bytes_def add_ac)
      consider "wal_read_uint32 hdr 0 \<noteq> WAL_MAGIC" | "wal_read_uint32 hdr 0 = WAL_MAGIC" "length ?d < off + 42 + body_size hdr"
        | "wal_read_uint32 hdr 0 = WAL_MAGIC" "off + 42 + body_size hdr \<le> length ?d" by linarith
      then show ?thesis
      proof cases
        case 1 then show ?thesis using less.prems(1) True h Some hdr parse by (auto simp: read_records_loop.simps)
      next
        case 2 then show ?thesis using less.prems(1) True h Some hdr parse by (auto simp: read_records_loop.simps HEADER_SIZE_def)
      next
        case 3
        obtain b w2 where b: "full_read_at p [] (body_size hdr) (off + HEADER_SIZE) w1 = (b, w2)"
          by (cases "full_read_at p [] (body_size hdr) (off + HEADER_SIZE) w1")
        note br = full_read_at_result [OF b] and bc = full_read_at_calm [of w1 "off + HEADER_SIZE" "body_size hdr" p "[]"]
        show ?thesis
        proof (cases b)
          case None
          then show ?thesis using less.prems(1) True h Some hdr 3 b br bc
            by (auto simp: read_records_loop.simps [of p _ off] HEADER_SIZE_def same_data_def)
        next
          case (Some body)
          then have body: "body = get_bytes ?d (off + 42) (body_size hdr)" "same_data w w2" "calm w1 \<Longrightarrow> calm w2"
            using br bc b hdr 3 by (auto simp: HEADER_SIZE_def same_data_def)
          have d2: "contents w2 p = ?d" using body(2) by (rule same_data_contents)
          have rec: "read_records_loop p (length (contents w2 p)) (off + 42 + body_size hdr) (recs @ [decode_record hdr body]) w2 = (res, w')"
            using less.prems(1) True h \<open>h = Some hdr\<close> 3 b Some d2
            by (simp add: read_records_loop.simps [of p _ off] HEADER_SIZE_def)
          have ih: "same_data w2 w' \<and>
            (\<forall>rs. res = Some rs \<longrightarrow> map_option ((@) (recs @ [decode_record hdr body])) (parse_log (drop (off + 42 + body_size hdr) (contents w2 p))) = Some rs) \<and>
            (calm w2 \<longrightarrow> res = map_option ((@) (recs @ [decode_record hdr body])) (parse_log (drop (off + 42 + body_size hdr) (contents w2 p))) \<and> calm w')"
            by (rule less.hyps [OF _ rec]) (use True 3 d2 in \<open>auto simp: HEADER_SIZE_def\<close>)
          have "map_option ((@) recs) (parse_log (drop off ?d)) =
              map_option ((@) (recs @ [decode_record hdr body])) (parse_log (drop (off + 42 + body_size hdr) ?d))"
            using 3 parse body(1) by (cases "parse_log (drop (off + 42 + body_size hdr) ?d)") simp_all
          then show ?thesis using ih body(2,3) hdr(4) unfolding d2 by (auto simp: same_data_def)
        qed
      qed
    qed
  qed
qed

lemma read_all_records_parse:
  assumes "read_all_records p w = (res, w')"
  shows "same_data w w'" "res = Some rs \<Longrightarrow> parse_log (contents w p) = Some rs"
    "calm w \<Longrightarrow> Io_eintr \<notin> set (w_script w) \<Longrightarrow> res = parse_log (contents w p) \<and> calm w'"
proof -
  obtain r w1 where n: "next_outcome w = (r, w1)" by (cases "next_outcome w")
  note s = next_outcome_same [OF n]
  have id: "map_option ((@) []) x = x" for x :: "'a list option" by (cases x) simp_all
  have r: "Io_eintr \<notin> set (w_script w) \<Longrightarrow> r \<noteq> Io_eintr" using n by (auto simp: next_outcome_def split: list.splits)
  have c: "contents w1 p = contents w p" using s by (rule same_data_contents)
  show "same_data w w'" "res = Some rs \<Longrightarrow> parse_log (contents w p) = Some rs"
    "calm w \<Longrightarrow> Io_eintr \<notin> set (w_script w) \<Longrightarrow> res = parse_log (contents w p) \<and> calm w'"
  proof (atomize (full), cases "r = Io_error \<or> r = Io_eintr")
    case True
    then have "res = None" "w' = w1" using assms n by (auto simp: read_all_records_def)
    then show "same_data w w' \<and> (res = Some rs \<longrightarrow> parse_log (contents w p) = Some rs) \<and>
        (calm w \<longrightarrow> Io_eintr \<notin> set (w_script w) \<longrightarrow> res = parse_log (contents w p) \<and> calm w')"
      using s True r calm_next [of w r w1] n by auto
  next
    case False
    then have "read_records_loop p (length (contents w1 p)) 0 [] w1 = (res, w')" using assms n by (simp add: read_all_records_def)
    from read_records_loop_parse [OF this, unfolded drop_0 id c]
    have "same_data w1 w'" "\<And>rs. res = Some rs \<Longrightarrow> parse_log (contents w p) = Some rs" "calm w1 \<Longrightarrow> res = parse_log (contents w p) \<and> calm w'"
      by blast+
    then show "same_data w w' \<and> (res = Some rs \<longrightarrow> parse_log (contents w p) = Some rs) \<and>
        (calm w \<longrightarrow> Io_eintr \<notin> set (w_script w) \<longrightarrow> res = parse_log (contents w p) \<and> calm w')"
      using same_data_trans [OF s] calm_next [of w r w1] n by blast
  qed
qed

end
