(* ===== verification/Wal_Log.thy ===== *)
theory Wal_Log
  imports Wal
begin

text \<open>
  The life of a log: the invariant that relates a \<^verbatim>\<open>WalManager\<close> and its file to the list of records
  appended so far, kept by every append and flush whatever partial transfers and
  interruptions occur, and what a crash leaves of it.
\<close>

section \<open>The invariant\<close>

definition log_bytes :: "WalRecord list \<Rightarrow> bytes" where
  "log_bytes recs = concat (map encode_record recs)"

lemma log_bytes_simps [simp]:
  "log_bytes [] = []" "log_bytes (r # rs) = encode_record r @ log_bytes rs" "log_bytes (rs @ rs') = log_bytes rs @ log_bytes rs'"
  by (simp_all add: log_bytes_def)

text \<open>
  \<open>log_is s recs\<close>: the file of the open manager holds exactly \<open>recs\<close>, with increasing log sequence
  numbers up to \<open>last_lsn\<close>, and the records up to \<open>durable_lsn\<close> lie in the synced prefix.
\<close>

definition log_is :: "wal \<times> world \<Rightarrow> WalRecord list \<Rightarrow> bool" where
  "log_is = (\<lambda>(m, w) recs.
     wal_open m \<and> contents w (wal_path m) = log_bytes recs \<and> list_all record_ok recs \<and>
     sorted_wrt (\<lambda>a b. r_lsn a < r_lsn b) recs \<and> (\<forall>r\<in>set recs. r_lsn r \<le> last_lsn m) \<and>
     durable_lsn m \<le> last_lsn m \<and> w_synced w (wal_path m) \<le> length (log_bytes recs) \<and>
     (\<forall>j<length recs. r_lsn (recs ! j) \<le> durable_lsn m \<longrightarrow> length (log_bytes (take (Suc j) recs)) \<le> w_synced w (wal_path m)))"

definition record_of :: "WalRecordType \<Rightarrow> u64 \<Rightarrow> string \<Rightarrow> u32 \<Rightarrow> bytes \<Rightarrow> bytes \<Rightarrow> u64 list \<Rightarrow> u64 \<Rightarrow> WalRecord" where
  "record_of ty txn f i b a act lsn = \<lparr> r_type = type_code ty, r_lsn = lsn, r_txn = txn, r_page_id = i, r_table_file = f,
     r_before = b, r_after = a, r_active = act \<rparr>"

lemma encode_not_empty [simp]: "encode_record r \<noteq> []"
  by (simp add: encode_record_split enc_header_def le_bytes_def)

lemma append_record_cases:
  assumes "append_record ty txn f i b a act (m, w) = (lsn, m', w')" "wal_open m"
  defines "r \<equiv> record_of ty txn f i b a act (last_lsn m + 1)"
  obtains (logged) "lsn = last_lsn m + 1" "m' = m\<lparr>last_lsn := lsn\<rparr>" "same_except (wal_path m) w w'"
      "contents w' (wal_path m) = contents w (wal_path m) @ encode_record r"
    | (failed) k where "lsn = 0" "m' = m" "same_except (wal_path m) w w'" "k < length (encode_record r)"
      "contents w' (wal_path m) = contents w (wal_path m) @ take k (encode_record r)"
proof -
  obtain ok w1 where fa: "full_append (wal_path m) (encode_record r) w = (ok, w1)" by (cases "full_append (wal_path m) (encode_record r) w")
  have res: "w' = w1" "ok \<Longrightarrow> lsn = last_lsn m + 1 \<and> m' = m\<lparr>last_lsn := lsn\<rparr>" "\<not> ok \<Longrightarrow> lsn = 0 \<and> m' = m"
    using assms(1,2) fa by (auto simp: append_record_def r_def record_of_def Let_def split: if_splits)
  from full_append_result [OF fa] obtain k where k: "same_except (wal_path m) w w1" "k \<le> length (encode_record r)"
    "contents w1 (wal_path m) = contents w (wal_path m) @ take k (encode_record r)" "ok \<longleftrightarrow> k = length (encode_record r)" by blast
  show thesis
  proof (cases ok)
    case True then show thesis using res k logged by simp
  next
    case False then show thesis using res k failed [of k] by simp
  qed
qed

lemma append_record_frame:
  assumes "append_record ty txn f i b a act (m, w) = (lsn, m', w')"
  shows "wal_path m' = wal_path m" "g \<noteq> wal_path m \<Longrightarrow> contents w' g = contents w g" "wal_open m' = wal_open m"
    "g \<noteq> wal_path m \<Longrightarrow> w_files w' g = w_files w g"
proof -
  obtain ok w1 where fa: "full_append (wal_path m) (encode_record (record_of ty txn f i b a act (last_lsn m + 1))) w = (ok, w1)"
    by (cases "full_append (wal_path m) (encode_record (record_of ty txn f i b a act (last_lsn m + 1))) w")
  have s: "same_except (wal_path m) w w1" using full_append_result [OF fa] by blast
  show "wal_path m' = wal_path m" "g \<noteq> wal_path m \<Longrightarrow> contents w' g = contents w g" "wal_open m' = wal_open m"
    using assms fa same_except_contents [OF s] by (auto simp: append_record_def record_of_def Let_def split: if_splits)
  show "g \<noteq> wal_path m \<Longrightarrow> w_files w' g = w_files w g"
    using assms fa s by (auto simp: append_record_def record_of_def Let_def same_except_def split: if_splits)
qed

lemma log_is_append:
  assumes inv: "log_is (m, w) recs" and app: "append_record ty txn f i b a act (m, w) = (lsn, m', w')" "lsn \<noteq> 0"
    and ok: "record_ok (record_of ty txn f i b a act lsn)"
  shows "log_is (m', w') (recs @ [record_of ty txn f i b a act lsn])"
proof -
  note I = inv [unfolded log_is_def, simplified]
  from app(1) show ?thesis
  proof (rule append_record_cases)
    show "wal_open m" using I by simp
  next
    assume r: "lsn = last_lsn m + 1" "m' = m\<lparr>last_lsn := lsn\<rparr>" "same_except (wal_path m) w w'"
      "contents w' (wal_path m) = contents w (wal_path m) @ encode_record (record_of ty txn f i b a act (last_lsn m + 1))"
    have lt: "last_lsn m < lsn"
      using app(2) r(1) by (simp add: word_less_nat_alt unatSuc add.commute [of _ "1 :: u64"])
    have nth: "(recs @ [x]) ! j = (if j < length recs then recs ! j else x)" "take (Suc j) (recs @ [x]) = (if j < length recs then take (Suc j) recs else recs @ [x])"
      if "j < Suc (length recs)" for x j using that by (auto simp: nth_append)
    have synced: "w_synced w' = w_synced w" using r(3) by (simp add: same_except_def)
    have "r_lsn (record_of ty txn f i b a act lsn) = lsn" by (simp add: record_of_def)
    moreover have "\<not> lsn \<le> durable_lsn m" using I lt by auto
    ultimately show ?thesis using I lt r ok nth synced by (auto simp: log_is_def sorted_wrt_append less_le_trans)
  next
    fix k assume "lsn = 0" with app(2) show ?thesis by simp
  qed
qed

lemma log_is_flush:
  assumes "log_is (m, w) recs" "flush (m, w) = (ok, m', w')"
  shows "log_is (m', w') recs" "ok \<Longrightarrow> durable_lsn m' = last_lsn m'" "last_lsn m' = last_lsn m"
proof -
  note I = assms(1) [unfolded log_is_def, simplified]
  obtain okf w1 where f: "fdatasync_loop (wal_path m) w = (okf, w1)" by (cases "fdatasync_loop (wal_path m) w")
  have r: "ok = okf" "w' = w1" "m' = (if okf then m\<lparr>durable_lsn := last_lsn m\<rparr> else m)"
    using assms(2) f I by (auto simp: flush_def split: if_splits)
  note fr = fdatasync_loop_result [OF f]
  have c: "contents w' (wal_path m) = contents w (wal_path m)" using fr r by (simp add: contents_def)
  have pre: "length (log_bytes (take j recs)) \<le> length (log_bytes recs)" for j
    using log_bytes_simps(3) [of "take j recs" "drop j recs"] by simp
  show "log_is (m', w') recs" using I r fr c pre by (auto simp: log_is_def split: if_splits)
  show "ok \<Longrightarrow> durable_lsn m' = last_lsn m'" "last_lsn m' = last_lsn m" using r by simp_all
qed

text \<open>A new manager on a log that was closed or survived a crash.\<close>

lemma max_lsn_ge: "lsn \<le> max_lsn lsn recs \<and> (\<forall>r\<in>set recs. r_lsn r \<le> max_lsn lsn recs)"
proof (induction recs arbitrary: lsn)
  case (Cons r rs)
  let ?l = "if r_lsn r > lsn then r_lsn r else lsn"
  have "max_lsn lsn (r # rs) = max_lsn ?l rs" "lsn \<le> ?l" "r_lsn r \<le> ?l" by (auto simp: max_lsn_def)
  with Cons.IH [of ?l] show ?case by (auto intro: order_trans)
qed (simp add: max_lsn_def)

lemma max_lsn_in: "max_lsn lsn recs = lsn \<or> max_lsn lsn recs \<in> r_lsn ` set recs"
proof (induction recs arbitrary: lsn)
  case (Cons r rs) then show ?case using Cons.IH [of "if r_lsn r > lsn then r_lsn r else lsn"] by (auto simp: max_lsn_def)
qed (simp add: max_lsn_def)

section \<open>Runs\<close>

text \<open>
  The steps of a manager that is never refused a write: appending a record, flushing (which may
  fail), and anything the rest of the system does to other files.
\<close>

inductive wal_step :: "wal \<times> world \<Rightarrow> wal \<times> world \<Rightarrow> bool" where
  step_append: "append_record ty txn f i b a act s = (lsn, s') \<Longrightarrow> lsn \<noteq> 0 \<Longrightarrow> record_ok (record_of ty txn f i b a act lsn) \<Longrightarrow> wal_step s s'"
| step_flush: "flush s = (ok, s') \<Longrightarrow> wal_step s s'"
| step_other: "contents w' (wal_path m) = contents w (wal_path m) \<Longrightarrow> w_synced w' (wal_path m) = w_synced w (wal_path m) \<Longrightarrow>
    wal_step (m, w) (m, w')"

inductive_cases wal_stepE: "wal_step s s'"

lemma wal_step_log:
  assumes "wal_step s s'" "log_is s recs"
  shows "\<exists>recs'. log_is s' (recs @ recs') \<and> durable_lsn (fst s) \<le> durable_lsn (fst s')"
  using assms
proof (induction rule: wal_step.induct)
  case (step_append ty txn f i b a act s lsn s')
  obtain m w m' w' where s: "s = (m, w)" "s' = (m', w')" by (cases s, cases s')
  have "log_is s' (recs @ [record_of ty txn f i b a act lsn])"
    using step_append log_is_append [of m w recs ty txn f i b a act lsn m' w'] by (simp add: s)
  moreover have "durable_lsn m' = durable_lsn m"
    using step_append(1) by (auto simp: s append_record_def Let_def split: if_splits prod.splits)
  ultimately show ?case by (auto simp: s)
next
  case (step_flush s ok s')
  obtain m w m' w' where s: "s = (m, w)" "s' = (m', w')" by (cases s, cases s')
  have "log_is s' (recs @ [])" using log_is_flush(1) [of m w recs ok m' w'] step_flush by (simp add: s)
  moreover have "durable_lsn m \<le> durable_lsn m'"
    using step_flush by (auto simp: s flush_def log_is_def split: if_splits prod.splits)
  ultimately show ?case by (metis fst_conv s)
next
  case (step_other w' m w)
  then show ?case by (intro exI [of _ "[]"]) (auto simp: log_is_def)
qed

lemma wal_steps_log:
  assumes "wal_step\<^sup>*\<^sup>* s s'" "log_is s recs"
  shows "\<exists>recs'. log_is s' (recs @ recs') \<and> durable_lsn (fst s) \<le> durable_lsn (fst s')"
  using assms
proof (induction rule: rtranclp_induct)
  case base then show ?case by (intro exI [of _ "[]"]) simp
next
  case (step t u)
  then obtain r1 where r1: "log_is t (recs @ r1)" "durable_lsn (fst s) \<le> durable_lsn (fst t)" by blast
  from wal_step_log [OF step.hyps(2) r1(1)] obtain r2 where "log_is u ((recs @ r1) @ r2)" "durable_lsn (fst t) \<le> durable_lsn (fst u)" by blast
  then show ?case using r1(2) by (intro exI [of _ "r1 @ r2"]) (auto intro: order_trans)
qed

text \<open>A crash keeps the synced prefix of the log and any part of the rest.\<close>

lemma log_after_crash:
  assumes "log_is (m, w) recs" "w_synced w (wal_path m) \<le> n" "n \<le> length (contents w (wal_path m))"
  shows "\<exists>k\<le>length recs. parse_log (take n (contents w (wal_path m))) = Some (take k recs) \<and>
    (\<forall>r\<in>set recs. r_lsn r \<le> durable_lsn m \<longrightarrow> r \<in> set (take k recs))"
proof -
  note I = assms(1) [unfolded log_is_def, simplified]
  have "n \<le> length (concat (map encode_record recs))" using assms(3) I by (simp add: log_bytes_def)
  from parse_log_prefix [OF _ this] I obtain k where k: "k \<le> length recs"
    "parse_log (take n (contents w (wal_path m))) = Some (take k recs)"
    "\<forall>j\<le>length recs. length (log_bytes (take j recs)) \<le> n \<longrightarrow> j \<le> k" by (auto simp: log_bytes_def)
  have "r \<in> set (take k recs)" if r: "r \<in> set recs" "r_lsn r \<le> durable_lsn m" for r
  proof -
    obtain j where j: "j < length recs" "recs ! j = r" using r(1) by (auto simp: in_set_conv_nth)
    then have "length (log_bytes (take (Suc j) recs)) \<le> n" using I r(2) assms(2) by (meson order_trans)
    then have "Suc j \<le> k" using k(3) [rule_format, of "Suc j"] j(1) by simp
    then show ?thesis using j by (auto simp: in_set_conv_nth intro!: exI [of _ j])
  qed
  then show ?thesis using k by blast
qed

lemma log_is_parse: "log_is (m, w) recs \<Longrightarrow> parse_log (contents w (wal_path m)) = Some recs"
  using parse_log_encode_all [of recs "[]"] by (simp add: log_is_def log_bytes_def parse_log.simps)

lemma parse_log_torn_tail:
  assumes "list_all record_ok recs" "record_ok r" "k < length (encode_record r)"
  shows "parse_log (log_bytes recs @ take k (encode_record r)) = Some recs"
  using parse_log_encode_all [OF assms(1), of "take k (encode_record r)"] parse_log_torn [OF assms(2,3)]
  by (simp add: log_bytes_def)

lemma torn_tail_swallows:
  assumes "list_all record_ok recs" "record_ok r" "42 \<le> k" "k + length d < length (encode_record r)"
  shows "parse_log (log_bytes recs @ take k (encode_record r) @ d) = Some recs"
proof -
  have "take k (encode_record r) = enc_header r @ take (k - 42) (enc_body r)" using assms(3) by (simp add: encode_record_split)
  then have "parse_log (take k (encode_record r) @ d) = Some []"
    using body_size_header [OF assms(2)] assms(3,4) by (subst parse_log.simps) (simp add: encode_record_split enc_header_fields Let_def)
  then show ?thesis using parse_log_encode_all [OF assms(1)] by (simp add: log_bytes_def)
qed

section \<open>Properties\<close>

text \<open>
  C16. \<^verbatim>\<open>append_record\<close> extends the log by exactly the given record under the next sequence number, or
  returns 0 and leaves a log that still reads as before; this holds for every sequence of
  partial writes and interruptions, and an append that meets no failing system call succeeds.\<close>

theorem append_record_extends_log:
  assumes "log_is (m, w) recs" "append_record ty txn f i b a act (m, w) = (lsn, m', w')" "last_lsn m + 1 \<noteq> 0"
    and "\<forall>l. record_ok (record_of ty txn f i b a act l)"
  shows "(if lsn = 0 then m' = m \<and> parse_log (contents w' (wal_path m)) = Some recs
          else lsn = last_lsn m + 1 \<and> log_is (m', w') (recs @ [record_of ty txn f i b a act lsn]) \<and>
               parse_log (contents w' (wal_path m)) = Some (recs @ [record_of ty txn f i b a act lsn])) \<and>
    (calm w \<longrightarrow> lsn \<noteq> 0)"
proof -
  note I = assms(1) [unfolded log_is_def, simplified]
  let ?e = "encode_record (record_of ty txn f i b a act (last_lsn m + 1))"
  obtain ok w1 where fa: "full_append (wal_path m) ?e w = (ok, w1)" by (cases "full_append (wal_path m) ?e w")
  have c: "calm w \<longrightarrow> lsn \<noteq> 0"
    using assms(2,3) I fa full_append_calm [of w "wal_path m" ?e] by (auto simp: append_record_def record_of_def Let_def)
  from assms(2) show ?thesis
  proof (rule append_record_cases)
    show "wal_open m" using I by simp
  next
    assume r: "lsn = last_lsn m + 1" "m' = m\<lparr>last_lsn := lsn\<rparr>"
    then have "log_is (m', w') (recs @ [record_of ty txn f i b a act lsn])"
      using log_is_append [OF assms(1,2)] assms(3,4) by simp
    then show ?thesis using r assms(3) log_is_parse [of m' w'] by simp
  next
    fix k assume "lsn = 0" "m' = m" "k < length (encode_record (record_of ty txn f i b a act (last_lsn m + 1)))"
      "contents w' (wal_path m) = contents w (wal_path m) @ take k (encode_record (record_of ty txn f i b a act (last_lsn m + 1)))"
    then show ?thesis using c parse_log_torn_tail [of recs "record_of ty txn f i b a act (last_lsn m + 1)" k] I assms(4) by simp
  qed
qed

definition empty_world :: world where
  "empty_world = \<lparr> w_files = [''wal.log'' \<mapsto> []], w_dirs = {}, w_synced = (\<lambda>_. 0), w_script = [Io_short 3, Io_eintr, Io_short 10] \<rparr>"

definition empty_wal :: wal where
  "empty_wal = \<lparr> wal_path = ''wal.log'', wal_open = True, last_lsn = 0, durable_lsn = 0 \<rparr>"

lemma empty_log: "log_is (empty_wal, empty_world) []"
  by (simp add: log_is_def empty_wal_def empty_world_def contents_def)

theorem append_record_extends_log_witness:
  "\<exists>m' w'. append_record commit_record 7 '''' NO_PAGE_ID [] [] [] (empty_wal, empty_world) = (1, m', w') \<and>
     parse_log (contents w' ''wal.log'') = Some [record_of commit_record 7 '''' NO_PAGE_ID [] [] [] 1]"
proof -
  obtain lsn m' w' where a: "append_record commit_record 7 '''' NO_PAGE_ID [] [] [] (empty_wal, empty_world) = (lsn, m', w')"
    by (cases "append_record commit_record 7 '''' NO_PAGE_ID [] [] [] (empty_wal, empty_world)")
  have h: "last_lsn empty_wal + 1 \<noteq> 0" "\<forall>l. record_ok (record_of commit_record 7 '''' NO_PAGE_ID [] [] [] l)" "calm empty_world"
    by (simp_all add: empty_wal_def record_ok_def record_of_def calm_def empty_world_def)
  from append_record_extends_log [OF empty_log a h(1,2)] h(3) have "lsn = last_lsn empty_wal + 1"
    "parse_log (contents w' (wal_path empty_wal)) = Some ([] @ [record_of commit_record 7 '''' NO_PAGE_ID [] [] [] lsn])" by (auto split: if_splits)
  then show ?thesis using a by (simp add: empty_wal_def)
qed



text \<open>
  A record torn by a crash is not removed from the file, and later appends go behind it: every
  record appended after a torn record of at least a header, up to the size of its missing
  part, is invisible to the next reading of the log although its append and flush succeeded.\<close>

lemma torn_record_hides_later_records:
  assumes "list_all record_ok recs" "record_ok r" "42 \<le> k" "k + length (log_bytes later) < length (encode_record r)"
  shows "parse_log (log_bytes recs @ take k (encode_record r)) = Some recs \<and>
    parse_log (log_bytes recs @ take k (encode_record r) @ log_bytes later) = Some recs"
  using torn_tail_swallows [OF assms] torn_tail_swallows [OF assms(1-3), of "[]"] assms(4) by simp

lemma torn_record_hides_later_records_witness:
  "\<exists>r later. r_type (hd later) = type_code commit_record \<and>
     parse_log (take 100 (encode_record r) @ log_bytes later) = Some []"
proof -
  let ?r = "record_of page_update 1 ''t'' 0 (replicate 4096 0) (replicate 4096 1) [] 1"
  let ?l = "[record_of commit_record 2 '''' NO_PAGE_ID [] [] [] 1]"
  have h: "record_ok ?r" "length (encode_record ?r) = 8235" "length (log_bytes ?l) = 42"
    by (simp_all add: record_ok_def record_of_def encode_record_split length_enc_body)
  have "parse_log (log_bytes [] @ take 100 (encode_record ?r) @ log_bytes ?l) = Some []"
    using torn_record_hides_later_records [of "[]" ?r 100 ?l] h by simp
  then show ?thesis by (intro exI [of _ ?r] exI [of _ ?l]) (simp add: record_of_def)
qed

end
