(* ===== verification/File_Pages.thy ===== *)
theory File_Pages
  imports Page IO
begin

text \<open>
  A file as a sequence of pages of \<open>PAGE_SIZE\<close> bytes, for the write-ahead log, the page cache and the
  table and index files.
\<close>

section \<open>Pages of files\<close>

text \<open>Page \<open>i\<close> of a file; bytes beyond the end read as zero, which is what a later \<^verbatim>\<open>pwrite\<close> leaves there.\<close>

definition byte_at :: "bytes \<Rightarrow> nat \<Rightarrow> u8" where
  "byte_at d i = (if i < length d then d ! i else 0)"

definition page_bytes :: "world \<Rightarrow> string \<Rightarrow> nat \<Rightarrow> page" where
  "page_bytes w f i = map (\<lambda>j. byte_at (contents w f) (i * PAGE_SIZE + j)) [0..<PAGE_SIZE]"

lemma length_page_bytes [simp]: "length (page_bytes w f i) = PAGE_SIZE"
  by (simp add: page_bytes_def)

lemma page_bytes_cong: "contents w' f = contents w f \<Longrightarrow> page_bytes w' f i = page_bytes w f i"
  by (simp add: page_bytes_def)

lemma byte_at_write_block:
  "bs \<noteq> [] \<Longrightarrow> byte_at (write_block d off bs) k = (if off \<le> k \<and> k < off + length bs then bs ! (k - off) else byte_at d k)"
  by (auto simp: byte_at_def nth_write_block)

lemma page_bytes_write:
  assumes "length img = PAGE_SIZE"
  shows "map (\<lambda>j. byte_at (write_block d (k * PAGE_SIZE) img) (i * PAGE_SIZE + j)) [0..<PAGE_SIZE] =
    (if i = k then img else map (\<lambda>j. byte_at d (i * PAGE_SIZE + j)) [0..<PAGE_SIZE])"
proof -
  have ne: "img \<noteq> []" using assms by (auto simp: PAGE_SIZE_def)
  have out: "\<not> (k * PAGE_SIZE \<le> i * PAGE_SIZE + j \<and> i * PAGE_SIZE + j < k * PAGE_SIZE + PAGE_SIZE)" if "i \<noteq> k" "j < PAGE_SIZE" for j
    using that by (cases "i < k") (auto simp: PAGE_SIZE_def)
  show ?thesis
  proof (cases "i = k")
    case True
    then show ?thesis using assms ne by (intro nth_equalityI) (simp_all add: byte_at_write_block)
  next
    case False
    then show ?thesis using assms ne out by (auto simp: byte_at_write_block)
  qed
qed

lemma page_bytes_get:
  assumes "(i + 1) * PAGE_SIZE \<le> length (contents w f)"
  shows "get_bytes (contents w f) (i * PAGE_SIZE) PAGE_SIZE = page_bytes w f i"
  using assms by (intro nth_equalityI) (auto simp: page_bytes_def nth_get_bytes byte_at_def)

lemma page_sized_not_empty: "length xs = PAGE_SIZE \<Longrightarrow> xs \<noteq> []"
  by (auto simp: PAGE_SIZE_def)

lemma page_bytes_written:
  assumes "contents w' f = write_block (contents w f) (k * PAGE_SIZE) img" "length img = PAGE_SIZE"
  shows "page_bytes w' f i = (if i = k then img else page_bytes w f i)"
  using page_bytes_write [OF assms(2)] assms(1) by (simp add: page_bytes_def)

end
