(* ===== verification/Wal_Recovery.thy ===== *)
theory Wal_Recovery
  imports Wal_Log File_Pages
begin

text \<open>
  Recovery and rollback: the effect of \<^verbatim>\<open>recover\<close> on every page of every table file, through a
  page-level specification of its two passes.
\<close>

section \<open>Stamped images\<close>

text \<open>The image as \<^verbatim>\<open>write_page_image\<close> stores it, and a page up to its LSN field.\<close>

definition stamp :: "string \<Rightarrow> bytes \<Rightarrow> u64 \<Rightarrow> bytes" where
  "stamp f img lsn = (if filename f = TABLE_FILE_NAME then set_page_lsn img lsn else img)"

definition sans_lsn :: "string \<Rightarrow> bytes \<Rightarrow> bytes" where
  "sans_lsn f img = stamp f img 0"

lemma write_header_twice: "12 \<le> length d \<Longrightarrow> write_header (write_header d a) b = write_header d b"
  by (intro nth_equalityI) (simp_all add: write_header_put nth_put_bytes)

lemma set_page_lsn_twice: "length d = PAGE_SIZE \<Longrightarrow> set_page_lsn (set_page_lsn d a) b = set_page_lsn d b"
  by (simp add: set_page_lsn_def write_header_twice PAGE_SIZE_def)

lemma sans_lsn_stamp [simp]: "length img = PAGE_SIZE \<Longrightarrow> sans_lsn f (stamp f img lsn) = sans_lsn f img"
  by (simp add: sans_lsn_def stamp_def set_page_lsn_twice)

lemma length_stamp [simp]: "length img = PAGE_SIZE \<Longrightarrow> length (stamp f img lsn) = PAGE_SIZE"
  by (simp add: stamp_def set_page_lsn_def write_header_put PAGE_SIZE_def)

lemma open_create_contents: "open_create p w = (ok, w') \<Longrightarrow> contents w' q = contents w q \<and> w_synced w' = w_synced w"
  by (auto simp: open_create_def contents_def split: prod.splits if_splits dest!: next_outcome_same simp: same_data_def)

lemma write_page_image_result:
  assumes "write_page_image r img lsn w = (True, w')"
  shows "page_bytes w' f i = (if f = r_table_file r \<and> i = unat (r_page_id r) then stamp f img lsn else page_bytes w f i)"
    "length img = PAGE_SIZE" "g \<noteq> r_table_file r \<Longrightarrow> contents w' g = contents w g"
    "w_synced w' = w_synced w"
proof -
  obtain ok w1 where o: "open_create (r_table_file r) w = (ok, w1)" by (cases "open_create (r_table_file r) w")
  have g: "length img = PAGE_SIZE" "ok" and fw: "full_write_at (r_table_file r) (stamp (r_table_file r) img lsn) (unat (r_page_id r) * PAGE_SIZE) w1 = (True, w')"
    using assms o by (auto simp: write_page_image_def stamp_def page_from_image_def Let_def split: if_splits)
  show "length img = PAGE_SIZE" by (rule g)
  note oc = open_create_contents [OF o]
  have ne: "stamp (r_table_file r) img lsn \<noteq> []" using length_stamp [OF g(1), of "r_table_file r" lsn] by (auto simp: PAGE_SIZE_def)
  from full_write_at_result [OF fw] ne have s: "same_except (r_table_file r) w1 w'"
    and c: "contents w' (r_table_file r) = write_block (contents w (r_table_file r)) (unat (r_page_id r) * PAGE_SIZE) (stamp (r_table_file r) img lsn)"
    using oc by simp_all
  show other: "contents w' g = contents w g" if "g \<noteq> r_table_file r" for g using same_except_contents [OF s that] oc by simp
  show "w_synced w' = w_synced w" using s oc by (simp add: same_except_def)
  show "page_bytes w' f i = (if f = r_table_file r \<and> i = unat (r_page_id r) then stamp f img lsn else page_bytes w f i)"
  proof (cases "f = r_table_file r")
    case True
    then show ?thesis using c page_bytes_write [OF length_stamp [OF g(1)]] by (simp add: page_bytes_def)
  next
    case False
    then show ?thesis using other by (simp add: page_bytes_def)
  qed
qed

section \<open>The passes of recovery on one page\<close>

definition touches :: "string \<Rightarrow> nat \<Rightarrow> WalRecord \<Rightarrow> bool" where
  "touches f i r \<longleftrightarrow> r_type r = type_code page_update \<and> r_table_file r = f \<and> unat (r_page_id r) = i"

text \<open>Records that change no table directory.\<close>

definition data_record :: "WalRecord \<Rightarrow> bool" where
  "data_record r \<longleftrightarrow> r_type r \<noteq> type_code create_table \<and> r_type r \<noteq> type_code drop_table \<and> r_type r \<noteq> type_code schema_update"

definition redo_page :: "string \<Rightarrow> nat \<Rightarrow> WalRecord list \<Rightarrow> bytes \<Rightarrow> bytes" where
  "redo_page f i recs pg = fold (\<lambda>r pg. if touches f i r \<and> r_after r \<noteq> [] then stamp f (r_after r) (r_lsn r) else pg) recs pg"

definition undo_page :: "string \<Rightarrow> nat \<Rightarrow> WalRecord list \<Rightarrow> bytes \<Rightarrow> bytes" where
  "undo_page f i recs pg = fold (\<lambda>r pg. if touches f i r \<and> r_before r \<noteq> [] then sans_lsn f (r_before r) else pg) recs pg"

lemma redo_page_simps [simp]:
  "redo_page f i [] pg = pg"
  "redo_page f i (r # rs) pg = redo_page f i rs (if touches f i r \<and> r_after r \<noteq> [] then stamp f (r_after r) (r_lsn r) else pg)"
  by (simp_all add: redo_page_def)

lemma undo_page_simps [simp]:
  "undo_page f i [] pg = pg"
  "undo_page f i (r # rs) pg = undo_page f i rs (if touches f i r \<and> r_before r \<noteq> [] then sans_lsn f (r_before r) else pg)"
  by (simp_all add: undo_page_def)

lemma redo_record_page:
  assumes "redo_record r w = (True, w')" "data_record r"
  shows "page_bytes w' f i = (if touches f i r \<and> r_after r \<noteq> [] then stamp f (r_after r) (r_lsn r) else page_bytes w f i)"
proof (cases "r_type r = type_code page_update \<and> r_after r \<noteq> []")
  case True
  with assms(1) have "write_page_image r (r_after r) (r_lsn r) w = (True, w')" by (simp add: redo_record_def)
  from write_page_image_result(1) [OF this, of f i] True show ?thesis by (auto simp: touches_def)
next
  case False
  with assms show ?thesis by (auto simp: redo_record_def data_record_def touches_def split: if_splits)
qed

lemma redo_all_page:
  "redo_all known recs w = (True, w') \<Longrightarrow> list_all data_record (filter known recs) \<Longrightarrow>
   page_bytes w' f i = redo_page f i (filter known recs) (page_bytes w f i)"
proof (induction known recs w rule: redo_all.induct)
  case (2 known r rs w)
  show ?case
  proof (cases "known r")
    case True
    obtain ok w1 where r: "redo_record r w = (ok, w1)" by (cases "redo_record r w")
    with 2(3) True have ok: "ok" "redo_all known rs w1 = (True, w')" by (auto split: if_splits)
    show ?thesis using 2(2) [OF _ r [symmetric] _ ok(2)] 2(4) True ok r redo_record_page [of r w w1 f i] by simp
  next
    case False
    then show ?thesis using 2 by simp
  qed
qed simp

lemma undo_record_page:
  assumes "undo_record r (m, w) = (True, m', w')" "data_record r" "f \<noteq> wal_path m"
  shows "wal_path m' = wal_path m" "wal_open m' = wal_open m"
    "sans_lsn f (page_bytes w' f i) = (if touches f i r \<and> r_before r \<noteq> [] then sans_lsn f (r_before r) else sans_lsn f (page_bytes w f i))"
proof -
  show "wal_path m' = wal_path m" "wal_open m' = wal_open m"
    "sans_lsn f (page_bytes w' f i) = (if touches f i r \<and> r_before r \<noteq> [] then sans_lsn f (r_before r) else sans_lsn f (page_bytes w f i))"
  proof (atomize (full), cases "r_type r = type_code page_update \<and> r_before r \<noteq> []", goal_cases)
    case 1
    obtain lsn m1 w1 where a: "log_page_update (r_txn r) (r_table_file r) (r_page_id r) (page_from_image (r_after r)) (page_from_image (r_before r)) (m, w) = (lsn, m1, w1)"
      by (cases "log_page_update (r_txn r) (r_table_file r) (r_page_id r) (page_from_image (r_after r)) (page_from_image (r_before r)) (m, w)")
    with assms(1) 1 have wp: "write_page_image r (r_before r) lsn w1 = (True, w')" "m' = m1"
      by (auto simp: undo_record_def split: prod.splits if_splits)
    note fr = append_record_frame [OF a [unfolded log_page_update_def]]
    have "page_bytes w1 f i = page_bytes w f i" using fr(2) assms(3) by (intro page_bytes_cong) simp
    with write_page_image_result(1,2) [OF wp(1)] 1 show ?case
      using fr wp(2) by (auto simp: touches_def)
  next
    case 2
    with assms(1,2) show ?case by (auto simp: undo_record_def data_record_def touches_def split: if_splits)
  qed
qed

lemma undo_all_page:
  "undo_all loser recs (m, w) = (True, m', w') \<Longrightarrow> list_all data_record (filter loser recs) \<Longrightarrow> f \<noteq> wal_path m \<Longrightarrow>
   wal_path m' = wal_path m \<and> wal_open m' = wal_open m \<and>
   sans_lsn f (page_bytes w' f i) = undo_page f i (filter loser recs) (sans_lsn f (page_bytes w f i))"
proof (induction recs arbitrary: m w)
  case (Cons r rs)
  show ?case
  proof (cases "loser r")
    case True
    obtain ok m1 w1 where r: "undo_record r (m, w) = (ok, m1, w1)" by (cases "undo_record r (m, w)")
    with Cons.prems(1) True have ok: "ok" "undo_all loser rs (m1, w1) = (True, m', w')" by (auto split: if_splits)
    show ?thesis using Cons.IH [OF ok(2)] Cons.prems True ok r undo_record_page [of r m w m1 w1 f] by simp
  next
    case False
    then show ?thesis using Cons by simp
  qed
qed simp

lemma abort_all_frame:
  "abort_all ts (m, w) = (ok, m', w') \<Longrightarrow> f \<noteq> wal_path m \<Longrightarrow>
   wal_path m' = wal_path m \<and> wal_open m' = wal_open m \<and> contents w' f = contents w f \<and> w_files w' f = w_files w f"
proof (induction ts arbitrary: m w)
  case (Cons t ts)
  obtain lsn m1 w1 where a: "abort_transaction t (m, w) = (lsn, m1, w1)" by (cases "abort_transaction t (m, w)")
  note fr = append_record_frame [OF a [unfolded abort_transaction_def]]
  show ?case using Cons.IH [of m1 w1] Cons.prems a fr by (auto split: if_splits)
qed simp

lemma flush_frame:
  "flush (m, w) = (ok, m', w') \<Longrightarrow> wal_path m' = wal_path m \<and> contents w' f = contents w f \<and> w_files w' = w_files w"
  by (auto simp: flush_def contents_def split: if_splits prod.splits dest!: fdatasync_loop_result)

section \<open>Recovery of a page\<close>

definition is_loser :: "WalRecord list \<Rightarrow> WalRecord \<Rightarrow> bool" where
  "is_loser recs r \<longleftrightarrow> r_txn r \<in> set (losers recs)"

text \<open>The records that the redo pass does not skip.\<close>

definition is_known :: "WalRecord list \<Rightarrow> WalRecord \<Rightarrow> bool" where
  "is_known recs r \<longleftrightarrow> r_txn r = 0 \<or> r_txn r \<in> set (txns_of commit_record recs) \<or> r_txn r \<in> set (txns_of abort_record recs) \<or> is_loser recs r"

lemma recover_eq:
  "recover (m, w) =
     (if \<not> wal_open m then (False, m, w)
      else case read_all_records (wal_path m) w of
        (None, w) \<Rightarrow> (False, m, w)
      | (Some recs, w) \<Rightarrow>
        case redo_all (is_known recs) recs w of (ok, w) \<Rightarrow>
          if \<not> ok then (False, m\<lparr>last_lsn := max_lsn (last_lsn m) recs\<rparr>, w)
          else case undo_all (is_loser recs) (rev recs) (m\<lparr>last_lsn := max_lsn (last_lsn m) recs\<rparr>, w) of (ok, s) \<Rightarrow>
            if \<not> ok then (False, s)
            else case abort_all (losers recs) s of (ok, s) \<Rightarrow>
              if \<not> ok then (False, s) else flush s)"
proof -
  have kn: "(\<lambda>r. \<not> (r_txn r \<noteq> 0 \<and> r_txn r \<notin> set (txns_of commit_record recs) \<and> r_txn r \<notin> set (txns_of abort_record recs) \<and> r_txn r \<notin> set (losers recs))) = is_known recs"
    and lo: "(\<lambda>r. r_txn r \<in> set (losers recs)) = is_loser recs" for recs by (auto simp: is_known_def is_loser_def)
  show ?thesis unfolding recover_def Let_def kn lo by simp
qed

lemma recover_phases:
  assumes "recover (m, w) = (True, m', w')"
  obtains recs w1 w2 m3 w3 m4 w4 where
    "parse_log (contents w (wal_path m)) = Some recs" "same_data w w1" "redo_all (is_known recs) recs w1 = (True, w2)"
    "undo_all (is_loser recs) (rev recs) (m\<lparr>last_lsn := max_lsn (last_lsn m) recs\<rparr>, w2) = (True, m3, w3)"
    "abort_all (losers recs) (m3, w3) = (True, m4, w4)" "flush (m4, w4) = (True, m', w')"
proof -
  obtain res w1 where rd: "read_all_records (wal_path m) w = (res, w1)" by (cases "read_all_records (wal_path m) w")
  note pr = read_all_records_parse [OF rd]
  from assms rd obtain recs where recs: "res = Some recs" by (cases res) (auto simp: recover_def split: if_splits)
  let ?m = "m\<lparr>last_lsn := max_lsn (last_lsn m) recs\<rparr>"
  obtain ok2 w2 where r: "redo_all (is_known recs) recs w1 = (ok2, w2)" by (cases "redo_all (is_known recs) recs w1")
  obtain ok3 m3 w3 where u: "undo_all (is_loser recs) (rev recs) (?m, w2) = (ok3, m3, w3)" by (cases "undo_all (is_loser recs) (rev recs) (?m, w2)")
  obtain ok4 m4 w4 where a: "abort_all (losers recs) (m3, w3) = (ok4, m4, w4)" by (cases "abort_all (losers recs) (m3, w3)")
  have "wal_open m" using assms by (cases "wal_open m") (simp_all add: recover_def)
  then have "(if \<not> ok2 then (False, ?m, w2) else if \<not> ok3 then (False, m3, w3) else if \<not> ok4 then (False, m4, w4) else flush (m4, w4)) = (True, m', w')"
    using assms unfolding recover_eq rd recs by (simp only: r u a prod.case option.case if_True if_False not_True_eq_False not_False_eq_True)
  then have "ok2" "ok3" "ok4" "flush (m4, w4) = (True, m', w')" by (auto split: if_splits)
  then show thesis using that pr(1) pr(2) [OF recs] r u a by simp
qed

lemma recover_page:
  assumes rec: "recover (m, w) = (True, m', w')" and log: "parse_log (contents w (wal_path m)) = Some recs"
    and data: "list_all data_record (filter (is_known recs) recs)" and f: "f \<noteq> wal_path m"
  shows "sans_lsn f (page_bytes w' f i) =
    undo_page f i (rev (filter (is_loser recs) recs)) (sans_lsn f (redo_page f i (filter (is_known recs) recs) (page_bytes w f i)))"
proof -
  from rec obtain recs' w1 w2 m3 w3 m4 w4 where p:
    "parse_log (contents w (wal_path m)) = Some recs'" "same_data w w1" "redo_all (is_known recs') recs' w1 = (True, w2)"
    "undo_all (is_loser recs') (rev recs') (m\<lparr>last_lsn := max_lsn (last_lsn m) recs'\<rparr>, w2) = (True, m3, w3)"
    "abort_all (losers recs') (m3, w3) = (True, m4, w4)" "flush (m4, w4) = (True, m', w')" by (rule recover_phases)
  have e: "recs' = recs" using p(1) log by simp
  have dl: "list_all data_record (filter (is_loser recs) (rev recs))"
    using data by (auto simp: list_all_iff is_known_def)
  have "page_bytes w1 f i = page_bytes w f i" using same_data_contents [OF p(2)] by (rule page_bytes_cong)
  with redo_all_page [OF p(3) data [folded e]] e have s2: "page_bytes w2 f i = redo_page f i (filter (is_known recs) recs) (page_bytes w f i)" by simp
  note s3 = undo_all_page [OF p(4) dl [folded e], of f i, simplified, OF f]
  have "contents w4 f = contents w3 f" using abort_all_frame [OF p(5)] s3 f by simp
  then have "page_bytes w' f i = page_bytes w3 f i" using flush_frame [OF p(6), of f] by (intro page_bytes_cong) simp
  then show ?thesis using s3 s2 e by (simp add: rev_filter)
qed

lemma redo_page_filter: "redo_page f i recs pg = redo_page f i (filter (touches f i) recs) pg"
  by (induction recs arbitrary: pg) simp_all

lemma undo_page_filter: "undo_page f i recs pg = undo_page f i (filter (touches f i) recs) pg"
  by (induction recs arbitrary: pg) simp_all

lemma redo_page_last:
  assumes "\<forall>r\<in>set rs. touches f i r \<and> r_after r \<noteq> []"
  shows "redo_page f i rs pg = (if rs = [] then pg else stamp f (r_after (last rs)) (r_lsn (last rs)))"
  using assms by (induction rs arbitrary: pg) simp_all

lemma undo_page_last:
  assumes "\<forall>r\<in>set rs. touches f i r \<and> r_before r \<noteq> []"
  shows "undo_page f i rs pg = (if rs = [] then pg else sans_lsn f (r_before (last rs)))"
  using assms by (induction rs arbitrary: pg) simp_all

lemma is_loser_known: "is_loser recs r \<Longrightarrow> is_known recs r"
  by (simp add: is_known_def)

lemma known_pages_split:
  assumes "filter (\<lambda>r. is_known recs r \<and> touches f i r) recs = ws @ ls" "\<forall>r\<in>set ws. \<not> is_loser recs r" "\<forall>r\<in>set ls. is_loser recs r"
  shows "filter (touches f i) (filter (is_known recs) recs) = ws @ ls"
    "filter (touches f i) (rev (filter (is_loser recs) recs)) = rev ls"
proof -
  show "filter (touches f i) (filter (is_known recs) recs) = ws @ ls" using assms(1) by (simp add: conj_commute)
  have "filter (touches f i) (filter (is_loser recs) recs) = filter (is_loser recs) (filter (\<lambda>r. is_known recs r \<and> touches f i r) recs)"
    by (auto intro!: filter_cong dest: is_loser_known)
  also have "\<dots> = ls" using assms by (simp add: filter_id_conv)
  finally show "filter (touches f i) (rev (filter (is_loser recs) recs)) = rev ls" by (simp add: rev_filter [symmetric])
qed

section \<open>Recovery without failing system calls\<close>

definition replayable :: "string set \<Rightarrow> WalRecord \<Rightarrow> bool" where
  "replayable dirs r \<longleftrightarrow> data_record r \<and>
     (r_type r = type_code page_update \<longrightarrow>
        r_page_id r \<noteq> NO_PAGE_ID \<and> r_table_file r \<noteq> [] \<and> length (r_before r) = PAGE_SIZE \<and> length (r_after r) = PAGE_SIZE \<and>
        r_table_file r \<notin> dirs \<and> (parent_path (r_table_file r) = [] \<or> parent_path (r_table_file r) = ''/'' \<or> parent_path (r_table_file r) \<in> dirs))"

lemma read_records_loop_subset:
  "read_records_loop p sz off recs w = (res, w') \<Longrightarrow> set (w_script w') \<subseteq> set (w_script w)"
proof (induction p sz off recs w rule: read_records_loop.induct)
  case (1 p sz off recs w)
  obtain h w1 where h: "full_read_at p [] HEADER_SIZE off w = (h, w1)" by (cases "full_read_at p [] HEADER_SIZE off w")
  note s1 = full_read_at_subset [OF h]
  show ?case
  proof (cases h)
    case None
    then show ?thesis using 1(2) h s1 by (subst (asm) read_records_loop.simps) (auto split: if_splits)
  next
    case (Some hdr)
    obtain b w2 where b: "full_read_at p [] (body_size hdr) (off + HEADER_SIZE) w1 = (b, w2)" by (cases "full_read_at p [] (body_size hdr) (off + HEADER_SIZE) w1")
    note s2 = full_read_at_subset [OF b]
    show ?thesis
      using 1(2) h s1 b s2 1(1) [OF _ h [symmetric] Some _ _ b [symmetric]]
      by (subst (asm) read_records_loop.simps) (auto simp: Some split: if_splits option.splits)
  qed
qed

lemma read_all_records_steady:
  assumes "steady w" "read_all_records p w = (res, w')"
  shows "res = parse_log (contents w p)" "steady w'" "same_data w w'"
proof -
  obtain r w1 where n: "next_outcome w = (r, w1)" by (cases "next_outcome w")
  have "set (w_script w') \<subseteq> set (w_script w)"
    using assms(2) n next_outcome_subset [OF n] read_records_loop_subset [of p "length (contents w1 p)" 0 "[]" w1 res w']
    by (auto simp: read_all_records_def split: if_splits)
  then show "res = parse_log (contents w p)" "steady w'" "same_data w w'"
    using read_all_records_parse [OF assms(2)] assms(1) by (auto simp: steady_def)
qed

lemma append_record_steady:
  assumes "steady w" "wal_open m" "unat (last_lsn m) + 1 < 2 ^ 64" "append_record ty txn f i b a act (m, w) = (lsn, m', w')"
  shows "lsn \<noteq> 0" "steady w'" "unat (last_lsn m') = unat (last_lsn m) + 1" "w_dirs w' = w_dirs w" "wal_open m'" "wal_path m' = wal_path m"
proof -
  let ?e = "encode_record (record_of ty txn f i b a act (last_lsn m + 1))"
  obtain ok w1 where fa: "full_append (wal_path m) ?e w = (ok, w1)" by (cases "full_append (wal_path m) ?e w")
  have c: "ok" "steady w1" using full_append_calm [of w "wal_path m" ?e] full_append_subset [of "wal_path m" ?e w] fa assms(1) by (auto simp: steady_def)
  have d: "w_dirs w1 = w_dirs w" using full_append_result [OF fa] by (auto simp: same_except_def)
  have l: "unat (last_lsn m + 1) = unat (last_lsn m) + 1" using assms(3) by (simp add: unat_word_ariths)
  then have nz: "last_lsn m + 1 \<noteq> 0" by (metis add_is_0 one_neq_zero unat_0)
  have "lsn = last_lsn m + 1 \<and> m' = m\<lparr>last_lsn := last_lsn m + 1\<rparr> \<and> w' = w1"
    using assms(2,4) fa c(1) by (auto simp: append_record_def record_of_def Let_def)
  then show "lsn \<noteq> 0" "steady w'" "unat (last_lsn m') = unat (last_lsn m) + 1" "w_dirs w' = w_dirs w" "wal_open m'" "wal_path m' = wal_path m"
    using c d l nz assms(2) by simp_all
qed

lemma steady_next: "steady w \<Longrightarrow> next_outcome w = (r, w') \<Longrightarrow> r \<noteq> Io_error \<and> r \<noteq> Io_eintr \<and> steady w'"
  by (auto simp: steady_def calm_def next_outcome_def split: list.splits)

lemma write_page_image_steady:
  assumes "steady w" "replayable (w_dirs w) r" "r_type r = type_code page_update" "length img = PAGE_SIZE" "write_page_image r img lsn w = (ok, w')"
  shows "ok" "steady w'" "w_dirs w' = w_dirs w"
proof -
  let ?f = "r_table_file r" and ?o = "stamp (r_table_file r) img lsn"
  obtain oc w1 where o: "open_create ?f w = (oc, w1)" by (cases "open_create ?f w")
  obtain x w0 where n: "next_outcome w = (x, w0)" by (cases "next_outcome w")
  note x = steady_next [OF assms(1) n]
  have d: "w_dirs w0 = w_dirs w" using next_outcome_same [OF n] by (simp add: same_data_def)
  have p: "parent_exists w0 ?f" "?f \<notin> w_dirs w0" using assms(2,3) by (simp_all add: replayable_def parent_exists_def d)
  have "oc \<and> w1 = (if w_files w0 ?f = None then w0\<lparr>w_files := (w_files w0)(?f \<mapsto> [])\<rparr> else w0)"
    using o n x p by (simp add: open_create_def split: if_splits)
  then have s: "oc" "steady w1" "w_dirs w1 = w_dirs w" using x d by (simp_all add: steady_def calm_def)
  have "full_write_at ?f ?o (unat (r_page_id r) * PAGE_SIZE) w1 = (ok, w')"
    using assms(2-5) o s(1) by (auto simp: write_page_image_def replayable_def stamp_def page_from_image_def Let_def split: if_splits)
  with full_write_at_calm [of w1 ?f ?o "unat (r_page_id r) * PAGE_SIZE"] full_write_at_subset [of ?f ?o "unat (r_page_id r) * PAGE_SIZE" w1]
    full_write_at_result [of ?f ?o "unat (r_page_id r) * PAGE_SIZE" w1 ok w'] s
  show "ok" "steady w'" "w_dirs w' = w_dirs w" by (auto simp: steady_def same_except_def)
qed

lemma redo_all_steady:
  "steady w \<Longrightarrow> list_all (replayable (w_dirs w)) (filter known recs) \<Longrightarrow> redo_all known recs w = (ok, w') \<Longrightarrow>
   ok \<and> steady w' \<and> w_dirs w' = w_dirs w"
proof (induction recs arbitrary: w)
  case (Cons r rs)
  obtain ok1 w1 where r: "redo_record r w = (ok1, w1)" by (cases "redo_record r w")
  have "ok1 \<and> steady w1 \<and> w_dirs w1 = w_dirs w" if k: "known r"
  proof (cases "r_type r = type_code page_update")
    case True
    have rp: "replayable (w_dirs w) r" using Cons.prems(2) k by simp
    then have len: "length (r_after r) = PAGE_SIZE" using True by (simp add: replayable_def)
    have "write_page_image r (r_after r) (r_lsn r) w = (ok1, w1)" using r True page_sized_not_empty [OF len] by (simp add: redo_record_def)
    then show ?thesis using write_page_image_steady [OF Cons.prems(1) rp True len] by simp
  next
    case False
    then show ?thesis using Cons.prems k r by (auto simp: redo_record_def replayable_def data_record_def)
  qed
  then show ?case using Cons.IH [of w1] Cons.IH [of w] Cons.prems r by (cases "known r") simp_all
qed simp

lemma undo_all_steady:
  "steady w \<Longrightarrow> list_all (replayable (w_dirs w)) (filter loser recs) \<Longrightarrow> wal_open m \<Longrightarrow>
   unat (last_lsn m) + length (filter loser recs) < 2 ^ 64 \<Longrightarrow> undo_all loser recs (m, w) = (ok, m', w') \<Longrightarrow>
   ok \<and> steady w' \<and> wal_open m' \<and> unat (last_lsn m') \<le> unat (last_lsn m) + length (filter loser recs)"
proof (induction recs arbitrary: m w)
  case (Cons r rs)
  obtain ok1 m1 w1 where r: "undo_record r (m, w) = (ok1, m1, w1)" by (cases "undo_record r (m, w)")
  have step: "ok1 \<and> steady w1 \<and> w_dirs w1 = w_dirs w \<and> wal_open m1 \<and> unat (last_lsn m1) \<le> unat (last_lsn m) + 1" if k: "loser r"
  proof (cases "r_type r = type_code page_update")
    case True
    let ?a = "page_from_image (r_after r)" and ?b = "page_from_image (r_before r)"
    obtain lsn m2 w2 where a: "log_page_update (r_txn r) (r_table_file r) (r_page_id r) ?a ?b (m, w) = (lsn, m2, w2)"
      by (cases "log_page_update (r_txn r) (r_table_file r) (r_page_id r) ?a ?b (m, w)")
    have "unat (last_lsn m) + 1 < 2 ^ 64" using Cons.prems(4) k by simp
    note ap = append_record_steady [OF Cons.prems(1,3) this a [unfolded log_page_update_def]]
    have len: "length (r_before r) = PAGE_SIZE" using Cons.prems(2) k True by (simp add: replayable_def)
    obtain okw w3 where wp: "write_page_image r (r_before r) lsn w2 = (okw, w3)" by (cases "write_page_image r (r_before r) lsn w2")
    have rp: "replayable (w_dirs w2) r" using Cons.prems(2) k ap(4) by simp
    note wpi = write_page_image_steady [OF ap(2) rp True len wp]
    show ?thesis using r True len a ap wp wpi page_sized_not_empty [OF len] by (auto simp: undo_record_def)
  next
    case False
    then show ?thesis using Cons.prems k r by (auto simp: undo_record_def replayable_def data_record_def)
  qed
  show ?case
  proof (cases "loser r")
    case True
    have "undo_all loser rs (m1, w1) = (ok, m', w')" using Cons.prems(5) True r step by simp
    then show ?thesis using Cons.IH [of w1 m1] Cons.prems(2,4) True step by simp
  next
    case False
    then show ?thesis using Cons.IH [of w m] Cons.prems by simp
  qed
qed simp

lemma abort_all_steady:
  "steady w \<Longrightarrow> wal_open m \<Longrightarrow> unat (last_lsn m) + length ts < 2 ^ 64 \<Longrightarrow> abort_all ts (m, w) = (ok, m', w') \<Longrightarrow>
   ok \<and> steady w' \<and> wal_open m'"
proof (induction ts arbitrary: m w)
  case (Cons t ts)
  obtain lsn m1 w1 where a: "abort_transaction t (m, w) = (lsn, m1, w1)" by (cases "abort_transaction t (m, w)")
  have "unat (last_lsn m) + 1 < 2 ^ 64" using Cons.prems(3) by simp
  note ap = append_record_steady [OF Cons.prems(1,2) this a [unfolded abort_transaction_def]]
  show ?case using Cons.IH [of w1 m1] Cons.prems a ap by (simp split: if_splits)
qed simp

lemma recover_steady:
  assumes "steady w" "wal_open m" "parse_log (contents w (wal_path m)) = Some recs"
    and "list_all (replayable (w_dirs w)) (filter (is_known recs) recs)"
    and "unat (max_lsn (last_lsn m) recs) + length (filter (is_loser recs) recs) + length (losers recs) < 2 ^ 64"
  shows "fst (recover (m, w))"
proof -
  obtain res w1 where rd: "read_all_records (wal_path m) w = (res, w1)" by (cases "read_all_records (wal_path m) w")
  note s1 = read_all_records_steady [OF assms(1) rd]
  have res: "res = Some recs" using s1(1) assms(3) by simp
  have d1: "w_dirs w1 = w_dirs w" using s1(3) by (simp add: same_data_def)
  let ?m = "m\<lparr>last_lsn := max_lsn (last_lsn m) recs\<rparr>"
  obtain ok2 w2 where r: "redo_all (is_known recs) recs w1 = (ok2, w2)" by (cases "redo_all (is_known recs) recs w1")
  note s2 = redo_all_steady [OF s1(2) _ r, unfolded d1, OF assms(4)]
  obtain ok3 m3 w3 where u: "undo_all (is_loser recs) (rev recs) (?m, w2) = (ok3, m3, w3)" by (cases "undo_all (is_loser recs) (rev recs) (?m, w2)")
  have l: "list_all (replayable (w_dirs w2)) (filter (is_loser recs) (rev recs))"
    using assms(4) s2 by (auto simp: list_all_iff is_loser_known)
  have s3: "ok3 \<and> steady w3 \<and> wal_open m3 \<and> unat (last_lsn m3) \<le> unat (max_lsn (last_lsn m) recs) + length (filter (is_loser recs) recs)"
    using undo_all_steady [OF _ l _ _ u] s2 assms(2,5) by (simp add: rev_filter [symmetric])
  obtain ok4 m4 w4 where a: "abort_all (losers recs) (m3, w3) = (ok4, m4, w4)" by (cases "abort_all (losers recs) (m3, w3)")
  have s4: "ok4 \<and> steady w4 \<and> wal_open m4" using abort_all_steady [OF _ _ _ a] s3 assms(5) by linarith
  obtain okf wf where f: "fdatasync_loop (wal_path m4) w4 = (okf, wf)" by (cases "fdatasync_loop (wal_path m4) w4")
  have "okf" using fdatasync_loop_calm [of w4 "wal_path m4"] s4 f by (simp add: steady_def)
  then have "fst (flush (m4, w4))" using s4 f by (simp add: flush_def)
  then show ?thesis unfolding recover_eq rd res using assms(2) s2 s3 s4 by (simp add: r u a)
qed

lemma redo_all_append:
  "redo_all known (recs @ [r]) w = (True, w') \<Longrightarrow> known r \<Longrightarrow> \<exists>w1. redo_all known recs w = (True, w1) \<and> redo_record r w1 = (True, w')"
proof (induction recs arbitrary: w)
  case Nil
  then show ?case by (cases "redo_record r w") (auto split: if_splits)
next
  case (Cons x xs)
  then show ?case by (cases "redo_record x w") (auto split: if_splits)
qed

text \<open>Records whose undoing does nothing.\<close>

lemma undo_all_nothing:
  "\<forall>r\<in>set recs. loser r \<longrightarrow> r_type r \<noteq> type_code page_update \<and> r_type r \<noteq> type_code create_table \<and> r_type r \<noteq> type_code schema_update \<Longrightarrow>
   undo_all loser recs s = (True, s)"
  by (induction recs) (simp_all add: undo_record_def)

section \<open>A log for the examples\<close>

text \<open>
  Transaction 1 changes page 0 and commits, transaction 2 changes it again and does not finish; the
  page of the second transaction has already reached the file.
\<close>

definition example_log :: "WalRecord list" where
  "example_log =
     [record_of begin_record 1 '''' NO_PAGE_ID [] [] [] 1,
      record_of page_update 1 ''data.tbl'' 0 (replicate 4096 0) (replicate 4096 1) [] 2,
      record_of commit_record 1 '''' NO_PAGE_ID [] [] [] 3,
      record_of begin_record 2 '''' NO_PAGE_ID [] [] [] 4,
      record_of page_update 2 ''data.tbl'' 0 (replicate 4096 1) (replicate 4096 2) [] 5]"

definition example_world :: world where
  "example_world = \<lparr> w_files = [''wal.log'' \<mapsto> log_bytes example_log, ''data.tbl'' \<mapsto> replicate 4096 2], w_dirs = {},
     w_synced = (\<lambda>_. 0), w_script = [Io_all, Io_short 7, Io_short 1] \<rparr>"

lemma example_log_ok: "list_all record_ok example_log"
  by (simp add: example_log_def record_ok_def record_of_def)

lemma example_parse: "parse_log (contents example_world (wal_path empty_wal)) = Some example_log"
  using parse_log_encode_all [OF example_log_ok, of "[]"]
  by (simp add: example_world_def empty_wal_def contents_def log_bytes_def parse_log.simps)

lemma example_losers: "losers example_log = [2]"
  by (simp add: losers_def txns_of_def example_log_def record_of_def)

lemma example_known: "filter (is_known example_log) example_log = example_log" "filter (is_loser example_log) example_log = drop 3 example_log"
  "list_all (replayable (w_dirs example_world)) example_log"
proof -
  have t: "set (txns_of commit_record example_log) = {1}" by (auto simp: txns_of_def example_log_def record_of_def)
  show "filter (is_known example_log) example_log = example_log"
    by (simp add: filter_id_conv is_known_def is_loser_def example_losers t) (simp add: example_log_def record_of_def)
  show "filter (is_loser example_log) example_log = drop 3 example_log"
    by (subst (2 3) example_log_def) (simp add: is_loser_def example_losers record_of_def)
  show "list_all (replayable (w_dirs example_world)) example_log"
    by (simp add: example_log_def record_of_def replayable_def data_record_def NO_PAGE_ID_def PAGE_SIZE_def parent_path_def example_world_def)
qed

lemma example_steady: "steady example_world"
  by (simp add: steady_def calm_def example_world_def)

lemma example_max_lsn: "max_lsn 0 example_log = 5"
  by (simp add: max_lsn_def example_log_def record_of_def)

lemma example_recovers: "fst (recover (empty_wal, example_world))"
  by (rule recover_steady [OF example_steady _ example_parse])
     (simp_all add: example_known example_losers, simp_all add: empty_wal_def example_max_lsn, simp add: example_log_def)

section \<open>Properties\<close>



text \<open>
  C19. Recovery always completes: on a log that reads back, whose page updates are whole pages of files
  that can be opened, \<^verbatim>\<open>recover\<close> returns \<^verbatim>\<open>true\<close> when no system call fails, however the transfers are
  split, as long as the compensation records do not exhaust the 64-bit sequence numbers.\<close>

theorem recover_succeeds:
  assumes "steady w" "wal_open m" "parse_log (contents w (wal_path m)) = Some recs"
    and "list_all (replayable (w_dirs w)) (filter (is_known recs) recs)"
    and "unat (max_lsn (last_lsn m) recs) + length (filter (is_loser recs) recs) + length (losers recs) < 2 ^ 64"
  shows "\<exists>s. recover (m, w) = (True, s)"
  using recover_steady [OF assms] by (cases "recover (m, w)") auto

theorem recover_succeeds_witness: "\<exists>s. recover (empty_wal, example_world) = (True, s)"
  by (rule recover_succeeds [OF example_steady _ example_parse])
     (simp_all add: example_known example_losers, simp_all add: empty_wal_def example_max_lsn, simp add: example_log_def)

text \<open>
  A \<^verbatim>\<open>DROP TABLE\<close> of an unfinished transaction is carried out by recovery and never undone: with the
  drop record at the end of the log and no other change by an unfinished transaction,
  every file of the table is gone after \<^verbatim>\<open>recover\<close>, although the transaction did not commit and is marked aborted.\<close>

lemma unfinished_drop_loses_table:
  assumes "recover (m, w) = (True, m', w')" "parse_log (contents w (wal_path m)) = Some (recs @ [r])"
    and "r_type r = type_code drop_table" "is_loser (recs @ [r]) r" "\<not> under (r_table_file r) (wal_path m)"
    and "\<forall>x\<in>set recs. is_loser (recs @ [r]) x \<longrightarrow> r_type x = type_code begin_record"
  shows "\<forall>p. under (r_table_file r) p \<longrightarrow> w_files w' p = None"
proof (intro allI impI)
  fix p assume p: "under (r_table_file r) p"
  then have pw: "p \<noteq> wal_path m" using assms(5) by auto
  from assms(1) obtain recs' w1 w2 m3 w3 m4 w4 where ph:
    "parse_log (contents w (wal_path m)) = Some recs'" "same_data w w1" "redo_all (is_known recs') recs' w1 = (True, w2)"
    "undo_all (is_loser recs') (rev recs') (m\<lparr>last_lsn := max_lsn (last_lsn m) recs'\<rparr>, w2) = (True, m3, w3)"
    "abort_all (losers recs') (m3, w3) = (True, m4, w4)" "flush (m4, w4) = (True, m', w')" by (rule recover_phases)
  have e: "recs' = recs @ [r]" using ph(1) assms(2) by simp
  obtain wr where "redo_record r wr = (True, w2)" using redo_all_append [of "is_known recs'" recs r w1 w2] ph(3) is_loser_known [OF assms(4)] e by auto
  then have "w_files w2 p = None" using p assms(3) by (auto simp: redo_record_def redo_drop_table_def remove_all_def split: if_splits prod.splits)
  moreover have "undo_all (is_loser recs') (rev recs') s = (True, s)" for s
    using assms(3,6) e by (intro undo_all_nothing) auto
  ultimately have u: "w_files w3 p = None" "wal_path m3 = wal_path m" using ph(4) by auto
  then show "w_files w' p = None" using abort_all_frame [OF ph(5), of p] flush_frame [OF ph(6)] pw by simp
qed

definition drop_log :: "WalRecord list" where
  "drop_log = [record_of begin_record 1 '''' NO_PAGE_ID [] [] [] 1]"

definition drop_world :: world where
  "drop_world = \<lparr> w_files = [''wal.log'' \<mapsto> log_bytes (drop_log @ [record_of drop_table 1 ''t'' NO_PAGE_ID [] [] [] 2]), ''t/data.tbl'' \<mapsto> [1, 2, 3]],
     w_dirs = {''t''}, w_synced = (\<lambda>_. 0), w_script = [] \<rparr>"

theorem unfinished_drop_loses_table_witness:
  "\<exists>m' w'. recover (empty_wal, drop_world) = (True, m', w') \<and> w_files drop_world ''t/data.tbl'' \<noteq> None \<and> w_files w' ''t/data.tbl'' = None"
proof -
  let ?r = "record_of drop_table 1 ''t'' NO_PAGE_ID [] [] [] 2"
  have ok: "list_all record_ok (drop_log @ [?r])" by (simp add: drop_log_def record_ok_def record_of_def)
  have ps: "parse_log (contents drop_world (wal_path empty_wal)) = Some (drop_log @ [?r])"
    using parse_log_encode_all [OF ok, of "[]"] by (simp add: drop_world_def empty_wal_def contents_def log_bytes_def parse_log.simps)
  have lo: "losers (drop_log @ [?r]) = [1]" by (simp add: losers_def txns_of_def drop_log_def record_of_def)
  have st: "steady drop_world" by (simp add: steady_def calm_def drop_world_def)
  obtain res w1 where rd: "read_all_records (wal_path empty_wal) drop_world = (res, w1)" by (cases "read_all_records (wal_path empty_wal) drop_world")
  note s1 = read_all_records_steady [OF st rd]
  obtain x w0 where n: "next_outcome w1 = (x, w0)" by (cases "next_outcome w1")
  note sn = steady_next [OF s1(2) n]
  have k: "is_known (drop_log @ [?r]) ?r" "is_known (drop_log @ [?r]) (hd drop_log)" by (simp_all add: is_known_def is_loser_def lo) (simp_all add: record_of_def drop_log_def)
  have "redo_record ?r w1 = (True, snd (remove_all ''t'' w1)) \<and> steady (snd (remove_all ''t'' w1))"
    using n sn by (simp add: redo_record_def redo_drop_table_def remove_all_def record_of_def steady_def calm_def)
  then obtain w2 where rr: "redo_record ?r w1 = (True, w2)" "steady w2" by blast
  have rb: "redo_record (hd drop_log) w = (True, w)" for w by (simp add: redo_record_def drop_log_def record_of_def)
  have red: "redo_all (is_known (drop_log @ [?r])) (drop_log @ [?r]) w1 = (True, w2)"
    using k rr rb by (simp add: drop_log_def)
  let ?m = "empty_wal\<lparr>last_lsn := max_lsn (last_lsn empty_wal) (drop_log @ [?r])\<rparr>"
  have und: "undo_all (is_loser (drop_log @ [?r])) (rev (drop_log @ [?r])) (?m, w2) = (True, ?m, w2)"
    by (intro undo_all_nothing) (simp add: drop_log_def record_of_def)
  obtain ok4 m4 w4 where a: "abort_all [1] (?m, w2) = (ok4, m4, w4)" by (cases "abort_all [1] (?m, w2)")
  have "max_lsn (last_lsn empty_wal) (drop_log @ [?r]) = 2" by (simp add: max_lsn_def drop_log_def record_of_def empty_wal_def)
  then have s4: "ok4 \<and> steady w4 \<and> wal_open m4" using abort_all_steady [OF rr(2) _ _ a] by (simp add: empty_wal_def)
  obtain okf wf where f: "fdatasync_loop (wal_path m4) w4 = (okf, wf)" by (cases "fdatasync_loop (wal_path m4) w4")
  have "okf" using fdatasync_loop_calm [of w4 "wal_path m4"] s4 f by (simp add: steady_def)
  then have "fst (flush (m4, w4))" using s4 f by (simp add: flush_def)
  moreover have "recover (empty_wal, drop_world) = flush (m4, w4)"
  proof -
    have res: "res = Some (drop_log @ [?r])" using s1(1) ps by simp
    have op: "wal_open empty_wal" by (simp add: empty_wal_def)
    show ?thesis unfolding recover_eq rd res using s4 op
      by (simp only: red und lo a prod.case option.case if_True if_False not_True_eq_False not_False_eq_True)
  qed
  ultimately obtain m' w' where rec: "recover (empty_wal, drop_world) = (True, m', w')" by (metis prod.collapse)
  have "\<forall>p. under (r_table_file ?r) p \<longrightarrow> w_files w' p = None"
  proof (rule unfinished_drop_loses_table [OF rec ps])
    show "is_loser (drop_log @ [?r]) ?r" unfolding is_loser_def lo by (simp add: record_of_def)
    show "\<not> under (r_table_file ?r) (wal_path empty_wal)" by (simp add: under_def record_of_def empty_wal_def)
    show "\<forall>x\<in>set drop_log. is_loser (drop_log @ [?r]) x \<longrightarrow> r_type x = type_code begin_record" by (simp add: drop_log_def record_of_def)
  qed (simp add: record_of_def)
  then show ?thesis using rec by (auto simp: under_def record_of_def drop_world_def)
qed

end
