(* ===== verification/Page_Cache.thy ===== *)
theory Page_Cache
  imports Wal_Log File_Pages "HOL-Library.AList"
begin

text \<open>
  The page cache, from \<^verbatim>\<open>src/src/storage/page_cache.cpp\<close>. A cache has its frames, the recency list
  and the counters. The order of the frame list stands for the iteration order of the
  \<^verbatim>\<open>unordered_map\<close>, on which no property depends. A descriptor is the path it was opened with, the
  absent descriptor \<^verbatim>\<open>std::nullopt\<close> and the null \<^verbatim>\<open>WalManager\<close> are \<open>None\<close>. A \<^verbatim>\<open>Page*\<close> into a frame is the
  key of the frame.
\<close>

section \<open>State\<close>

type_synonym page_key = "string \<times> u32"

record frame =
  f_page :: page
  f_dirty :: bool
  f_pins :: u32

record cache =
  c_capacity :: nat
  c_lru :: "page_key list"
  c_pages :: "(page_key \<times> frame) list"
  c_hits :: nat
  c_misses :: nat

declare split_paired_All [simp del] split_paired_Ex [simp del]

type_synonym cstate = "cache \<times> wal option \<times> world"

definition cache_new :: "nat \<Rightarrow> cache" where
  "cache_new n = \<lparr> c_capacity = (if n = 0 then 1 else n), c_lru = [], c_pages = [], c_hits = 0, c_misses = 0 \<rparr>"

definition make_key :: "string \<Rightarrow> u32 \<Rightarrow> page_key" where
  "make_key table_file page_id = (lexically_normal table_file, page_id)"

section \<open>Transfers\<close>

definition full_read :: "string \<Rightarrow> nat \<Rightarrow> nat \<Rightarrow> world \<Rightarrow> bytes option \<times> world" where
  "full_read p n offset w = full_read_at p [] n offset w"

text \<open>Unlike the other write loops this one goes on after a transfer of 0 bytes.\<close>

function full_write :: "string \<Rightarrow> bytes \<Rightarrow> nat \<Rightarrow> world \<Rightarrow> bool \<times> world" where
  "full_write p buffer offset w =
     (if buffer = [] then (True, w)
      else case next_outcome w of (r, w') \<Rightarrow>
        (case r of
           Io_all \<Rightarrow> (True, pwrite_file p offset buffer w')
         | Io_short n \<Rightarrow>
             let n = min n (length buffer) in
             full_write p (drop n buffer) (offset + n) (if n = 0 then w' else pwrite_file p offset (take n buffer) w')
         | Io_eintr \<Rightarrow> full_write p buffer offset w'
         | Io_error \<Rightarrow> (False, w')))"
  by pat_completeness auto
termination
  by (relation "measure (\<lambda>(p, buffer, offset, w). length (w_script w))")
    (auto dest!: next_outcome_script(2) [OF sym] simp: pwrite_file_def)

declare full_write.simps [simp del]

definition open_existing :: "string \<Rightarrow> world \<Rightarrow> bool \<times> world" where
  "open_existing p w = (case next_outcome w of (r, w) \<Rightarrow> (r \<noteq> Io_error \<and> r \<noteq> Io_eintr \<and> w_files w p \<noteq> None, w))"

definition write_frame :: "string option \<Rightarrow> page_key \<Rightarrow> frame \<Rightarrow> wal option \<times> world \<Rightarrow> bool \<times> wal option \<times> world" where
  "write_frame fd key fr = (\<lambda>(wm, w).
     case (case wm of None \<Rightarrow> (True, None, w)
           | Some m \<Rightarrow> case flush_through (page_lsn (f_page fr)) (m, w) of (ok, m, w) \<Rightarrow> (ok, Some m, w)) of
       (flushed, wm, w) \<Rightarrow>
         if \<not> flushed then (False, wm, w)
         else case (case fd of Some p \<Rightarrow> (True, w) | None \<Rightarrow> open_existing (fst key) w) of (opened, w) \<Rightarrow>
           if \<not> opened then (False, wm, w)
           else case full_write (case fd of Some p \<Rightarrow> p | None \<Rightarrow> fst key) (f_page fr) (unat (snd key) * PAGE_SIZE) w of
             (ok, w) \<Rightarrow> (ok, wm, w))"

definition read_page_from_disk :: "string option \<Rightarrow> page_key \<Rightarrow> world \<Rightarrow> page option \<times> world" where
  "read_page_from_disk fd key w =
     (case (case fd of Some p \<Rightarrow> (True, w) | None \<Rightarrow> open_existing (fst key) w) of (opened, w) \<Rightarrow>
        if \<not> opened then (None, w)
        else full_read (case fd of Some p \<Rightarrow> p | None \<Rightarrow> fst key) PAGE_SIZE (unat (snd key) * PAGE_SIZE) w)"

section \<open>Eviction\<close>

text \<open>The scan of the recency list from its end; the erased position is the last one of the key.\<close>

fun evict_scan :: "string option \<Rightarrow> page_key list \<Rightarrow> cstate \<Rightarrow> bool \<times> cstate" where
  "evict_scan fd [] s = (False, s)"
| "evict_scan fd (k # ks) (c, ww) =
     (case map_of (c_pages c) k of
        None \<Rightarrow> evict_scan fd ks (c, ww)
      | Some fr \<Rightarrow>
          if f_pins fr \<noteq> 0 then evict_scan fd ks (c, ww)
          else case (if f_dirty fr then write_frame fd k fr ww else (True, ww)) of (ok, ww) \<Rightarrow>
            if \<not> ok then (False, c, ww)
            else (True, c\<lparr>c_lru := rev (remove1 k (rev (c_lru c))), c_pages := AList.delete k (c_pages c)\<rparr>, ww))"

definition evict_one_page :: "string option \<Rightarrow> cstate \<Rightarrow> bool \<times> cstate" where
  "evict_one_page fd s = evict_scan fd (rev (c_lru (fst s))) s"

lemma length_delete_le: "length (AList.delete k al) \<le> length al"
  by (simp add: AList.delete_eq)

lemma length_delete_less: "map_of al k = Some v \<Longrightarrow> length (AList.delete k al) < length al"
  using length_filter_less [of "(k, v)" al "\<lambda>(k', _). k \<noteq> k'"] by (auto simp: AList.delete_eq map_of_SomeD)

lemma evict_scan_shrinks: "evict_scan fd ks (c, ww) = (True, c', ww') \<Longrightarrow> length (c_pages c') < length (c_pages c)"
  by (induction fd ks "(c, ww)" rule: evict_scan.induct) (auto split: option.splits if_splits prod.splits intro: length_delete_less)

text \<open>The loop \<^verbatim>\<open>while (pages_.size() >= capacity_)\<close>; \<open>False\<close> is the early return of a null pointer.\<close>

function evict_to_fit :: "string option \<Rightarrow> cstate \<Rightarrow> bool \<times> cstate" where
  "evict_to_fit fd s =
     (if c_capacity (fst s) \<le> length (c_pages (fst s)) then
        case evict_one_page fd s of (ok, s) \<Rightarrow> if \<not> ok then (False, s) else evict_to_fit fd s
      else (True, s))"
  by pat_completeness auto
termination
  by (relation "measure (\<lambda>(fd, s). length (c_pages (fst s)))") (auto simp: evict_one_page_def dest: evict_scan_shrinks [OF sym])

declare evict_to_fit.simps [simp del]

section \<open>The methods of \<^verbatim>\<open>PageCache\<close>\<close>

definition touch :: "page_key \<Rightarrow> cache \<Rightarrow> cache" where
  "touch key c = c\<lparr>c_lru := key # remove1 key (c_lru c)\<rparr>"

text \<open>The methods behind the public overloads; a null pointer is \<open>False\<close>.\<close>

definition fetch_page :: "string \<Rightarrow> u32 \<Rightarrow> string option \<Rightarrow> cstate \<Rightarrow> bool \<times> cstate" where
  "fetch_page table_file page_id fd = (\<lambda>(c, ww).
     let key = make_key table_file page_id in
     case map_of (c_pages c) key of
       Some fr \<Rightarrow>
         (True, touch key (c\<lparr>c_hits := c_hits c + 1,
                              c_pages := AList.update key (fr\<lparr>f_pins := f_pins fr + 1\<rparr>) (c_pages c)\<rparr>), ww)
     | None \<Rightarrow>
         case evict_to_fit fd (c\<lparr>c_misses := c_misses c + 1\<rparr>, ww) of (ok, c, wm, w) \<Rightarrow>
           if \<not> ok then (False, c, wm, w)
           else (case read_page_from_disk fd key w of
               (None, w) \<Rightarrow> (False, c, wm, w)
             | (Some pg, w) \<Rightarrow>
                 (True, c\<lparr>c_lru := key # c_lru c,
                          c_pages := (key, \<lparr> f_page = pg, f_dirty = False, f_pins = 1 \<rparr>) # c_pages c\<rparr>, wm, w)))"

definition new_page :: "string \<Rightarrow> u32 \<Rightarrow> page \<Rightarrow> string option \<Rightarrow> cstate \<Rightarrow> bool \<times> cstate" where
  "new_page table_file page_id pg fd = (\<lambda>(c, ww).
     let key = make_key table_file page_id in
     case map_of (c_pages c) key of
       Some fr \<Rightarrow>
         (True, touch key (c\<lparr>c_pages := AList.update key \<lparr> f_page = pg, f_dirty = True, f_pins = f_pins fr + 1 \<rparr> (c_pages c)\<rparr>), ww)
     | None \<Rightarrow>
         case evict_to_fit fd (c, ww) of (ok, c, ww) \<Rightarrow>
           if \<not> ok then (False, c, ww)
           else (True, c\<lparr>c_lru := key # c_lru c,
                         c_pages := (key, \<lparr> f_page = pg, f_dirty = True, f_pins = 1 \<rparr>) # c_pages c\<rparr>, ww))"

definition unpin_page :: "string \<Rightarrow> u32 \<Rightarrow> bool \<Rightarrow> cache \<Rightarrow> bool \<times> cache" where
  "unpin_page table_file page_id is_dirty c =
     (let key = make_key table_file page_id in
      case map_of (c_pages c) key of
        None \<Rightarrow> (False, c)
      | Some fr \<Rightarrow>
          if f_pins fr = 0 then (False, c)
          else (True, c\<lparr>c_pages := AList.update key (fr\<lparr>f_pins := f_pins fr - 1, f_dirty := f_dirty fr \<or> is_dirty\<rparr>) (c_pages c)\<rparr>))"

definition flush_page :: "string \<Rightarrow> u32 \<Rightarrow> string option \<Rightarrow> cstate \<Rightarrow> bool \<times> cstate" where
  "flush_page table_file page_id fd = (\<lambda>(c, ww).
     let key = make_key table_file page_id in
     case map_of (c_pages c) key of
       None \<Rightarrow> (False, c, ww)
     | Some fr \<Rightarrow>
         if \<not> f_dirty fr then (True, c, ww)
         else case write_frame fd key fr ww of (ok, ww) \<Rightarrow>
           if \<not> ok then (False, c, ww)
           else (True, c\<lparr>c_pages := AList.update key (fr\<lparr>f_dirty := False\<rparr>) (c_pages c)\<rparr>, ww))"

text \<open>The loop of \<^verbatim>\<open>flush_all_pages\<close> over the frames, with the flag \<^verbatim>\<open>ok\<close>.\<close>

fun flush_frames :: "string option \<Rightarrow> (page_key \<times> frame) list \<Rightarrow> wal option \<times> world \<Rightarrow> bool \<times> (page_key \<times> frame) list \<times> wal option \<times> world" where
  "flush_frames fd [] ww = (True, [], ww)"
| "flush_frames fd ((key, fr) # rest) ww =
     (case (if f_dirty fr
            then case write_frame fd key fr ww of (ok, ww) \<Rightarrow> (ok, if ok then fr\<lparr>f_dirty := False\<rparr> else fr, ww)
            else (True, fr, ww)) of
        (ok, fr, ww) \<Rightarrow>
          case flush_frames fd rest ww of (oks, rest, ww) \<Rightarrow> (ok \<and> oks, (key, fr) # rest, ww))"

definition flush_all_pages :: "string option \<Rightarrow> cstate \<Rightarrow> bool \<times> cstate" where
  "flush_all_pages fd = (\<lambda>(c, ww). case flush_frames fd (c_pages c) ww of (ok, pages, ww) \<Rightarrow> (ok, c\<lparr>c_pages := pages\<rparr>, ww))"

text \<open>The destructor flushes without descriptor and log.\<close>

definition cache_close :: "cache \<times> world \<Rightarrow> world" where
  "cache_close = (\<lambda>(c, w). snd (snd (snd (flush_all_pages None (c, None, w)))))"

definition cache_clear :: "cache \<Rightarrow> cache" where
  "cache_clear c = c\<lparr>c_pages := [], c_lru := []\<rparr>"

definition cache_size :: "cache \<Rightarrow> nat" where
  "cache_size c = length (c_pages c)"

definition contains_page :: "string \<Rightarrow> u32 \<Rightarrow> cache \<Rightarrow> bool" where
  "contains_page table_file page_id c = (map_of (c_pages c) (make_key table_file page_id) \<noteq> None)"

text \<open>Reading and writing through a \<^verbatim>\<open>Page*\<close>.\<close>

definition frame_page :: "page_key \<Rightarrow> cache \<Rightarrow> page" where
  "frame_page key c = (case map_of (c_pages c) key of None \<Rightarrow> [] | Some fr \<Rightarrow> f_page fr)"

definition set_frame_page :: "page_key \<Rightarrow> page \<Rightarrow> cache \<Rightarrow> cache" where
  "set_frame_page key pg c =
     (case map_of (c_pages c) key of
        None \<Rightarrow> c | Some fr \<Rightarrow> c\<lparr>c_pages := AList.update key (fr\<lparr>f_page := pg\<rparr>) (c_pages c)\<rparr>)"

section \<open>What a write of a frame does\<close>

lemma full_write_step:
  "full_write p [] off w = (True, w)"
  "b \<noteq> [] \<Longrightarrow> w_script w = [] \<Longrightarrow> full_write p b off w = (True, pwrite_file p off b w)"
  "b \<noteq> [] \<Longrightarrow> w_script w = r # rs \<Longrightarrow> full_write p b off w =
     (let w = w\<lparr>w_script := rs\<rparr> in
      case r of Io_all \<Rightarrow> (True, pwrite_file p off b w)
      | Io_short n \<Rightarrow> let n = min n (length b) in
          full_write p (drop n b) (off + n) (if n = 0 then w else pwrite_file p off (take n b) w)
      | Io_eintr \<Rightarrow> full_write p b off w
      | Io_error \<Rightarrow> (False, w))"
  by (simp_all add: full_write.simps [of p] next_outcome_def Let_def split: outcome.splits)

lemma full_write_result:
  assumes "full_write p b off w = (ok, w')"
  shows "same_except p w w' \<and> length (contents w p) \<le> length (contents w' p) \<and>
    (\<forall>j. \<not> (off \<le> j \<and> j < off + length b) \<longrightarrow> byte_at (contents w' p) j = byte_at (contents w p) j) \<and>
    (ok \<and> b \<noteq> [] \<longrightarrow> contents w' p = write_block (contents w p) off b)"
  using assms
proof (induction "w_script w" arbitrary: b off w)
  case Nil
  then show ?case by (cases "b = []") (auto simp: full_write_step byte_at_write_block)
next
  case (Cons r rs)
  note s = Cons.hyps(2) [symmetric]
  show ?case
  proof (cases "b = []")
    case True then show ?thesis using Cons.prems by (simp add: full_write_step)
  next
    case False
    note st = full_write_step(3) [OF False s]
    show ?thesis
    proof (cases r)
      case (Io_short n)
      let ?n = "min n (length b)" and ?w = "w\<lparr>w_script := rs\<rparr>"
      let ?v = "if ?n = 0 then ?w else pwrite_file p off (take ?n b) ?w"
      have rec: "full_write p (drop ?n b) (off + ?n) ?v = (ok, w')" using Cons.prems st Io_short by (simp add: Let_def)
      have vs: "rs = w_script ?v" by simp
      note IH = Cons.hyps(1) [OF vs rec]
      show ?thesis
      proof (cases "?n = 0")
        case True
        then show ?thesis using IH by simp
      next
        case F2: False
        then have tk: "take ?n b \<noteq> []" using False by simp
        have v: "?v = pwrite_file p off (take ?n b) ?w" by (rule if_not_P [OF F2])
        have c: "contents ?v p = write_block (contents w p) off (take ?n b)" unfolding v by simp
        have bt: "byte_at (contents ?v p) j = byte_at (contents w p) j" if "\<not> (off \<le> j \<and> j < off + length b)" for j
          using that byte_at_write_block [OF tk, of "contents w p" off j] c by auto
        have sp: "contents w' p = write_block (contents w p) off b" if ok
        proof (cases "drop ?n b = []")
          case True
          then have "take ?n b = b" by simp
          moreover have "w' = ?v" using rec True full_write_step(1) [of p "off + ?n" ?v] by simp
          ultimately show ?thesis using c by simp
        next
          case F3: False
          then have "contents w' p = write_block (contents ?v p) (off + ?n) (drop ?n b)" using IH that by blast
          also have "\<dots> = write_block (write_block (contents w p) off (take ?n b)) (off + length (take ?n b)) (drop ?n b)" using c by simp
          also have "\<dots> = write_block (contents w p) off b" using write_block_split [OF tk, of "contents w p" off "drop ?n b"] by simp
          finally show ?thesis .
        qed
        have se: "same_except p w w'" using IH unfolding v by simp
        have "byte_at (contents w' p) j = byte_at (contents w p) j" if "\<not> (off \<le> j \<and> j < off + length b)" for j
        proof -
          have "\<not> (off + ?n \<le> j \<and> j < off + ?n + length (drop ?n b))" using that by auto
          then show ?thesis using IH bt [OF that] by simp
        qed
        moreover have "length (contents w p) \<le> length (contents w' p)" using IH c by (metis le_trans length_write_block max.cobounded1)
        ultimately show ?thesis using se sp by blast
      qed
    next
      case Io_all then show ?thesis using Cons.prems st False by (auto simp: Let_def byte_at_write_block)
    next
      case Io_eintr then show ?thesis using Cons.hyps(1) [of "w\<lparr>w_script := rs\<rparr>" b off] Cons.prems st by (simp add: Let_def)
    next
      case Io_error then show ?thesis using Cons.prems st by (auto simp: Let_def)
    qed
  qed
qed

lemma full_write_calm: "calm w \<Longrightarrow> fst (full_write p b off w) \<and> calm (snd (full_write p b off w))"
proof (induction "w_script w" arbitrary: b off w)
  case Nil
  then show ?case by (cases "b = []") (auto simp: full_write_step)
next
  case (Cons r rs)
  note cs = calm_script [OF Cons.prems Cons.hyps(2) [symmetric]]
  show ?case
  proof (cases "b = []")
    case True then show ?thesis using Cons.prems by (simp add: full_write_step)
  next
    case False
    have IH: "fst (full_write p b' off' w') \<and> calm (snd (full_write p b' off' w'))" if "w_script w' = rs" "calm w'" for b' off' w'
      using Cons.hyps(1) [of w' b' off'] that by simp
    show ?thesis using cs False
      by (cases r) (simp_all add: full_write_step(3) [OF False Cons.hyps(2) [symmetric]] Let_def IH)
  qed
qed

lemma flush_through_frame:
  assumes "flush_through lsn (m, w) = (ok, m', w')"
  shows "w_files w' = w_files w" "wal_path m' = wal_path m" "last_lsn m' = last_lsn m"
    "ok \<Longrightarrow> lsn \<le> last_lsn m \<Longrightarrow> lsn \<le> durable_lsn m'" "durable_lsn m \<le> last_lsn m \<Longrightarrow> durable_lsn m \<le> durable_lsn m'"
    "log_is (m, w) recs \<Longrightarrow> log_is (m', w') recs"
proof -
  have "w_files w' = w_files w \<and> wal_path m' = wal_path m \<and> last_lsn m' = last_lsn m \<and>
    (ok \<longrightarrow> lsn \<le> last_lsn m \<longrightarrow> lsn \<le> durable_lsn m') \<and> (durable_lsn m \<le> last_lsn m \<longrightarrow> durable_lsn m \<le> durable_lsn m')"
    using assms by (auto simp: flush_through_def flush_def split: if_splits prod.splits dest!: fdatasync_loop_result)
  then show "w_files w' = w_files w" "wal_path m' = wal_path m" "last_lsn m' = last_lsn m"
    "ok \<Longrightarrow> lsn \<le> last_lsn m \<Longrightarrow> lsn \<le> durable_lsn m'" "durable_lsn m \<le> last_lsn m \<Longrightarrow> durable_lsn m \<le> durable_lsn m'" by auto
  show "log_is (m', w') recs" if "log_is (m, w) recs"
    using assms log_is_flush(1) [OF that, of ok m' w'] that by (auto simp: flush_through_def split: if_splits)
qed

section \<open>Invariant and view\<close>

text \<open>
  A cache over one file: the keys of the frames are those of the recency list, a frame holds a
  whole page, there are never more frames than the capacity, and a clean frame agrees
  with the file up to an abstraction \<open>al\<close> of pages (the identity, or the records of a page when
  clean frames may have been compacted in memory). The log is another file.
\<close>

definition cache_ok :: "cache \<Rightarrow> bool" where
  "cache_ok c \<longleftrightarrow> 1 \<le> c_capacity c \<and> length (c_pages c) \<le> c_capacity c \<and> distinct (map fst (c_pages c)) \<and> distinct (c_lru c) \<and>
     set (c_lru c) = dom (map_of (c_pages c)) \<and> (\<forall>k fr. map_of (c_pages c) k = Some fr \<longrightarrow> length (f_page fr) = PAGE_SIZE)"

definition cinv :: "(page \<Rightarrow> 'a) \<Rightarrow> string \<Rightarrow> string \<Rightarrow> cstate \<Rightarrow> bool" where
  "cinv al f p = (\<lambda>(c, wm, w). cache_ok c \<and> (\<forall>k fr. map_of (c_pages c) k = Some fr \<longrightarrow> fst k = f) \<and>
     (\<forall>k fr. map_of (c_pages c) k = Some fr \<longrightarrow> \<not> f_dirty fr \<longrightarrow> al (f_page fr) = al (page_bytes w p (unat (snd k)))) \<and>
     (\<forall>m. wm = Some m \<longrightarrow> wal_path m \<noteq> p))"

text \<open>The page a reader sees: the frame when there is one, the file otherwise.\<close>

definition view :: "(page \<Rightarrow> 'a) \<Rightarrow> string \<Rightarrow> cache \<Rightarrow> world \<Rightarrow> page_key \<Rightarrow> 'a" where
  "view al p c w k = al (case map_of (c_pages c) k of Some fr \<Rightarrow> f_page fr | None \<Rightarrow> page_bytes w p (unat (snd k)))"

text \<open>A step that changes no page for a reader.\<close>

definition quiet :: "(page \<Rightarrow> 'a) \<Rightarrow> string \<Rightarrow> string \<Rightarrow> cstate \<Rightarrow> cstate \<Rightarrow> bool" where
  "quiet al f p = (\<lambda>(c, wm, w) (c', wm', w').
     cinv al f p (c', wm', w') \<and> c_capacity c' = c_capacity c \<and> (\<forall>i. view al p c' w' (f, i) = view al p c w (f, i)) \<and>
     (\<forall>g. g \<noteq> p \<longrightarrow> w_files w' g = w_files w g) \<and> length (contents w p) \<le> length (contents w' p) \<and>
     map_option wal_path wm' = map_option wal_path wm)"

lemma quiet_refl: "cinv al f p s \<Longrightarrow> quiet al f p s s"
  by (cases s) (simp add: quiet_def)

lemma quiet_trans: "quiet al f p s s' \<Longrightarrow> quiet al f p s' s'' \<Longrightarrow> quiet al f p s s''"
  by (cases s, cases s', cases s'') (auto simp: quiet_def)

lemma cinvD:
  assumes "cinv al f p (c, wm, w)"
  shows "cache_ok c" "map_of (c_pages c) k = Some fr \<Longrightarrow> fst k = f" "wm = Some m \<Longrightarrow> wal_path m \<noteq> p"
    "map_of (c_pages c) k = Some fr \<Longrightarrow> \<not> f_dirty fr \<Longrightarrow> al (f_page fr) = al (page_bytes w p (unat (snd k)))"
    "map_of (c_pages c) k = Some fr \<Longrightarrow> length (f_page fr) = PAGE_SIZE"
  using assms unfolding cinv_def cache_ok_def by blast+

lemma cinvI:
  assumes "cache_ok c" "\<And>k fr. map_of (c_pages c) k = Some fr \<Longrightarrow> fst k = f" "\<And>m. wm = Some m \<Longrightarrow> wal_path m \<noteq> p"
    "\<And>k fr. map_of (c_pages c) k = Some fr \<Longrightarrow> \<not> f_dirty fr \<Longrightarrow> al (f_page fr) = al (page_bytes w p (unat (snd k)))"
  shows "cinv al f p (c, wm, w)"
  using assms unfolding cinv_def by blast

lemma unat_key_eq: "unat (i :: u32) = unat j \<longleftrightarrow> i = j"
  by (metis word_unat_eq_iff)

lemma write_frame_result:
  assumes "write_frame (Some p) key fr (wm, w) = (ok, wm', w')" "length (f_page fr) = PAGE_SIZE" "\<forall>m. wm = Some m \<longrightarrow> wal_path m \<noteq> p"
  shows "\<And>g. g \<noteq> p \<Longrightarrow> w_files w' g = w_files w g" "length (contents w p) \<le> length (contents w' p)"
    "\<And>i. i \<noteq> unat (snd key) \<Longrightarrow> page_bytes w' p i = page_bytes w p i"
    "ok \<Longrightarrow> page_bytes w' p (unat (snd key)) = f_page fr"
    "map_option wal_path wm' = map_option wal_path wm"
proof -
  let ?P = "\<lambda>w1. (\<forall>g. w_files w1 g = w_files w g) \<longrightarrow> full_write p (f_page fr) (unat (snd key) * PAGE_SIZE) w1 = (ok, w') \<longrightarrow>
     (\<forall>g. g \<noteq> p \<longrightarrow> w_files w' g = w_files w g) \<and> length (contents w p) \<le> length (contents w' p) \<and>
     (\<forall>i. i \<noteq> unat (snd key) \<longrightarrow> page_bytes w' p i = page_bytes w p i) \<and> (ok \<longrightarrow> page_bytes w' p (unat (snd key)) = f_page fr)"
  have wr: "?P w1" for w1
  proof (intro impI)
    assume e: "\<forall>g. w_files w1 g = w_files w g" and fw: "full_write p (f_page fr) (unat (snd key) * PAGE_SIZE) w1 = (ok, w')"
    have c: "contents w1 g = contents w g" for g using e by (simp add: contents_def)
    note r = full_write_result [OF fw]
    have "page_bytes w' p i = page_bytes w p i" if "i \<noteq> unat (snd key)" for i
    proof -
      have "\<not> (unat (snd key) * PAGE_SIZE \<le> i * PAGE_SIZE + j \<and> i * PAGE_SIZE + j < unat (snd key) * PAGE_SIZE + PAGE_SIZE)" if "j < PAGE_SIZE" for j
        using that \<open>i \<noteq> unat (snd key)\<close> by (cases "i < unat (snd key)") (auto simp: PAGE_SIZE_def)
      then show ?thesis using r assms(2) c by (simp add: page_bytes_def)
    qed
    moreover have "page_bytes w' p (unat (snd key)) = f_page fr" if ok
      using page_bytes_written [OF _ assms(2), of w' p w1 "unat (snd key)"] r that page_sized_not_empty [OF assms(2)] by simp
    ultimately show "(\<forall>g. g \<noteq> p \<longrightarrow> w_files w' g = w_files w g) \<and> length (contents w p) \<le> length (contents w' p) \<and>
     (\<forall>i. i \<noteq> unat (snd key) \<longrightarrow> page_bytes w' p i = page_bytes w p i) \<and> (ok \<longrightarrow> page_bytes w' p (unat (snd key)) = f_page fr)"
      using r e c by (simp add: same_except_def)
  qed
  have all: "(\<forall>g. g \<noteq> p \<longrightarrow> w_files w' g = w_files w g) \<and> length (contents w p) \<le> length (contents w' p) \<and>
     (\<forall>i. i \<noteq> unat (snd key) \<longrightarrow> page_bytes w' p i = page_bytes w p i) \<and> (ok \<longrightarrow> page_bytes w' p (unat (snd key)) = f_page fr) \<and>
     map_option wal_path wm' = map_option wal_path wm"
  proof (cases wm)
    case None
    then show ?thesis using assms(1) wr [of w] by (auto simp: write_frame_def split: prod.splits)
  next
    case (Some m)
    obtain okf m1 w1 where f: "flush_through (page_lsn (f_page fr)) (m, w) = (okf, m1, w1)" by (cases "flush_through (page_lsn (f_page fr)) (m, w)")
    note fr' = flush_through_frame(1,2) [OF f]
    show ?thesis
    proof (cases okf)
      case True
      obtain ok2 w2 where fw: "full_write p (f_page fr) (unat (snd key) * PAGE_SIZE) w1 = (ok2, w2)" by (cases "full_write p (f_page fr) (unat (snd key) * PAGE_SIZE) w1")
      then show ?thesis using assms(1) Some f True wr [of w1] fr' by (auto simp: write_frame_def)
    next
      case False
      then have "w' = w1" "wm' = Some m1" "\<not> ok" using assms(1) Some f by (auto simp: write_frame_def)
      then show ?thesis using fr' Some by (simp add: contents_def page_bytes_def)
    qed
  qed
  then show "\<And>g. g \<noteq> p \<Longrightarrow> w_files w' g = w_files w g" "length (contents w p) \<le> length (contents w' p)"
    "\<And>i. i \<noteq> unat (snd key) \<Longrightarrow> page_bytes w' p i = page_bytes w p i"
    "ok \<Longrightarrow> page_bytes w' p (unat (snd key)) = f_page fr"
    "map_option wal_path wm' = map_option wal_path wm" by auto
qed

text \<open>Writing a frame, failed or not, disturbs no reader.\<close>

lemma quiet_write_frame:
  assumes inv: "cinv al f p (c, wm, w)" and fr: "map_of (c_pages c) key = Some fr" and dirty: "f_dirty fr"
    and wr: "write_frame (Some p) key fr (wm, w) = (ok, wm', w')"
  shows "quiet al f p (c, wm, w) (c, wm', w')" "ok \<Longrightarrow> page_bytes w' p (unat (snd key)) = f_page fr"
proof -
  note I = cinvD [OF inv]
  have len: "length (f_page fr) = PAGE_SIZE" using I(5) fr by blast
  have wp: "\<forall>m. wm = Some m \<longrightarrow> wal_path m \<noteq> p" using I(3) by blast
  note r = write_frame_result [OF wr len wp]
  show "ok \<Longrightarrow> page_bytes w' p (unat (snd key)) = f_page fr" by (rule r(4))
  have kf: "fst key = f" using I(2) fr by blast
  have other: "unat (snd k) \<noteq> unat (snd key)" if "fst k = f" "k \<noteq> key" for k
    using that kf by (metis prod.expand unat_key_eq)
  have "al (f_page g) = al (page_bytes w' p (unat (snd k)))" if g: "map_of (c_pages c) k = Some g" "\<not> f_dirty g" for k g
  proof -
    have k: "k \<noteq> key" "fst k = f" using g dirty fr I(2) [OF g(1)] by auto
    then have "page_bytes w' p (unat (snd k)) = page_bytes w p (unat (snd k))" using r(3) other by simp
    then show ?thesis using I(4) [OF g] by simp
  qed
  moreover have "wal_path m \<noteq> p" if "wm' = Some m" for m using r(5) wp that by (cases wm) auto
  ultimately have "cinv al f p (c, wm', w')" using I(1,2) by (intro cinvI)
  moreover have "view al p c w' (f, i) = view al p c w (f, i)" for i
    using r(3) other [of "(f, i)"] fr by (cases "(f, i) = key") (auto simp: view_def split: option.splits)
  ultimately show "quiet al f p (c, wm, w) (c, wm', w')" using r by (simp add: quiet_def)
qed

section \<open>Operations that disturb no reader\<close>

text \<open>A pinned frame stays, and no frame appears.\<close>

definition kept :: "cache \<Rightarrow> cache \<Rightarrow> bool" where
  "kept c c' \<longleftrightarrow> (\<forall>k fr. map_of (c_pages c) k = Some fr \<longrightarrow> f_pins fr \<noteq> 0 \<longrightarrow> map_of (c_pages c') k = Some fr) \<and>
     (\<forall>k fr. map_of (c_pages c') k = Some fr \<longrightarrow> map_of (c_pages c) k = Some fr)"

lemma kept_refl [simp]: "kept c c"
  by (simp add: kept_def)

lemma kept_trans: "kept c c' \<Longrightarrow> kept c' c'' \<Longrightarrow> kept c c''"
  unfolding kept_def by blast

lemma cache_ok_drop:
  assumes "cache_ok c"
  shows "cache_ok (c\<lparr>c_lru := rev (remove1 k (rev (c_lru c))), c_pages := AList.delete k (c_pages c)\<rparr>)"
  using assms length_delete_le [of k "c_pages c"]
  by (auto simp: cache_ok_def delete_conv' AList.distinct_delete distinct_remove1 split: if_splits)

lemma quiet_drop:
  assumes inv: "cinv al f p (c, wm, w)" and fr: "map_of (c_pages c) k = Some fr" "al (f_page fr) = al (page_bytes w p (unat (snd k)))"
  shows "quiet al f p (c, wm, w) (c\<lparr>c_lru := rev (remove1 k (rev (c_lru c))), c_pages := AList.delete k (c_pages c)\<rparr>, wm, w)" (is "quiet al f p _ (?c, _)")
proof -
  note I = cinvD [OF inv]
  have "cinv al f p (?c, wm, w)"
    using cache_ok_drop [OF I(1)] I(2-4) by (intro cinvI) (auto simp: delete_conv' split: if_splits)
  then show ?thesis using fr by (simp add: quiet_def view_def delete_conv')
qed

lemma evict_scan_quiet:
  assumes "cinv al f p (c, wm, w)" "evict_scan (Some p) ks (c, wm, w) = (ok, c', wm', w')"
  shows "quiet al f p (c, wm, w) (c', wm', w') \<and> kept c c'"
  using assms(2)
proof (induction ks)
  case Nil
  then show ?case using assms(1) by (simp add: quiet_refl)
next
  case (Cons k ks)
  show ?case
  proof (cases "\<exists>fr. map_of (c_pages c) k = Some fr \<and> f_pins fr = 0")
    case False
    then show ?thesis using Cons by (auto split: option.splits if_splits)
  next
    case True
    then obtain fr where fr: "map_of (c_pages c) k = Some fr" "f_pins fr = 0" by blast
    let ?d = "c\<lparr>c_lru := rev (remove1 k (rev (c_lru c))), c_pages := AList.delete k (c_pages c)\<rparr>"
    have kd: "kept c ?d" using fr by (auto simp: kept_def delete_conv' split: if_splits)
    show ?thesis
    proof (cases "f_dirty fr")
      case True
      obtain okw wm1 w1 where wr: "write_frame (Some p) k fr (wm, w) = (okw, wm1, w1)" by (cases "write_frame (Some p) k fr (wm, w)")
      note q = quiet_write_frame [OF assms(1) fr(1) True wr]
      have inv1: "cinv al f p (c, wm1, w1)" using q(1) by (simp add: quiet_def)
      show ?thesis
      proof (cases okw)
        case True
        then have "c' = ?d" "wm' = wm1" "w' = w1" using Cons.prems fr \<open>f_dirty fr\<close> wr by auto
        then show ?thesis using quiet_trans [OF q(1) quiet_drop [OF inv1 fr(1) arg_cong [OF q(2) [OF True, symmetric], of al]]] kd by simp
      next
        case False
        then have "c' = c" "wm' = wm1" "w' = w1" using Cons.prems fr \<open>f_dirty fr\<close> wr by auto
        then show ?thesis using q(1) by simp
      qed
    next
      case False
      then have "c' = ?d" "wm' = wm" "w' = w" using Cons.prems fr by auto
      then show ?thesis using quiet_drop [OF assms(1) fr(1)] cinvD(4) [OF assms(1) fr(1) False] kd by simp
    qed
  qed
qed

lemma evict_to_fit_quiet:
  "cinv al f p (c, wm, w) \<Longrightarrow> evict_to_fit (Some p) (c, wm, w) = (ok, c', wm', w') \<Longrightarrow>
   quiet al f p (c, wm, w) (c', wm', w') \<and> kept c c' \<and> (ok \<longrightarrow> length (c_pages c') < c_capacity c')"
proof (induction "length (c_pages c)" arbitrary: c wm w rule: less_induct)
  case less
  show ?case
  proof (cases "c_capacity c \<le> length (c_pages c)")
    case True
    obtain ok1 c1 wm1 w1 where e: "evict_one_page (Some p) (c, wm, w) = (ok1, c1, wm1, w1)" by (cases "evict_one_page (Some p) (c, wm, w)")
    note q = evict_scan_quiet [OF less.prems(1) e [unfolded evict_one_page_def]]
    have inv1: "cinv al f p (c1, wm1, w1)" using q by (simp add: quiet_def)
    show ?thesis
    proof (cases ok1)
      case T: True
      have m: "evict_to_fit (Some p) (c1, wm1, w1) = (ok, c', wm', w')" using less.prems(2) True e T by (subst (asm) evict_to_fit.simps) simp
      have l: "length (c_pages c1) < length (c_pages c)" using e T evict_scan_shrinks by (simp add: evict_one_page_def)
      show ?thesis using less.hyps [OF l inv1 m] q quiet_trans kept_trans by blast
    next
      case False
      then show ?thesis using less.prems(2) True e q by (subst (asm) evict_to_fit.simps) simp
    qed
  next
    case False
    then show ?thesis using less.prems by (subst (asm) evict_to_fit.simps) (simp add: quiet_refl)
  qed
qed

lemma length_alist_update: "k \<in> fst ` set al \<Longrightarrow> length (AList.update k v al) = length al"
  by (induction al) auto

lemma cache_ok_update:
  assumes "cache_ok c" "map_of (c_pages c) k = Some fr" "length (f_page fr') = PAGE_SIZE" "distinct l" "set l = set (c_lru c)"
  shows "cache_ok (c\<lparr>c_lru := l, c_pages := AList.update k fr' (c_pages c)\<rparr>)"
proof -
  have "k \<in> fst ` set (c_pages c)" using map_of_SomeD [OF assms(2)] by force
  then show ?thesis using assms by (auto simp: cache_ok_def update_conv' AList.distinct_update length_alist_update split: if_splits)
qed

lemma lru_moved: "cache_ok c \<Longrightarrow> map_of (c_pages c) k = Some fr \<Longrightarrow> distinct (k # remove1 k (c_lru c)) \<and> set (k # remove1 k (c_lru c)) = set (c_lru c)"
  by (auto simp: cache_ok_def)

lemma cinv_update:
  assumes inv: "cinv al f p (c, wm, w)" and fr: "map_of (c_pages c) k = Some fr" and len: "length (f_page fr') = PAGE_SIZE"
    and cl: "\<not> f_dirty fr' \<longrightarrow> al (f_page fr') = al (page_bytes w p (unat (snd k)))" and lru: "distinct l" "set l = set (c_lru c)"
  shows "cinv al f p (c\<lparr>c_lru := l, c_pages := AList.update k fr' (c_pages c)\<rparr>, wm, w)" (is "cinv al f p (?c, _)")
proof (rule cinvI)
  note I = cinvD [OF inv]
  show "cache_ok ?c" using cache_ok_update [OF I(1) fr len lru] .
  have m: "map_of (c_pages ?c) k' = (if k' = k then Some fr' else map_of (c_pages c) k')" for k' by (simp add: update_conv')
  show "fst k' = f" if "map_of (c_pages ?c) k' = Some g" for k' g
    using that I(2) [OF fr] I(2) [of k' g] unfolding m by (cases "k' = k") simp_all
  show "al (f_page g) = al (page_bytes w p (unat (snd k')))" if "map_of (c_pages ?c) k' = Some g" "\<not> f_dirty g" for k' g
    using that I(4) [of k' g] cl unfolding m by (cases "k' = k") simp_all
  show "wal_path m' \<noteq> p" if "wm = Some m'" for m' using I(3) that by blast
qed

lemma quiet_update_frame:
  assumes inv: "cinv al f p (c, wm, w)" and fr: "map_of (c_pages c) k = Some fr"
    and "f_page fr' = f_page fr" "f_dirty fr \<longrightarrow> f_dirty fr' \<or> al (f_page fr) = al (page_bytes w p (unat (snd k)))"
    and lru: "distinct l" "set l = set (c_lru c)"
  shows "quiet al f p (c, wm, w) (c\<lparr>c_lru := l, c_pages := AList.update k fr' (c_pages c)\<rparr>, wm, w)" (is "quiet al f p _ (?c, _)")
proof -
  note I = cinvD [OF inv]
  have "\<not> f_dirty fr' \<longrightarrow> al (f_page fr') = al (page_bytes w p (unat (snd k)))" using assms(3,4) I(4) [OF fr] by auto
  then have "cinv al f p (?c, wm, w)" using cinv_update [OF inv fr _ _ lru] I(5) [OF fr] assms(3) by simp
  then show ?thesis using fr assms(3) by (simp add: quiet_def view_def update_conv')
qed

section \<open>Pages pinned and changed\<close>

definition unpinned :: "cache \<Rightarrow> bool" where
  "unpinned c \<longleftrightarrow> (\<forall>k fr. map_of (c_pages c) k = Some fr \<longrightarrow> f_pins fr = 0)"

text \<open>Exactly the frame \<open>k\<close> is pinned, once.\<close>

definition pinned_at :: "page_key \<Rightarrow> cache \<Rightarrow> bool" where
  "pinned_at k c \<longleftrightarrow> (\<exists>fr. map_of (c_pages c) k = Some fr \<and> f_pins fr = 1) \<and>
     (\<forall>k' fr. map_of (c_pages c) k' = Some fr \<longrightarrow> k' \<noteq> k \<longrightarrow> f_pins fr = 0)"

lemma unpinned_kept: "kept c c' \<Longrightarrow> unpinned c \<Longrightarrow> unpinned c'"
  unfolding kept_def unpinned_def by blast

text \<open>A step that sets one page for every reader.\<close>

definition sets_page :: "(page \<Rightarrow> 'a) \<Rightarrow> string \<Rightarrow> string \<Rightarrow> u32 \<Rightarrow> page \<Rightarrow> cstate \<Rightarrow> cstate \<Rightarrow> bool" where
  "sets_page al f p i pg = (\<lambda>(c, wm, w) (c', wm', w').
     cinv al f p (c', wm', w') \<and> c_capacity c' = c_capacity c \<and> (\<forall>j. view al p c' w' (f, j) = (if j = i then al pg else view al p c w (f, j))) \<and>
     (\<forall>g. g \<noteq> p \<longrightarrow> w_files w' g = w_files w g) \<and> length (contents w p) \<le> length (contents w' p) \<and>
     map_option wal_path wm' = map_option wal_path wm)"

lemma quiet_sets:
  assumes "quiet al f p s s'" "sets_page al f p i pg s' s''"
  shows "sets_page al f p i pg s s''"
proof -
  obtain c wm w c' wm' w' c'' wm'' w'' where s: "s = (c, wm, w)" "s' = (c', wm', w')" "s'' = (c'', wm'', w'')" by (cases s, cases s', cases s'')
  note q = assms(1) [unfolded s quiet_def prod.case] and r = assms(2) [unfolded s sets_page_def prod.case]
  have "view al p c'' w'' (f, j) = (if j = i then al pg else view al p c w (f, j))" for j using q r by metis
  moreover have "w_files w'' g = w_files w g" if "g \<noteq> p" for g using q r that by metis
  moreover have "length (contents w p) \<le> length (contents w'' p)" using q r by linarith
  ultimately show ?thesis unfolding s sets_page_def prod.case using q r by metis
qed

lemma cache_ok_add:
  assumes "cache_ok c" "length (c_pages c) < c_capacity c" "map_of (c_pages c) k = None" "length (f_page fr) = PAGE_SIZE"
  shows "cache_ok (c\<lparr>c_lru := k # c_lru c, c_pages := (k, fr) # c_pages c\<rparr>)"
  using assms by (auto simp: cache_ok_def map_of_eq_None_iff domIff)

lemma read_page_result:
  assumes "read_page_from_disk (Some p) key w = (res, w')"
  shows "same_data w w'" "res = Some pg \<Longrightarrow> pg = page_bytes w p (unat (snd key))"
proof -
  have "full_read_at p [] PAGE_SIZE (unat (snd key) * PAGE_SIZE) w = (res, w')" using assms by (simp add: read_page_from_disk_def full_read_def)
  from full_read_at_result [OF this] page_bytes_get [of "unat (snd key)" w p]
  show "same_data w w'" "res = Some pg \<Longrightarrow> pg = page_bytes w p (unat (snd key))" by (auto simp: PAGE_SIZE_def algebra_simps)
qed

lemma quiet_same_data:
  assumes "cinv al f p (c, wm, w)" "same_data w w'"
  shows "quiet al f p (c, wm, w) (c, wm, w')"
proof -
  have e: "contents w' g = contents w g" for g using assms(2) by (rule same_data_contents)
  then have "page_bytes w' p i = page_bytes w p i" for i by (intro page_bytes_cong) simp
  moreover from this have "view al p c w' k = view al p c w k" for k by (simp add: view_def cong: option.case_cong)
  ultimately show ?thesis using assms e unfolding quiet_def cinv_def same_data_def by simp
qed

lemma quiet_counters [simp]:
  "cinv al f p (c\<lparr>c_misses := n\<rparr>, ww) = cinv al f p (c, ww)" "quiet al f p (c\<lparr>c_misses := n\<rparr>, ww) s = quiet al f p (c, ww) s" "kept (c\<lparr>c_misses := n\<rparr>) c' = kept c c'"
  "cinv al f p (c\<lparr>c_hits := n\<rparr>, ww) = cinv al f p (c, ww)" "quiet al f p (c\<lparr>c_hits := n\<rparr>, ww) s = quiet al f p (c, ww) s"
  by (cases ww; cases s; simp add: cinv_def cache_ok_def quiet_def view_def kept_def)+

lemma fetch_page_result:
  assumes inv: "cinv al (lexically_normal path) p (c, wm, w)" and fe: "fetch_page path i (Some p) (c, wm, w) = (ok, c', wm', w')"
  defines "key \<equiv> make_key path i"
  shows "quiet al (lexically_normal path) p (c, wm, w) (c', wm', w')"
    "ok \<Longrightarrow> al (frame_page key c') = view al p c w key"
    "unpinned c \<Longrightarrow> (if ok then pinned_at key c' else unpinned c')"
proof -
  let ?f = "lexically_normal path"
  have "quiet al ?f p (c, wm, w) (c', wm', w') \<and> (ok \<longrightarrow> al (frame_page key c') = view al p c w key) \<and>
    (unpinned c \<longrightarrow> (if ok then pinned_at key c' else unpinned c'))"
  proof (cases "map_of (c_pages c) key")
    case (Some fr)
    let ?fr = "fr\<lparr>f_pins := f_pins fr + 1\<rparr>"
    let ?c = "c\<lparr>c_hits := c_hits c + 1\<rparr>"
    have r: "ok" "c' = ?c\<lparr>c_lru := key # remove1 key (c_lru c), c_pages := AList.update key ?fr (c_pages c)\<rparr>" "wm' = wm" "w' = w"
      using fe Some by (auto simp: fetch_page_def touch_def key_def Let_def)
    note lm = lru_moved [OF cinvD(1) [OF inv] Some]
    have "quiet al ?f p (c, wm, w) (c', wm', w')"
      using quiet_update_frame [of al ?f p ?c wm w key fr ?fr] inv Some lm by (simp add: r)
    then show ?thesis using Some r by (auto simp: frame_page_def view_def update_conv' unpinned_def pinned_at_def split: if_splits)
  next
    case None
    obtain ok1 c1 wm1 w1 where m: "evict_to_fit (Some p) (c\<lparr>c_misses := c_misses c + 1\<rparr>, wm, w) = (ok1, c1, wm1, w1)"
      by (cases "evict_to_fit (Some p) (c\<lparr>c_misses := c_misses c + 1\<rparr>, wm, w)")
    have mr: "quiet al ?f p (c, wm, w) (c1, wm1, w1)" "kept c c1" "ok1 \<Longrightarrow> length (c_pages c1) < c_capacity c1"
      using evict_to_fit_quiet [OF _ m, of al ?f] inv by auto
    have inv1: "cinv al ?f p (c1, wm1, w1)" using mr(1) by (simp add: quiet_def)
    have none1: "map_of (c_pages c1) key = None" using mr(2) None by (metis kept_def not_Some_eq)
    show ?thesis
    proof (cases ok1)
      case False
      then have "\<not> ok" "c' = c1" "wm' = wm1" "w' = w1" using fe None m by (auto simp: fetch_page_def key_def Let_def)
      then show ?thesis using mr unpinned_kept by auto
    next
      case True
      obtain res w2 where rd: "read_page_from_disk (Some p) key w1 = (res, w2)" by (cases "read_page_from_disk (Some p) key w1")
      note rr = read_page_result [OF rd]
      have q2: "quiet al ?f p (c, wm, w) (c1, wm1, w2)" using quiet_trans [OF mr(1) quiet_same_data [OF inv1 rr(1)]] .
      show ?thesis
      proof (cases res)
        case None2: None
        then have "\<not> ok" "c' = c1" "wm' = wm1" "w' = w2" using fe None m True rd by (auto simp: fetch_page_def key_def Let_def)
        then show ?thesis using q2 mr(2) unpinned_kept by auto
      next
        case (Some pg)
        let ?fr = "\<lparr> f_page = pg, f_dirty = False, f_pins = 1 \<rparr>"
        have r: "ok" "c' = c1\<lparr>c_lru := key # c_lru c1, c_pages := (key, ?fr) # c_pages c1\<rparr>" "wm' = wm1" "w' = w2"
          using fe None m True rd Some by (auto simp: fetch_page_def key_def Let_def)
        have inv2: "cinv al ?f p (c1, wm1, w2)" using q2 by (simp add: quiet_def)
        note I = cinvD [OF inv2]
        have pg: "pg = page_bytes w2 p (unat (snd key))" using rr Some by (metis page_bytes_cong same_data_contents)
        have "cache_ok c'" using cache_ok_add [OF I(1) mr(3) [OF True] none1, of ?fr] r pg by simp
        then have inv3: "cinv al ?f p (c', wm', w')" using I(2-4) pg by (intro cinvI) (auto simp: r key_def make_key_def split: if_splits)
        have "view al p c' w' k = view al p c1 w2 k" for k using pg none1 by (simp add: view_def r)
        then have q: "quiet al ?f p (c, wm, w) (c', wm', w')" using q2 inv3 by (simp add: quiet_def r)
        have "al (frame_page key c') = view al p c w key"
        proof -
          have "al (frame_page key c') = view al p c' w' key" by (simp add: frame_page_def view_def r)
          then show ?thesis using q by (simp add: quiet_def key_def make_key_def)
        qed
        moreover have "pinned_at key c'" if "unpinned c" using unpinned_kept [OF mr(2) that] by (auto simp: pinned_at_def unpinned_def r)
        ultimately show ?thesis using q r(1) by simp
      qed
    qed
  qed
  then show "quiet al ?f p (c, wm, w) (c', wm', w')" "ok \<Longrightarrow> al (frame_page key c') = view al p c w key"
    "unpinned c \<Longrightarrow> (if ok then pinned_at key c' else unpinned c')" by auto
qed

lemma sets_page_quiet: "al pg = view al p c w (f, i) \<Longrightarrow> sets_page al f p i pg (c, wm, w) s' = quiet al f p (c, wm, w) s'"
  by (cases s') (auto simp: sets_page_def quiet_def)

lemma alist_update_same: "map_of al k = Some v \<Longrightarrow> AList.update k v al = al"
  by (induction al) (auto split: if_splits)

lemma set_frame_page_same: "map_of (c_pages c) k = Some fr \<Longrightarrow> set_frame_page k (frame_page k c) c = c"
  by (simp add: set_frame_page_def frame_page_def alist_update_same)

lemma set_frame_page_twice: "set_frame_page k a (set_frame_page k b c) = set_frame_page k a c"
  by (simp add: set_frame_page_def update_conv' update_last split: option.splits)

lemma view_update: "view al p (c\<lparr>c_pages := AList.update k fr (c_pages c)\<rparr>) w k' = (if k' = k then al (f_page fr) else view al p c w k')"
  by (simp add: view_def update_conv')

lemma view_lru [simp]: "view al p (c\<lparr>c_lru := l\<rparr>) w k = view al p c w k"
  by (simp add: view_def)

lemma pinned_update:
  assumes "unpinned c" "f_pins fr = 1"
  shows "pinned_at k (c\<lparr>c_pages := AList.update k fr (c_pages c)\<rparr>)"
  unfolding pinned_at_def using assms by (simp add: update_conv' unpinned_def)

lemma pinned_lru [simp]: "pinned_at k (c\<lparr>c_lru := l\<rparr>) = pinned_at k c"
  by (simp add: pinned_at_def)

text \<open>Releasing a page, changed through its pointer or not.\<close>

lemma release_page:
  assumes inv: "cinv al (lexically_normal path) p (c, wm, w)" and pin: "pinned_at (make_key path i) c" and len: "length pg = PAGE_SIZE"
    and un: "unpin_page path i d (set_frame_page (make_key path i) pg c) = (ok, c')" and d: "d \<or> al pg = al (frame_page (make_key path i) c)"
  shows "ok" "unpinned c'" "sets_page al (lexically_normal path) p i pg (c, wm, w) (c', wm, w)"
proof -
  let ?k = "make_key path i"
  obtain fr where fr: "map_of (c_pages c) ?k = Some fr" "f_pins fr = 1" using pin by (auto simp: pinned_at_def)
  let ?fr = "fr\<lparr> f_page := pg, f_pins := 0, f_dirty := f_dirty fr \<or> d \<rparr>"
  have r: "ok" "c' = c\<lparr>c_pages := AList.update ?k ?fr (c_pages c)\<rparr>"
    using un fr by (auto simp: unpin_page_def set_frame_page_def update_conv' update_last Let_def)
  show "ok" by (rule r)
  show "unpinned c'" using pin by (auto simp: unpinned_def pinned_at_def r update_conv' split: if_splits)
  note I = cinvD [OF inv]
  have "al pg = al (page_bytes w p (unat (snd ?k)))" if "\<not> d" "\<not> f_dirty fr"
    using I(4) [OF fr(1) that(2)] d that(1) fr(1) by (simp add: frame_page_def)
  then have "cinv al (lexically_normal path) p (c', wm, w)"
    using cinv_update [OF inv fr(1), of ?fr "c_lru c"] len I(1) by (simp add: r cache_ok_def)
  then show "sets_page al (lexically_normal path) p i pg (c, wm, w) (c', wm, w)"
    by (simp add: sets_page_def r view_update make_key_def)
qed

lemma release_page_clean:
  assumes inv: "cinv al (lexically_normal path) p (c, wm, w)" and pin: "pinned_at (make_key path i) c"
    and un: "unpin_page path i False c = (ok, c')"
  shows "ok" "unpinned c'" "quiet al (lexically_normal path) p (c, wm, w) (c', wm, w)"
proof -
  obtain fr where fr: "map_of (c_pages c) (make_key path i) = Some fr" using pin by (auto simp: pinned_at_def)
  have v: "al (frame_page (make_key path i) c) = view al p c w (lexically_normal path, i)" using fr by (simp add: frame_page_def view_def make_key_def)
  have "length (frame_page (make_key path i) c) = PAGE_SIZE" using cinvD(5) [OF inv fr] fr by (simp add: frame_page_def)
  from release_page [OF inv pin this, of False ok c'] un set_frame_page_same [OF fr]
  show "ok" "unpinned c'" "quiet al (lexically_normal path) p (c, wm, w) (c', wm, w)" by (simp_all add: sets_page_quiet [OF v])
qed

lemma new_page_result:
  assumes inv: "cinv al (lexically_normal path) p (c, wm, w)" and nw: "new_page path i pg (Some p) (c, wm, w) = (ok, c', wm', w')" and len: "length pg = PAGE_SIZE"
  shows "if ok then sets_page al (lexically_normal path) p i pg (c, wm, w) (c', wm', w') else quiet al (lexically_normal path) p (c, wm, w) (c', wm', w')"
    "unpinned c \<Longrightarrow> (if ok then pinned_at (make_key path i) c' else unpinned c')"
proof -
  let ?f = "lexically_normal path" and ?k = "make_key path i"
  have "(if ok then sets_page al ?f p i pg (c, wm, w) (c', wm', w') else quiet al ?f p (c, wm, w) (c', wm', w')) \<and>
    (unpinned c \<longrightarrow> (if ok then pinned_at ?k c' else unpinned c'))"
  proof (cases "map_of (c_pages c) ?k")
    case (Some fr)
    let ?fr = "\<lparr> f_page = pg, f_dirty = True, f_pins = f_pins fr + 1 \<rparr>"
    have r: "ok" "c' = c\<lparr>c_lru := ?k # remove1 ?k (c_lru c), c_pages := AList.update ?k ?fr (c_pages c)\<rparr>" "wm' = wm" "w' = w"
      using nw Some by (auto simp: new_page_def touch_def Let_def)
    note lm = lru_moved [OF cinvD(1) [OF inv] Some]
    have "cinv al ?f p (c', wm', w')" using lm cinv_update [OF inv Some, of ?fr "?k # remove1 ?k (c_lru c)"] len by (simp add: r)
    then have "sets_page al ?f p i pg (c, wm, w) (c', wm', w')"
      using view_update [where c = "c\<lparr>c_lru := ?k # remove1 ?k (c_lru c)\<rparr>" and k = ?k and fr = ?fr and p = p and al = al] by (simp add: sets_page_def r make_key_def)
    moreover have "pinned_at ?k c'" if u: "unpinned c"
    proof -
      have "f_pins fr = 0" using u Some unfolding unpinned_def by blast
      moreover have "unpinned (c\<lparr>c_lru := ?k # remove1 ?k (c_lru c)\<rparr>)" using u by (simp add: unpinned_def)
      ultimately show ?thesis using pinned_update [where c = "c\<lparr>c_lru := ?k # remove1 ?k (c_lru c)\<rparr>" and k = ?k and fr = ?fr] by (simp add: r)
    qed
    ultimately show ?thesis using r(1) by simp
  next
    case None
    obtain ok1 c1 wm1 w1 where m: "evict_to_fit (Some p) (c, wm, w) = (ok1, c1, wm1, w1)" by (cases "evict_to_fit (Some p) (c, wm, w)")
    note mr = evict_to_fit_quiet [OF inv m]
    have inv1: "cinv al ?f p (c1, wm1, w1)" using mr by (simp add: quiet_def)
    have none1: "map_of (c_pages c1) ?k = None" using mr None by (metis kept_def not_Some_eq)
    show ?thesis
    proof (cases ok1)
      case False
      then have "\<not> ok" "c' = c1" "wm' = wm1" "w' = w1" using nw None m by (auto simp: new_page_def Let_def)
      then show ?thesis using mr unpinned_kept by auto
    next
      case True
      let ?fr = "\<lparr> f_page = pg, f_dirty = True, f_pins = 1 \<rparr>"
      have r: "ok" "c' = c1\<lparr>c_lru := ?k # c_lru c1, c_pages := (?k, ?fr) # c_pages c1\<rparr>" "wm' = wm1" "w' = w1"
        using nw None m True by (auto simp: new_page_def Let_def)
      note I = cinvD [OF inv1]
      have "cache_ok c'" using cache_ok_add [OF I(1) _ none1, of ?fr] mr True len by (simp add: r)
      then have "cinv al ?f p (c', wm', w')" using I(2-4) by (intro cinvI) (auto simp: r make_key_def split: if_splits)
      then have "sets_page al ?f p i pg (c1, wm1, w1) (c', wm', w')" by (auto simp: sets_page_def r view_def make_key_def)
      then have "sets_page al ?f p i pg (c, wm, w) (c', wm', w')" using mr quiet_sets by blast
      moreover have "pinned_at ?k c'" if "unpinned c" using unpinned_kept [of c c1] mr that by (auto simp: pinned_at_def unpinned_def r)
      ultimately show ?thesis using r(1) by simp
    qed
  qed
  then show "if ok then sets_page al ?f p i pg (c, wm, w) (c', wm', w') else quiet al ?f p (c, wm, w) (c', wm', w')"
    "unpinned c \<Longrightarrow> (if ok then pinned_at ?k c' else unpinned c')" by auto
qed

section \<open>Flushing\<close>

lemma alist_update_middle: "k \<notin> fst ` set xs \<Longrightarrow> AList.update k v (xs @ (k, u) # ys) = xs @ (k, v) # ys"
  by (induction xs) auto

lemma flush_frames_keys:
  "flush_frames fd rest ww = (ok, rest', ww') \<Longrightarrow>
   map fst rest' = map fst rest \<and> map (\<lambda>x. (f_page (snd x), f_pins (snd x))) rest' = map (\<lambda>x. (f_page (snd x), f_pins (snd x))) rest \<and>
   (ok \<longrightarrow> (\<forall>x\<in>set rest'. \<not> f_dirty (snd x)))"
proof (induction rest arbitrary: ww ww' rest' ok)
  case (Cons x rest)
  obtain k fr where x: "x = (k, fr)" by (cases x)
  obtain okw ww1 where wr: "write_frame fd k fr ww = (okw, ww1)" by (cases "write_frame fd k fr ww")
  let ?ww = "if f_dirty fr then ww1 else ww"
  obtain oks r2 ww2 where f: "flush_frames fd rest ?ww = (oks, r2, ww2)" by (cases "flush_frames fd rest ?ww")
  show ?case using Cons.IH [OF f] Cons.prems x wr f by (auto split: if_splits)
qed simp

lemma flush_frames_quiet:
  "cinv al f p (c\<lparr>c_pages := dn @ rest\<rparr>, wm, w) \<Longrightarrow> flush_frames (Some p) rest (wm, w) = (ok, rest', wm', w') \<Longrightarrow>
   quiet al f p (c\<lparr>c_pages := dn @ rest\<rparr>, wm, w) (c\<lparr>c_pages := dn @ rest'\<rparr>, wm', w')"
proof (induction rest arbitrary: dn wm w wm' w' ok rest')
  case Nil
  then show ?case by (simp add: quiet_refl)
next
  case (Cons x rest)
  obtain k fr where x: "x = (k, fr)" by (cases x)
  let ?c = "c\<lparr>c_pages := dn @ (k, fr) # rest\<rparr>"
  have inv: "cinv al f p (?c, wm, w)" using Cons.prems(1) x by simp
  have dist: "distinct (map fst (dn @ (k, fr) # rest))" using cinvD(1) [OF inv] by (simp add: cache_ok_def)
  then have kd: "k \<notin> fst ` set dn" by auto
  then have fr: "map_of (c_pages ?c) k = Some fr" by (simp add: map_add_def map_of_eq_None_iff [THEN iffD2] split: option.splits)
  obtain okw wm1 w1 where wr: "write_frame (Some p) k fr (wm, w) = (okw, wm1, w1)" by (cases "write_frame (Some p) k fr (wm, w)")
  define fr1 where "fr1 = (if f_dirty fr \<and> okw then fr\<lparr>f_dirty := False\<rparr> else fr)"
  define s1 where "s1 = (if f_dirty fr then (wm1, w1) else (wm, w))"
  have q1: "quiet al f p (?c, wm, w) (c\<lparr>c_pages := (dn @ [(k, fr1)]) @ rest\<rparr>, s1)"
  proof (cases "f_dirty fr")
    case True
    note qw = quiet_write_frame [OF inv fr True wr]
    have inv1: "cinv al f p (?c, wm1, w1)" using qw(1) by (simp add: quiet_def)
    have "okw \<Longrightarrow> quiet al f p (?c, wm1, w1) (?c\<lparr>c_lru := c_lru ?c, c_pages := AList.update k fr1 (c_pages ?c)\<rparr>, wm1, w1)"
      using quiet_update_frame [OF inv1 fr, of fr1 "c_lru ?c"] qw(2) True cinvD(1) [OF inv1] by (simp add: fr1_def cache_ok_def)
    then have "okw \<Longrightarrow> quiet al f p (?c, wm1, w1) (c\<lparr>c_pages := (dn @ [(k, fr1)]) @ rest\<rparr>, wm1, w1)"
      using alist_update_middle [OF kd, of fr1 fr rest] by simp
    then show ?thesis using qw(1) quiet_trans True by (cases okw) (auto simp: s1_def fr1_def)
  next
    case False
    then show ?thesis using inv by (simp add: fr1_def s1_def quiet_refl)
  qed
  obtain oks r2 wm2 w2 where f: "flush_frames (Some p) rest s1 = (oks, r2, wm2, w2)" by (cases "flush_frames (Some p) rest s1")
  have res: "rest' = (k, fr1) # r2" "wm' = wm2" "w' = w2"
    using Cons.prems(2) f wr by (auto simp: x s1_def fr1_def split: if_splits)
  obtain wma wa where s1: "s1 = (wma, wa)" by (cases s1)
  have "cinv al f p (c\<lparr>c_pages := (dn @ [(k, fr1)]) @ rest\<rparr>, wma, wa)" using q1 by (simp add: quiet_def s1)
  from Cons.IH [OF this f [unfolded s1]] quiet_trans [OF q1 [unfolded s1]] show ?case by (simp add: res x)
qed

lemma flush_all_pages_result:
  assumes "cinv al f p (c, wm, w)" "flush_all_pages (Some p) (c, wm, w) = (ok, c', wm', w')"
  shows "quiet al f p (c, wm, w) (c', wm', w')" "unpinned c \<Longrightarrow> unpinned c'"
    "ok \<Longrightarrow> map_of (c_pages c') k = Some fr \<Longrightarrow> \<not> f_dirty fr"
proof -
  obtain rest' where f: "flush_frames (Some p) (c_pages c) (wm, w) = (ok, rest', wm', w')" "c' = c\<lparr>c_pages := rest'\<rparr>"
    using assms(2) by (auto simp: flush_all_pages_def split: prod.splits)
  have c: "c\<lparr>c_pages := [] @ c_pages c\<rparr> = c" by simp
  show "quiet al f p (c, wm, w) (c', wm', w')" using flush_frames_quiet [where dn = "[]", OF _ f(1), of al f c] assms(1) f(2) by simp
  note k = flush_frames_keys [OF f(1)]
  show "ok \<Longrightarrow> map_of (c_pages c') k = Some fr \<Longrightarrow> \<not> f_dirty fr" using k f(2) map_of_SomeD by fastforce
  show "unpinned c'" if u: "unpinned c"
    unfolding unpinned_def
  proof (intro allI impI)
    fix k2 fr2 assume "map_of (c_pages c') k2 = Some fr2"
    then have "(k2, fr2) \<in> set rest'" using f(2) map_of_SomeD by fastforce
    then obtain j where j: "j < length rest'" "rest' ! j = (k2, fr2)" by (auto simp: in_set_conv_nth)
    have len: "length rest' = length (c_pages c)" using k by (metis length_map)
    have "map (\<lambda>x. (f_page (snd x), f_pins (snd x))) rest' ! j = map (\<lambda>x. (f_page (snd x), f_pins (snd x))) (c_pages c) ! j"
      "map fst rest' ! j = map fst (c_pages c) ! j" using k by simp_all
    then have "f_pins (snd (rest' ! j)) = f_pins (snd (c_pages c ! j))" "fst (c_pages c ! j) = k2" using j len by simp_all
    moreover have "map_of (c_pages c) (fst (c_pages c ! j)) = Some (snd (c_pages c ! j))"
      using cinvD(1) [OF assms(1)] j(1) len by (simp add: cache_ok_def map_of_is_SomeI)
    ultimately show "f_pins fr2 = 0" using u j(2) unfolding unpinned_def by (metis snd_conv)
  qed
qed

text \<open>The write-ahead rule: no page of the file is newer than the durable part of the log.\<close>

definition lsn_durable :: "string \<Rightarrow> wal \<Rightarrow> world \<Rightarrow> bool" where
  "lsn_durable p m w \<longleftrightarrow> (\<forall>i. page_lsn (page_bytes w p i) \<le> durable_lsn m)"

lemma write_frame_wal:
  assumes wr: "write_frame (Some p) key fr (Some m, w) = (True, wm', w')" and len: "length (f_page fr) = PAGE_SIZE" and p: "wal_path m \<noteq> p"
    and lg: "log_is (m, w) recs" and lsn: "page_lsn (f_page fr) \<le> last_lsn m" and dur: "lsn_durable p m w"
  obtains m' where "wm' = Some m'" "log_is (m', w') recs" "lsn_durable p m' w'" "last_lsn m' = last_lsn m" "wal_path m' = wal_path m"
proof -
  obtain okf m1 w1 where f: "flush_through (page_lsn (f_page fr)) (m, w) = (okf, m1, w1)" by (cases "flush_through (page_lsn (f_page fr)) (m, w)")
  obtain ok2 w2 where fw: "full_write p (f_page fr) (unat (snd key) * PAGE_SIZE) w1 = (ok2, w2)" by (cases "full_write p (f_page fr) (unat (snd key) * PAGE_SIZE) w1")
  have r: "okf" "ok2" "wm' = Some m1" "w' = w2" using wr f fw by (auto simp: write_frame_def split: if_splits)
  note ft = flush_through_frame [OF f]
  have l1: "log_is (m1, w1) recs" using ft(6) lg .
  have se: "same_except p w1 w2" using full_write_result [OF fw] by blast
  have "contents w2 (wal_path m1) = contents w1 (wal_path m1)" using same_except_contents [OF se] ft(2) p by simp
  then have l2: "log_is (m1, w2) recs" using l1 se by (simp add: log_is_def same_except_def)
  have "durable_lsn m \<le> last_lsn m" using lg by (simp add: log_is_def)
  then have d: "durable_lsn m \<le> durable_lsn m1" "page_lsn (f_page fr) \<le> durable_lsn m1" using ft(4) [OF r(1) lsn] ft(5) by auto
  have wp: "\<forall>m'. Some m = Some m' \<longrightarrow> wal_path m' \<noteq> p" using p by simp
  note wf = write_frame_result [OF wr len wp]
  have "page_lsn (page_bytes w' p i) \<le> durable_lsn m1" for i
    using wf(3) [of i] wf(4) d dur by (cases "i = unat (snd key)") (auto simp: lsn_durable_def intro: order_trans)
  then show thesis using that r l2 ft by (simp add: lsn_durable_def)
qed

lemma flush_frames_wal:
  "flush_frames (Some p) rest (Some m, w) = (True, rest', wm', w') \<Longrightarrow> wal_path m \<noteq> p \<Longrightarrow> log_is (m, w) recs \<Longrightarrow> lsn_durable p m w \<Longrightarrow>
   \<forall>x\<in>set rest. length (f_page (snd x)) = PAGE_SIZE \<and> page_lsn (f_page (snd x)) \<le> last_lsn m \<Longrightarrow>
   \<exists>m'. wm' = Some m' \<and> log_is (m', w') recs \<and> lsn_durable p m' w'"
proof (induction rest arbitrary: m w rest')
  case (Cons x rest)
  obtain k fr where x: "x = (k, fr)" by (cases x)
  show ?case
  proof (cases "f_dirty fr")
    case True
    obtain okw wm1 w1 where wr: "write_frame (Some p) k fr (Some m, w) = (okw, wm1, w1)" by (cases "write_frame (Some p) k fr (Some m, w)")
    obtain oks r2 ww2 where f: "flush_frames (Some p) rest (wm1, w1) = (oks, r2, ww2)" by (cases "flush_frames (Some p) rest (wm1, w1)")
    have r: "okw" "oks" "ww2 = (wm', w')" using Cons.prems(1) x True wr f by auto
    have fr: "length (f_page fr) = PAGE_SIZE" "page_lsn (f_page fr) \<le> last_lsn m" using Cons.prems(5) x by auto
    obtain m1 where m1: "wm1 = Some m1" "log_is (m1, w1) recs" "lsn_durable p m1 w1" "last_lsn m1 = last_lsn m" "wal_path m1 = wal_path m"
      using write_frame_wal [OF _ fr(1) Cons.prems(2,3) fr(2) Cons.prems(4)] wr r(1) by metis
    show ?thesis using Cons.IH [of m1 w1 r2] f r m1 Cons.prems(2,5) by simp
  next
    case False
    obtain oks r2 ww2 where f: "flush_frames (Some p) rest (Some m, w) = (oks, r2, ww2)" by (cases "flush_frames (Some p) rest (Some m, w)")
    then show ?thesis using Cons.IH [of m w r2] Cons.prems x False by simp
  qed
qed auto

section \<open>The structure of the cache\<close>

text \<open>Every operation on a cache, with and without descriptor and log, and everything outside it.\<close>

inductive cache_op :: "cstate \<Rightarrow> cstate \<Rightarrow> bool" where
  op_fetch: "fetch_page f i fd s = (ok, s') \<Longrightarrow> cache_op s s'"
| op_new: "new_page f i pg fd s = (ok, s') \<Longrightarrow> length pg = PAGE_SIZE \<Longrightarrow> cache_op s s'"
| op_unpin: "unpin_page f i d c = (ok, c') \<Longrightarrow> cache_op (c, ww) (c', ww)"
| op_flush: "flush_page f i fd s = (ok, s') \<Longrightarrow> cache_op s s'"
| op_flush_all: "flush_all_pages fd s = (ok, s') \<Longrightarrow> cache_op s s'"
| op_clear: "cache_op (c, ww) (cache_clear c, ww)"
| op_write: "length pg = PAGE_SIZE \<Longrightarrow> cache_op (c, ww) (set_frame_page k pg c, ww)"
| op_outside: "cache_op (c, ww) (c, ww')"

lemma cache_ok_update_frame:
  assumes "cache_ok c" "map_of (c_pages c) k = Some fr" "length (f_page fr') = PAGE_SIZE"
  shows "cache_ok (c\<lparr>c_pages := AList.update k fr' (c_pages c)\<rparr>)"
  using cache_ok_update [OF assms, of "c_lru c"] assms(1) by (simp add: cache_ok_def)

lemma cache_okD: "cache_ok c \<Longrightarrow> map_of (c_pages c) k = Some fr \<Longrightarrow> length (f_page fr) = PAGE_SIZE"
  unfolding cache_ok_def by blast

lemma cache_ok_counters [simp]: "cache_ok (c\<lparr>c_hits := n\<rparr>) = cache_ok c" "cache_ok (c\<lparr>c_misses := n\<rparr>) = cache_ok c"
  by (simp_all add: cache_ok_def)

lemma evict_scan_ok: "evict_scan fd ks (c, ww) = (ok, c', ww') \<Longrightarrow> cache_ok c \<Longrightarrow> cache_ok c' \<and> c_capacity c' = c_capacity c"
  by (induction fd ks "(c, ww)" rule: evict_scan.induct) (auto split: option.splits if_splits prod.splits intro: cache_ok_drop)

lemma evict_to_fit_ok:
  "evict_to_fit fd (c, ww) = (ok, c', ww') \<Longrightarrow> cache_ok c \<Longrightarrow>
   cache_ok c' \<and> c_capacity c' = c_capacity c \<and> (ok \<longrightarrow> length (c_pages c') < c_capacity c')"
proof (induction "length (c_pages c)" arbitrary: c ww rule: less_induct)
  case less
  obtain ok1 c1 ww1 where e: "evict_one_page fd (c, ww) = (ok1, c1, ww1)" by (cases "evict_one_page fd (c, ww)")
  note ev = e [unfolded evict_one_page_def]
  have l: "length (c_pages c1) < length (c_pages c)" if ok1 using ev evict_scan_shrinks that by simp
  show ?case using less.prems e evict_scan_ok [OF ev less.prems(2)] less.hyps [OF l, of ww1]
    by (subst (asm) evict_to_fit.simps) (auto split: if_splits)
qed

lemma evict_to_fit_new:
  assumes "evict_to_fit fd (c, ww) = (ok, c', ww')" "map_of (c_pages c) k = None"
  shows "map_of (c_pages c') k = None"
proof -
  have ev: "map_of (c_pages c') k = None" if "evict_scan fd ks (c, ww) = (ok, c', ww')" "map_of (c_pages c) k = None" for ks c ww ok c' ww'
    using that by (induction fd ks "(c, ww)" rule: evict_scan.induct) (auto simp: delete_conv' split: option.splits if_splits prod.splits)
  show ?thesis using assms
  proof (induction "length (c_pages c)" arbitrary: c ww rule: less_induct)
    case less
    obtain ok1 c1 ww1 where e: "evict_one_page fd (c, ww) = (ok1, c1, ww1)" by (cases "evict_one_page fd (c, ww)")
    have l: "length (c_pages c1) < length (c_pages c)" if ok1 using e evict_scan_shrinks that by (simp add: evict_one_page_def)
    show ?case using less.prems e ev [OF e [unfolded evict_one_page_def]] less.hyps [OF l, of ww1]
      by (subst (asm) evict_to_fit.simps) (auto split: if_splits)
  qed
qed

lemma cache_ok_touch:
  assumes "cache_ok c" "map_of (c_pages c) k = Some fr" "length (f_page fr') = PAGE_SIZE"
  shows "cache_ok (touch k (c\<lparr>c_pages := AList.update k fr' (c_pages c)\<rparr>))"
proof -
  have "touch k (c\<lparr>c_pages := AList.update k fr' (c_pages c)\<rparr>) = c\<lparr>c_lru := k # remove1 k (c_lru c), c_pages := AList.update k fr' (c_pages c)\<rparr>"
    by (simp add: touch_def)
  then show ?thesis using cache_ok_update [OF assms] lru_moved [OF assms(1,2)] by simp
qed

lemma fetch_page_ok:
  assumes "fetch_page f i fd (c, ww) = (ok, c', ww')" "cache_ok c"
  shows "cache_ok c' \<and> c_capacity c' = c_capacity c"
proof (cases "map_of (c_pages c) (make_key f i)")
  case (Some fr)
  have "cache_ok (touch (make_key f i) (c\<lparr>c_hits := c_hits c + 1, c_pages := AList.update (make_key f i) (fr\<lparr>f_pins := f_pins fr + 1\<rparr>) (c_pages c)\<rparr>))"
    using cache_ok_touch [of "c\<lparr>c_hits := c_hits c + 1\<rparr>" "make_key f i" fr "fr\<lparr>f_pins := f_pins fr + 1\<rparr>"] assms(2) Some
      cache_okD [OF assms(2) Some] by simp
  then show ?thesis using assms(1) Some by (auto simp: fetch_page_def Let_def touch_def)
next
  case None
  obtain ok1 c1 wm1 w1 where m: "evict_to_fit fd (c\<lparr>c_misses := c_misses c + 1\<rparr>, ww) = (ok1, c1, wm1, w1)"
    by (cases "evict_to_fit fd (c\<lparr>c_misses := c_misses c + 1\<rparr>, ww)")
  have mr: "cache_ok c1" "c_capacity c1 = c_capacity c" "ok1 \<Longrightarrow> length (c_pages c1) < c_capacity c1" using evict_to_fit_ok [OF m] assms(2) by auto
  have n1: "map_of (c_pages c1) (make_key f i) = None" using evict_to_fit_new [OF m] None by simp
  obtain res w2 where rd: "read_page_from_disk fd (make_key f i) w1 = (res, w2)" by (cases "read_page_from_disk fd (make_key f i) w1")
  have "length pg = PAGE_SIZE" if "res = Some pg" for pg
    using rd that by (auto simp: read_page_from_disk_def full_read_def PAGE_SIZE_def split: prod.splits if_splits option.splits dest!: full_read_at_result)
  then show ?thesis using assms(1) None m mr rd cache_ok_add [OF mr(1) mr(3) n1]
    by (auto simp: fetch_page_def Let_def split: if_splits option.splits)
qed

lemma new_page_ok:
  assumes "new_page f i pg fd (c, ww) = (ok, c', ww')" "cache_ok c" "length pg = PAGE_SIZE"
  shows "cache_ok c' \<and> c_capacity c' = c_capacity c"
proof (cases "map_of (c_pages c) (make_key f i)")
  case (Some fr)
  show ?thesis using assms(1) Some cache_ok_touch [OF assms(2) Some, of "\<lparr>f_page = pg, f_dirty = True, f_pins = f_pins fr + 1\<rparr>"] assms(3)
    by (auto simp: new_page_def Let_def touch_def)
next
  case None
  obtain ok1 c1 wm1 w1 where m: "evict_to_fit fd (c, ww) = (ok1, c1, wm1, w1)" by (cases "evict_to_fit fd (c, ww)")
  have mr: "cache_ok c1" "c_capacity c1 = c_capacity c" "ok1 \<Longrightarrow> length (c_pages c1) < c_capacity c1" using evict_to_fit_ok [OF m] assms(2) by auto
  have n1: "map_of (c_pages c1) (make_key f i) = None" using evict_to_fit_new [OF m] None by simp
  then show ?thesis using assms(1,3) None m mr cache_ok_add [OF mr(1) mr(3) n1] by (auto simp: new_page_def Let_def split: if_splits)
qed

lemma flush_frames_ok:
  assumes "flush_frames fd (c_pages c) ww = (ok, rest', ww')" "cache_ok c"
  shows "cache_ok (c\<lparr>c_pages := rest'\<rparr>)"
proof -
  note k = flush_frames_keys [OF assms(1)]
  have len: "length rest' = length (c_pages c)" using k by (metis length_map)
  have "map (\<lambda>x. length (f_page (snd x))) rest' = map (length \<circ> fst) (map (\<lambda>x. (f_page (snd x), f_pins (snd x))) rest')" by simp
  also have "\<dots> = map (\<lambda>x. length (f_page (snd x))) (c_pages c)" using k by simp
  finally have lens: "map (\<lambda>x. length (f_page (snd x))) rest' = map (\<lambda>x. length (f_page (snd x))) (c_pages c)" .
  have "(\<lambda>x. length (f_page (snd x))) ` set (c_pages c) \<subseteq> {PAGE_SIZE}"
    using assms(2) map_of_is_SomeI unfolding cache_ok_def by fastforce
  then have "(\<lambda>x. length (f_page (snd x))) ` set rest' \<subseteq> {PAGE_SIZE}" using lens by (metis list.set_map)
  then have "length (f_page fr) = PAGE_SIZE" if "map_of rest' key = Some fr" for key fr using map_of_SomeD [OF that] by force
  moreover have "dom (map_of rest') = dom (map_of (c_pages c))" using k by (metis dom_map_of_conv_image_fst list.set_map)
  ultimately show ?thesis using assms(2) len k by (simp add: cache_ok_def)
qed

lemma cache_op_ok:
  assumes "cache_op s s'" "cache_ok (fst s)"
  shows "cache_ok (fst s') \<and> c_capacity (fst s') = c_capacity (fst s)"
  using assms
proof (induction rule: cache_op.induct)
  case (op_fetch f i fd s ok s')
  then show ?case using fetch_page_ok [of f i fd "fst s" "snd s" ok "fst s'" "snd s'"] by simp
next
  case (op_new f i pg fd s ok s')
  then show ?case using new_page_ok [of f i pg fd "fst s" "snd s" ok "fst s'" "snd s'"] by simp
next
  case (op_unpin f i d c ok c' ww)
  then show ?case using cache_ok_update_frame [of c "make_key f i"] cache_okD [of c "make_key f i"]
    by (auto simp: unpin_page_def Let_def split: option.splits if_splits)
next
  case (op_flush f i fd s ok s')
  obtain c ww where s: "s = (c, ww)" by (cases s)
  show ?case using op_flush cache_ok_update_frame [of c "make_key f i"] cache_okD [of c "make_key f i"]
    by (auto simp: s flush_page_def Let_def split: option.splits if_splits prod.splits)
next
  case (op_flush_all fd s ok s')
  obtain c ww where s: "s = (c, ww)" by (cases s)
  obtain okf rest' ww' where f: "flush_frames fd (c_pages c) ww = (okf, rest', ww')" by (cases "flush_frames fd (c_pages c) ww")
  show ?case using op_flush_all flush_frames_ok [OF f] f by (auto simp: s flush_all_pages_def)
next
  case (op_clear c ww)
  then show ?case by (simp add: cache_clear_def cache_ok_def)
next
  case (op_write pg c ww k)
  then show ?case using cache_ok_update_frame [of c k] by (auto simp: set_frame_page_def split: option.splits)
qed simp

lemma evict_scan_lru:
  assumes "evict_scan fd ks (c, ww) = (True, c', ww')"
  shows "\<exists>post k pre. ks = post @ k # pre \<and> (\<exists>fr. map_of (c_pages c) k = Some fr \<and> f_pins fr = 0) \<and>
    (\<forall>k'\<in>set post. \<forall>fr. map_of (c_pages c) k' = Some fr \<longrightarrow> f_pins fr \<noteq> 0) \<and>
    c' = c\<lparr>c_lru := rev (remove1 k (rev (c_lru c))), c_pages := AList.delete k (c_pages c)\<rparr>"
  using assms
proof (induction ks)
  case (Cons k ks)
  show ?case
  proof (cases "\<exists>fr. map_of (c_pages c) k = Some fr \<and> f_pins fr = 0")
    case True
    then show ?thesis using Cons.prems by (intro exI [of _ "[]"] exI [of _ k] exI [of _ ks]) (auto split: prod.splits if_splits)
  next
    case False
    then have "evict_scan fd ks (c, ww) = (True, c', ww')" using Cons.prems by (auto split: option.splits if_splits)
    from Cons.IH [OF this] obtain post k2 pre where "ks = post @ k2 # pre" "\<exists>fr. map_of (c_pages c) k2 = Some fr \<and> f_pins fr = 0"
      "\<forall>k'\<in>set post. \<forall>fr. map_of (c_pages c) k' = Some fr \<longrightarrow> f_pins fr \<noteq> 0"
      "c' = c\<lparr>c_lru := rev (remove1 k2 (rev (c_lru c))), c_pages := AList.delete k2 (c_pages c)\<rparr>" by blast
    then show ?thesis using False by (intro exI [of _ "k # post"] exI [of _ k2] exI [of _ pre]) auto
  qed
qed simp

section \<open>Properties\<close>

text \<open>
  C20. Whatever sequence of operations is applied to a page cache, with every kind of failure of the system
  calls and changes through page pointers, it holds at most \<^verbatim>\<open>capacity\<close> pages, every key has
  one frame and one place in the recency list, and every frame has a whole page.\<close>

theorem page_cache_invariant:
  assumes "cache_op\<^sup>*\<^sup>* (cache_new n, ww) (c, ww')"
  shows "cache_ok c \<and> cache_size c \<le> (if n = 0 then 1 else n)"
proof -
  have "cache_ok (fst s') \<and> c_capacity (fst s') = (if n = 0 then 1 else n)" if "cache_op\<^sup>*\<^sup>* (cache_new n, ww) s'" for s'
    using that
  proof (induction rule: rtranclp_induct)
    case base show ?case by (simp add: cache_new_def cache_ok_def)
  next
    case (step t u) then show ?case using cache_op_ok [of t u] by simp
  qed
  from this [OF assms] show ?thesis by (auto simp: cache_ok_def cache_size_def)
qed

theorem page_cache_invariant_witness:
  "\<exists>c ww. cache_op\<^sup>*\<^sup>* (cache_new 2, None, empty_world) (c, ww) \<and> contains_page ''t'' 5 c \<and> cache_ok c \<and> cache_size c \<le> 2"
proof -
  let ?s = "new_page ''t'' 5 (replicate 4096 0) None (cache_new 2, None, empty_world)"
  have "cache_op (cache_new 2, None, empty_world) (snd ?s)" by (rule cache_op.op_new [where ok = "fst ?s" and f = "''t''" and i = 5 and pg = "replicate 4096 0" and fd = None]) (simp_all add: PAGE_SIZE_def)
  then have r: "cache_op\<^sup>*\<^sup>* (cache_new 2, None, empty_world) (fst (snd ?s), snd (snd ?s))" by simp
  have "contains_page ''t'' 5 (fst (snd ?s))"
    by (simp add: new_page_def cache_new_def evict_to_fit.simps Let_def contains_page_def)
  then show ?thesis using page_cache_invariant [OF r] r by (intro exI [of _ "fst (snd ?s)"] exI [of _ "snd (snd ?s)"]) simp
qed

text \<open>
  C21. Caching is transparent. On the cache of one file \<^verbatim>\<open>fetch_page\<close> changes no page a reader can see, whichever pages it
  evicts, writes back or fails to write; the page it returns is the visible one, and
  \<^verbatim>\<open>flush_all_pages\<close> changes no visible page and, when it returns \<^verbatim>\<open>true\<close>, leaves all of them in the file.\<close>

theorem page_cache_transparent:
  assumes "cinv id (lexically_normal path) p (c, wm, w)"
  shows "(case fetch_page path i (Some p) (c, wm, w) of (ok, c', wm', w') \<Rightarrow>
      (\<forall>j. view id p c' w' (make_key path j) = view id p c w (make_key path j)) \<and> cinv id (lexically_normal path) p (c', wm', w') \<and>
      (ok \<longrightarrow> frame_page (make_key path i) c' = view id p c w (make_key path i))) \<and>
    (case flush_all_pages (Some p) (c, wm, w) of (ok, c', wm', w') \<Rightarrow>
      (\<forall>j. view id p c' w' (make_key path j) = view id p c w (make_key path j)) \<and> cinv id (lexically_normal path) p (c', wm', w') \<and>
      (ok \<longrightarrow> (\<forall>j. page_bytes w' p (unat j) = view id p c w (make_key path j))))"
proof -
  let ?f = "lexically_normal path"
  obtain ok c' wm' w' where f: "fetch_page path i (Some p) (c, wm, w) = (ok, c', wm', w')" by (cases "fetch_page path i (Some p) (c, wm, w)")
  obtain ok2 c2 wm2 w2 where a: "flush_all_pages (Some p) (c, wm, w) = (ok2, c2, wm2, w2)" by (cases "flush_all_pages (Some p) (c, wm, w)")
  note fr = fetch_page_result [OF assms f] and ar = flush_all_pages_result [OF assms a]
  have "page_bytes w2 p (unat j) = view id p c2 w2 (make_key path j)" if ok2 for j
  proof (cases "map_of (c_pages c2) (make_key path j)")
    case (Some g)
    have "cinv id ?f p (c2, wm2, w2)" using ar(1) by (simp add: quiet_def)
    from cinvD(4) [OF this Some ar(3) [OF that Some]] Some show ?thesis by (simp add: view_def make_key_def)
  qed (simp add: view_def make_key_def)
  then show ?thesis using f a fr(1,2) ar(1) by (auto simp: quiet_def make_key_def)
qed

text \<open>A cache of one frame that holds a changed page 0 of a file of two pages.\<close>

definition small_cache :: cache where
  "small_cache = \<lparr> c_capacity = 1, c_lru = [(''t'', 0)],
     c_pages = [((''t'', 0), \<lparr> f_page = replicate 4096 7, f_dirty = True, f_pins = 0 \<rparr>)], c_hits = 0, c_misses = 0 \<rparr>"

definition two_pages :: world where
  "two_pages = \<lparr> w_files = [''t'' \<mapsto> replicate 4096 1 @ replicate 4096 2, ''wal.log'' \<mapsto> []], w_dirs = {}, w_synced = (\<lambda>_. 0),
     w_script = [Io_short 100, Io_eintr] \<rparr>"

lemma small_cache_inv: "cinv id ''t'' ''t'' (small_cache, None, w)"
  by (rule cinvI) (auto simp: small_cache_def cache_ok_def PAGE_SIZE_def split: if_splits)

theorem page_cache_transparent_witness:
  "\<exists>c' wm' w'. flush_all_pages (Some ''t'') (small_cache, None, two_pages) = (True, c', wm', w') \<and> page_bytes w' ''t'' 0 = replicate 4096 7"
proof -
  obtain ok c' wm' w' where r: "flush_all_pages (Some ''t'') (small_cache, None, two_pages) = (ok, c', wm', w')"
    by (cases "flush_all_pages (Some ''t'') (small_cache, None, two_pages)")
  have n: "lexically_normal ''t'' = ''t''" by (simp add: lexically_normal_def)
  note inv = small_cache_inv [of two_pages]
  have "ok \<longrightarrow> (\<forall>j. page_bytes w' ''t'' (unat j) = view id ''t'' small_cache two_pages (make_key ''t'' j))"
    using page_cache_transparent [of "''t''" "''t''" small_cache None two_pages] inv r by (simp add: n)
  moreover have "view id ''t'' small_cache two_pages (make_key ''t'' 0) = replicate 4096 7"
    by (simp add: view_def small_cache_def make_key_def n)
  ultimately have "ok \<longrightarrow> page_bytes w' ''t'' (unat (0 :: u32)) = replicate 4096 7" by metis
  moreover have "fst (full_write ''t'' (replicate 4096 7) 0 two_pages)"
    by (simp add: full_write_step(3) [where r = "Io_short 100" and rs = "[Io_eintr]"] full_write_step(3) [where r = Io_eintr and rs = "[]"]
        full_write_step(2) two_pages_def Let_def)
  then have ok using r by (auto simp: flush_all_pages_def small_cache_def write_frame_def split: prod.splits)
  ultimately show ?thesis using r by simp
qed

text \<open>
  C22. Eviction takes the least recently used page that is not pinned: everything behind it in the
  recency list is pinned, and only this page leaves the cache.\<close>

theorem evict_least_recently_used:
  assumes "cache_ok c" "evict_one_page fd (c, ww) = (True, c', ww')"
  shows "\<exists>recent k older. c_lru c = recent @ k # older \<and> (\<exists>fr. map_of (c_pages c) k = Some fr \<and> f_pins fr = 0) \<and>
    (\<forall>k'\<in>set older. \<forall>fr. map_of (c_pages c) k' = Some fr \<longrightarrow> f_pins fr \<noteq> 0) \<and>
    c_lru c' = recent @ older \<and> map_of (c_pages c') = (map_of (c_pages c))(k := None)"
proof -
  from evict_scan_lru [OF assms(2) [unfolded evict_one_page_def]] obtain post k pre where
    e: "rev (c_lru c) = post @ k # pre" "\<exists>fr. map_of (c_pages c) k = Some fr \<and> f_pins fr = 0"
    "\<forall>k'\<in>set post. \<forall>fr. map_of (c_pages c) k' = Some fr \<longrightarrow> f_pins fr \<noteq> 0"
    "c' = c\<lparr>c_lru := rev (remove1 k (rev (c_lru c))), c_pages := AList.delete k (c_pages c)\<rparr>" by auto
  have lru: "c_lru c = rev pre @ k # rev post" using arg_cong [OF e(1), of rev] by simp
  have "k \<notin> set post" using assms(1) lru by (auto simp: cache_ok_def)
  then have "remove1 k (rev (c_lru c)) = post @ pre" using e(1) by (simp add: remove1_append)
  then show ?thesis using lru e(2-4) by (intro exI [of _ "rev pre"] exI [of _ k] exI [of _ "rev post"]) (auto simp: delete_conv')
qed

theorem evict_least_recently_used_witness:
  "\<exists>c' ww'. evict_one_page None (small_cache\<lparr>c_pages := [((''t'', 0), \<lparr> f_page = replicate 4096 7, f_dirty = False, f_pins = 0 \<rparr>)]\<rparr>, None, two_pages) = (True, c', ww') \<and>
     c_lru c' = []"
proof -
  let ?c = "small_cache\<lparr>c_pages := [((''t'', 0), \<lparr> f_page = replicate 4096 7, f_dirty = False, f_pins = 0 \<rparr>)]\<rparr>"
  have ok: "cache_ok ?c" by (auto simp: cache_ok_def small_cache_def PAGE_SIZE_def split: if_splits)
  have "fst (evict_one_page None (?c, None, two_pages))" by (simp add: evict_one_page_def small_cache_def)
  then obtain c' ww' where e: "evict_one_page None (?c, None, two_pages) = (True, c', ww')" by (cases "evict_one_page None (?c, None, two_pages)") auto
  from evict_least_recently_used [OF ok e] have "c_lru c' = []" by (auto simp: small_cache_def Cons_eq_append_conv)
  then show ?thesis using e by blast
qed

end
