(* ===== verification/Table_File.thy ===== *)
theory Table_File
  imports Page_Cache
begin

text \<open>
  Table files, from \<^verbatim>\<open>src/src/storage/table_file.cpp\<close>: records in the pages of one file, read and written
  through the file's page cache, with every change logged before it is accepted. The
  state is the object, the log it points to (\<open>None\<close> for a null pointer) and the world.
\<close>

section \<open>State\<close>

type_synonym record_id = "u32 \<times> u16"

record table_file =
  t_path :: string
  t_open :: bool
  t_page_count :: u32
  t_cache :: cache
  t_txn :: u64

type_synonym tstate = "table_file \<times> wal option \<times> world"

text \<open>The file has its own copy of the write loop.\<close>

definition tf_full_write :: "string \<Rightarrow> bytes \<Rightarrow> nat \<Rightarrow> world \<Rightarrow> bool \<times> world" where
  "tf_full_write p buffer offset w = full_write_at p buffer offset w"

definition file_size :: "string \<Rightarrow> world \<Rightarrow> nat option \<times> world" where
  "file_size p w =
     (case next_outcome w of (r, w) \<Rightarrow>
        (if r = Io_error \<or> r = Io_eintr then None else Some (length (contents w p)), w))"

definition tf_new :: "string \<Rightarrow> u64 \<Rightarrow> world \<Rightarrow> (exn + table_file) \<times> world" where
  "tf_new path txn w =
     (case open_create path w of (ok, w) \<Rightarrow>
        if \<not> ok then (Inl (Runtime_error (''could not open table file: '' @ path)), w)
        else case file_size path w of (sz, w) \<Rightarrow>
          if sz = None \<or> the sz mod PAGE_SIZE \<noteq> 0
          then (Inl (Runtime_error (''table file size is not page aligned: '' @ path)), w)
          else (Inr \<lparr> t_path = path, t_open = True, t_page_count = of_nat (the sz div PAGE_SIZE),
                      t_cache = cache_new 64, t_txn = txn \<rparr>, w))"

section \<open>Pages\<close>

text \<open>The public overloads with a descriptor pass no log to the cache.\<close>

definition tf_fetch :: "u32 \<Rightarrow> tstate \<Rightarrow> bool \<times> tstate" where
  "tf_fetch page_id = (\<lambda>(t, wm, w).
     case fetch_page (t_path t) page_id (Some (t_path t)) (t_cache t, None, w) of
       (ok, c, _, w) \<Rightarrow> (ok, t\<lparr>t_cache := c\<rparr>, wm, w))"

definition tf_unpin :: "u32 \<Rightarrow> bool \<Rightarrow> tstate \<Rightarrow> bool \<times> tstate" where
  "tf_unpin page_id dirty = (\<lambda>(t, s). case unpin_page (t_path t) page_id dirty (t_cache t) of (ok, c) \<Rightarrow> (ok, t\<lparr>t_cache := c\<rparr>, s))"

definition tf_frame :: "u32 \<Rightarrow> tstate \<Rightarrow> page" where
  "tf_frame page_id s = frame_page (make_key (t_path (fst s)) page_id) (t_cache (fst s))"

definition tf_set_frame :: "u32 \<Rightarrow> page \<Rightarrow> tstate \<Rightarrow> tstate" where
  "tf_set_frame page_id pg = (\<lambda>(t, s). (t\<lparr>t_cache := set_frame_page (make_key (t_path t) page_id) pg (t_cache t)\<rparr>, s))"

text \<open>\<open>after_page\<close> is passed by reference: the result has it with its LSN set.\<close>

definition tf_log_page_update :: "u32 \<Rightarrow> page \<Rightarrow> page \<Rightarrow> tstate \<Rightarrow> bool \<times> page \<times> tstate" where
  "tf_log_page_update page_id before_page after_page = (\<lambda>(t, wm, w).
     case wm of
       None \<Rightarrow> (True, after_page, t, None, w)
     | Some m \<Rightarrow>
         case log_page_update (t_txn t) (t_path t) page_id before_page after_page (m, w) of (lsn, m, w) \<Rightarrow>
           if lsn = 0 then (False, after_page, t, Some m, w)
           else (True, set_page_lsn after_page lsn, t, Some m, w))"

definition tf_flush :: "tstate \<Rightarrow> bool \<times> tstate" where
  "tf_flush = (\<lambda>(t, wm, w).
     if \<not> t_open t then (False, t, wm, w)
     else case flush_all_pages (Some (t_path t)) (t_cache t, wm, w) of (ok, c, wm, w) \<Rightarrow> (ok, t\<lparr>t_cache := c\<rparr>, wm, w))"

definition tf_sync :: "tstate \<Rightarrow> bool \<times> tstate" where
  "tf_sync s =
     (case tf_flush s of (ok, t, wm, w) \<Rightarrow>
        if \<not> ok then (False, t, wm, w)
        else case fdatasync_loop (t_path t) w of (ok, w) \<Rightarrow> (ok, t, wm, w))"

definition discard_cache :: "tstate \<Rightarrow> tstate" where
  "discard_cache = (\<lambda>(t, s). (t\<lparr>t_cache := cache_clear (t_cache t)\<rparr>, s))"

definition tf_close :: "tstate \<Rightarrow> tstate" where
  "tf_close s =
     (if t_open (fst s)
      then case tf_flush s of (_, t, ww) \<Rightarrow> (t\<lparr>t_cache := cache_clear (t_cache t), t_open := False\<rparr>, ww)
      else s)"

definition read_page :: "u32 \<Rightarrow> tstate \<Rightarrow> page option \<times> tstate" where
  "read_page page_id s =
     (if t_page_count (fst s) \<le> page_id then (None, s)
      else case tf_fetch page_id s of (ok, s) \<Rightarrow>
        if \<not> ok then (None, s)
        else let pg = tf_frame page_id s in
          case tf_unpin page_id False s of (ok, s) \<Rightarrow> (if ok then Some pg else None, s))"

text \<open>The end shared by the methods that changed a page through its pointer from \<open>before\<close> to \<open>after\<close>.\<close>

definition accept_page :: "u32 \<Rightarrow> page \<Rightarrow> page \<Rightarrow> tstate \<Rightarrow> bool \<times> tstate" where
  "accept_page page_id before_page after_page s =
     (case tf_log_page_update page_id before_page after_page s of (ok, after_page, s) \<Rightarrow>
        if \<not> ok then (case tf_unpin page_id False (tf_set_frame page_id before_page s) of (_, s) \<Rightarrow> (False, s))
        else tf_unpin page_id True (tf_set_frame page_id after_page s))"

definition write_page :: "u32 \<Rightarrow> page \<Rightarrow> tstate \<Rightarrow> bool \<times> tstate" where
  "write_page page_id pg s =
     (if t_page_count (fst s) \<le> page_id then (False, s)
      else case tf_fetch page_id s of (ok, s) \<Rightarrow>
        if \<not> ok then (False, s) else accept_page page_id (tf_frame page_id s) pg s)"

definition append_page :: "page \<Rightarrow> tstate \<Rightarrow> bool \<times> tstate" where
  "append_page pg s =
     (if \<not> t_open (fst s) then (False, s)
      else let offset = unat (t_page_count (fst s)) * PAGE_SIZE in
        case tf_log_page_update (t_page_count (fst s)) page_reset pg s of (ok, logged_page, t, wm, w) \<Rightarrow>
          if \<not> ok then (False, t, wm, w)
          else case (case wm of None \<Rightarrow> (True, None, w)
                     | Some m \<Rightarrow> case flush_through (page_lsn logged_page) (m, w) of (ok, m, w) \<Rightarrow> (ok, Some m, w)) of
            (ok, wm, w) \<Rightarrow>
              if \<not> ok then (False, t, wm, w)
              else case tf_full_write (t_path t) logged_page offset w of (ok, w) \<Rightarrow>
                if \<not> ok then (False, t, wm, w)
                else let page_id = t_page_count t; t = t\<lparr>t_page_count := t_page_count t + 1\<rparr> in
                  case new_page (t_path t) page_id logged_page (Some (t_path t)) (t_cache t, None, w) of (ok, c, _, w) \<Rightarrow>
                    let t = t\<lparr>t_cache := c\<rparr> in
                    if \<not> ok then (False, t\<lparr>t_page_count := t_page_count t - 1\<rparr>, wm, w)
                    else tf_unpin page_id False (t, wm, w))"

section \<open>Records\<close>

text \<open>The first-fit scan of \<^verbatim>\<open>insert_record\<close> over page numbers; \<open>Inr None\<close> when no page takes the record.\<close>

fun insert_scan :: "bytes \<Rightarrow> u32 list \<Rightarrow> tstate \<Rightarrow> (exn + record_id option) \<times> tstate" where
  "insert_scan record [] s = (Inr None, s)"
| "insert_scan record (page_id # rest) s =
     (case tf_fetch page_id s of (ok, s) \<Rightarrow>
        if \<not> ok then insert_scan record rest s
        else let before_page = tf_frame page_id s in
          case page_insert before_page record of
            (after_page, Some slot_id) \<Rightarrow>
              (case tf_log_page_update page_id before_page after_page s of (ok, after_page, s) \<Rightarrow>
                 if \<not> ok then
                   (case tf_unpin page_id False (tf_set_frame page_id before_page s) of (_, s) \<Rightarrow>
                      (Inl (Runtime_error ''could not write wal record''), s))
                 else
                   (case tf_unpin page_id True (tf_set_frame page_id after_page s) of (_, s) \<Rightarrow>
                      (Inr (Some (page_id, slot_id)), s)))
          | (after_page, None) \<Rightarrow>
              (case tf_unpin page_id False (tf_set_frame page_id after_page s) of (_, s) \<Rightarrow> insert_scan record rest s))"

definition page_ids :: "u32 \<Rightarrow> u32 list" where
  "page_ids n = map of_nat [0..<unat n]"

definition insert_record :: "bytes \<Rightarrow> tstate \<Rightarrow> (exn + record_id) \<times> tstate" where
  "insert_record record s =
     (case insert_scan record (page_ids (t_page_count (fst s))) s of
        (Inl e, s) \<Rightarrow> (Inl e, s)
      | (Inr (Some rid), s) \<Rightarrow> (Inr rid, s)
      | (Inr None, s) \<Rightarrow>
          case page_insert page_reset record of
            (_, None) \<Rightarrow> (Inl (Runtime_error ''record is too large for a page''), s)
          | (pg, Some slot_id) \<Rightarrow>
              let new_page_id = t_page_count (fst s) in
              case append_page pg s of (ok, s) \<Rightarrow>
                if \<not> ok then (Inl (Runtime_error ''could not append page''), s) else (Inr (new_page_id, slot_id), s))"

definition read_record :: "record_id \<Rightarrow> tstate \<Rightarrow> bytes option \<times> tstate" where
  "read_record rid s =
     (case read_page (fst rid) s of (None, s) \<Rightarrow> (None, s) | (Some pg, s) \<Rightarrow> (page_read pg (snd rid), s))"

text \<open>
  \<^verbatim>\<open>scan_records\<close> with a callback: \<open>cb\<close> has the captured variables as its state and answers whether
  to go on. The inner loop runs over the slots of a page.
\<close>

fun scan_slots :: "(record_id \<Rightarrow> bytes \<Rightarrow> 'a \<Rightarrow> bool \<times> 'a) \<Rightarrow> u32 \<Rightarrow> page \<Rightarrow> u16 list \<Rightarrow> 'a \<Rightarrow> bool \<times> 'a" where
  "scan_slots cb page_id pg [] a = (True, a)"
| "scan_slots cb page_id pg (slot_id # rest) a =
     (case page_read pg slot_id of
        None \<Rightarrow> scan_slots cb page_id pg rest a
      | Some record \<Rightarrow>
          case cb (page_id, slot_id) record a of (go, a) \<Rightarrow> if \<not> go then (False, a) else scan_slots cb page_id pg rest a)"

fun scan_pages :: "(record_id \<Rightarrow> bytes \<Rightarrow> 'a \<Rightarrow> bool \<times> 'a) \<Rightarrow> u32 list \<Rightarrow> 'a \<Rightarrow> tstate \<Rightarrow> bool \<times> 'a \<times> tstate" where
  "scan_pages cb [] a s = (True, a, s)"
| "scan_pages cb (page_id # rest) a s =
     (case read_page page_id s of
        (None, s) \<Rightarrow> scan_pages cb rest a s
      | (Some pg, s) \<Rightarrow>
          case scan_slots cb page_id pg (map of_nat [0..<unat (page_slot_count pg)]) a of (go, a) \<Rightarrow>
            if \<not> go then (False, a, s) else scan_pages cb rest a s)"

definition scan_records_with :: "(record_id \<Rightarrow> bytes \<Rightarrow> 'a \<Rightarrow> bool \<times> 'a) \<Rightarrow> 'a \<Rightarrow> tstate \<Rightarrow> bool \<times> 'a \<times> tstate" where
  "scan_records_with cb a s = scan_pages cb (page_ids (t_page_count (fst s))) a s"

definition scan_records :: "tstate \<Rightarrow> (record_id \<times> bytes) list \<times> tstate" where
  "scan_records s =
     (case scan_records_with (\<lambda>rid record records. (True, records @ [(rid, record)])) [] s of (_, records, s) \<Rightarrow> (records, s))"

definition delete_record :: "record_id \<Rightarrow> tstate \<Rightarrow> bool \<times> tstate" where
  "delete_record rid s =
     (if t_page_count (fst s) \<le> fst rid then (False, s)
      else case tf_fetch (fst rid) s of (ok, s) \<Rightarrow>
        if \<not> ok then (False, s)
        else let before_page = tf_frame (fst rid) s in
          case page_remove before_page (snd rid) of (after_page, ok) \<Rightarrow>
            if \<not> ok then (case tf_unpin (fst rid) False (tf_set_frame (fst rid) after_page s) of (_, s) \<Rightarrow> (False, s))
            else accept_page (fst rid) before_page after_page s)"

text \<open>\<^verbatim>\<open>record_id\<close> is passed by reference: the result has its new value.\<close>

definition update_record :: "record_id \<Rightarrow> bytes \<Rightarrow> tstate \<Rightarrow> bool \<times> record_id \<times> tstate" where
  "update_record rid record s =
     (if t_page_count (fst s) \<le> fst rid then (False, rid, s)
      else case tf_fetch (fst rid) s of (ok, s) \<Rightarrow>
        if \<not> ok then (False, rid, s)
        else let before_page = tf_frame (fst rid) s in
          if page_read before_page (snd rid) = None
          then (case tf_unpin (fst rid) False s of (_, s) \<Rightarrow> (False, rid, s))
          else case Page.page_update before_page (snd rid) record of (after_page, updated) \<Rightarrow>
            if updated then (case accept_page (fst rid) before_page after_page s of (ok, s) \<Rightarrow> (ok, rid, s))
            else case tf_unpin (fst rid) False (tf_set_frame (fst rid) after_page s) of (_, s) \<Rightarrow>
              case insert_record record s of
                (Inl _, s) \<Rightarrow> (False, rid, s)
              | (Inr new_rid, s) \<Rightarrow>
                  case delete_record rid s of (ok, s) \<Rightarrow>
                    if \<not> ok then (case delete_record new_rid s of (_, s) \<Rightarrow> (False, rid, s))
                    else (True, new_rid, s))"

section \<open>Invariant and contents\<close>

text \<open>
  A clean frame may have been compacted in memory by an insertion that did not fit, so frames and file
  agree on the records of a page, not on its bytes.
\<close>

definition recs_of :: "page \<Rightarrow> slots option" where
  "recs_of pg = (if page_wf pg then Some (page_records pg) else None)"

definition tf_view :: "tstate \<Rightarrow> u32 \<Rightarrow> slots option" where
  "tf_view = (\<lambda>(t, wm, w) i. view recs_of (t_path t) (t_cache t) w (make_key (t_path t) i))"

definition tf_cinv :: "tstate \<Rightarrow> bool" where
  "tf_cinv = (\<lambda>(t, wm, w). cinv recs_of (lexically_normal (t_path t)) (t_path t) (t_cache t, wm, w))"

definition tf_keys :: "tstate \<Rightarrow> bool" where
  "tf_keys s \<longleftrightarrow> (\<forall>k fr. map_of (c_pages (t_cache (fst s))) k = Some fr \<longrightarrow> snd k < t_page_count (fst s))"

definition tinv :: "tstate \<Rightarrow> bool" where
  "tinv s \<longleftrightarrow> t_open (fst s) \<and> tf_cinv s \<and> unpinned (t_cache (fst s)) \<and> tf_keys s \<and>
     (\<forall>i<t_page_count (fst s). tf_view s i \<noteq> None)"

text \<open>The records of a table file.\<close>

definition tab :: "tstate \<Rightarrow> record_id \<Rightarrow> bytes option" where
  "tab s rid = (if fst rid < t_page_count (fst s)
                then case tf_view s (fst rid) of Some rs \<Rightarrow> spec_read rs (unat (snd rid)) | None \<Rightarrow> None else None)"

text \<open>The same object and log, apart from the cache.\<close>

definition tsame :: "tstate \<Rightarrow> tstate \<Rightarrow> bool" where
  "tsame = (\<lambda>(t, wm, w) (t', wm', w'). (\<exists>c. t' = t\<lparr>t_cache := c\<rparr>) \<and> map_option wal_path wm' = map_option wal_path wm)"

lemma tsame_refl [simp]: "tsame s s"
  by (cases s) (auto simp: tsame_def intro: exI [of _ "t_cache (fst s)"])

lemma tsame_trans: "tsame s s' \<Longrightarrow> tsame s' s'' \<Longrightarrow> tsame s s''"
  by (cases s, cases s', cases s'') (auto simp: tsame_def)

lemma tsameD:
  "tsame s s' \<Longrightarrow> t_path (fst s') = t_path (fst s) \<and> t_page_count (fst s') = t_page_count (fst s) \<and> t_open (fst s') = t_open (fst s) \<and> t_txn (fst s') = t_txn (fst s)"
  by (cases s, cases s') (auto simp: tsame_def)

text \<open>A page is pinned, everything else is as in the state \<open>s\<close>.\<close>

definition tmid :: "u32 \<Rightarrow> tstate \<Rightarrow> tstate \<Rightarrow> bool" where
  "tmid i s s' \<longleftrightarrow> tsame s s' \<and> tf_cinv s' \<and> pinned_at (make_key (t_path (fst s')) i) (t_cache (fst s')) \<and> tf_keys s' \<and>
     (\<forall>j. tf_view s' j = tf_view s j) \<and> recs_of (tf_frame i s') = tf_view s i"

lemma cinv_wm: "cinv al f p (c, wm, w) \<Longrightarrow> cinv al f p (c, None, w)"
  by (auto simp: cinv_def)

lemma cinv_wm_back: "cinv al f p (c, None, w) \<Longrightarrow> \<forall>m. wm = Some m \<longrightarrow> wal_path m \<noteq> p \<Longrightarrow> cinv al f p (c, wm, w)"
  by (auto simp: cinv_def)

lemma fetch_page_keys:
  assumes "fetch_page path i fd (c, ww) = (ok, c', ww')" "map_of (c_pages c') k = Some fr"
  shows "k = make_key path i \<or> (\<exists>fr. map_of (c_pages c) k = Some fr)"
proof (cases "map_of (c_pages c) (make_key path i)")
  case (Some g)
  then show ?thesis using assms by (auto simp: fetch_page_def touch_def Let_def update_conv' split: if_splits)
next
  case None
  obtain ok1 c1 wm1 w1 where m: "evict_to_fit fd (c\<lparr>c_misses := c_misses c + 1\<rparr>, ww) = (ok1, c1, wm1, w1)"
    by (cases "evict_to_fit fd (c\<lparr>c_misses := c_misses c + 1\<rparr>, ww)")
  have "\<exists>fr. map_of (c_pages c) k = Some fr" if "map_of (c_pages c1) k = Some g" for g
    using evict_to_fit_new [OF m, of k] that by (cases "map_of (c_pages c) k") auto
  then show ?thesis using assms None m by (auto simp: fetch_page_def Let_def split: if_splits option.splits prod.splits)
qed

lemma tf_fetch_result:
  assumes inv: "tinv s" and i: "i < t_page_count (fst s)" and fe: "tf_fetch i s = (ok, s')"
  shows "if ok then tmid i s s' else tinv s' \<and> tsame s s' \<and> (\<forall>j. tf_view s' j = tf_view s j)"
proof -
  obtain t wm w where s: "s = (t, wm, w)" by (cases s)
  obtain okf c wm1 w1 where f: "fetch_page (t_path t) i (Some (t_path t)) (t_cache t, None, w) = (okf, c, wm1, w1)"
    by (cases "fetch_page (t_path t) i (Some (t_path t)) (t_cache t, None, w)")
  have r: "ok = okf" "s' = (t\<lparr>t_cache := c\<rparr>, wm, w1)" using fe f by (auto simp: tf_fetch_def s)
  have ci: "cinv recs_of (lexically_normal (t_path t)) (t_path t) (t_cache t, wm, w)" using inv by (simp add: tinv_def tf_cinv_def s)
  note fr = fetch_page_result [OF cinv_wm [OF ci] f]
  have wp: "\<forall>m. wm = Some m \<longrightarrow> wal_path m \<noteq> t_path t" using cinvD(3) [OF ci] by blast
  have "cinv recs_of (lexically_normal (t_path t)) (t_path t) (c, wm1, w1)" using fr(1) by (auto simp: quiet_def)
  then have ci': "tf_cinv s'" using cinv_wm_back [OF cinv_wm wp] by (simp add: tf_cinv_def r)
  have v: "tf_view s' j = tf_view s j" for j using fr(1) by (simp add: quiet_def tf_view_def s r make_key_def)
  have k: "tf_keys s'" using fetch_page_keys [OF f] inv i by (fastforce simp: tf_keys_def tinv_def r s make_key_def)
  have sm: "tsame s s'" by (auto simp: tsame_def s r)
  have u: "unpinned (t_cache t)" using inv by (simp add: tinv_def s)
  show ?thesis
  proof (cases ok)
    case True
    then have "tmid i s s'" using sm ci' k v fr(2,3) u by (simp add: tmid_def r s tf_frame_def tf_view_def)
    then show ?thesis using True by simp
  next
    case False
    then have "tinv s'" using ci' k v fr(3) u inv by (simp add: tinv_def r s)
    then show ?thesis using False sm v by simp
  qed
qed

text \<open>Releasing the pinned page with new contents.\<close>

lemma tf_release:
  assumes mid: "tmid i s s'" and inv: "tinv s" and len: "length pg = PAGE_SIZE" and d: "d \<or> recs_of pg = tf_view s i" and ne: "recs_of pg \<noteq> None"
    and un: "tf_unpin i d (tf_set_frame i pg s') = (ok, s'')"
  shows "ok \<and> tinv s'' \<and> tsame s s'' \<and> (\<forall>j. tf_view s'' j = (if j = i then recs_of pg else tf_view s j))"
proof -
  obtain t wm w where s: "s' = (t, wm, w)" by (cases s')
  obtain oku c where u: "unpin_page (t_path t) i d (set_frame_page (make_key (t_path t) i) pg (t_cache t)) = (oku, c)"
    by (cases "unpin_page (t_path t) i d (set_frame_page (make_key (t_path t) i) pg (t_cache t))")
  have r: "ok = oku" "s'' = (t\<lparr>t_cache := c\<rparr>, wm, w)" using un u by (auto simp: tf_unpin_def tf_set_frame_def s)
  have m: "tsame s s'" "cinv recs_of (lexically_normal (t_path t)) (t_path t) (t_cache t, wm, w)" "pinned_at (make_key (t_path t) i) (t_cache t)"
    "tf_keys s'" "\<forall>j. tf_view s' j = tf_view s j" "recs_of (tf_frame i s') = tf_view s i" using mid by (simp_all add: tmid_def tf_cinv_def s)
  have "d \<or> recs_of pg = recs_of (frame_page (make_key (t_path t) i) (t_cache t))" using d m(6) by (simp add: tf_frame_def s)
  note rp = release_page [OF m(2,3) len u this]
  note td = tsameD [OF m(1)]
  have v: "tf_view s'' j = (if j = i then recs_of pg else tf_view s j)" for j
    using rp(3) m(5) by (simp add: sets_page_def tf_view_def r s make_key_def)
  have "map_of (c_pages c) k = Some fr \<Longrightarrow> \<exists>fr. map_of (c_pages (t_cache t)) k = Some fr" for k fr
    using u by (auto simp: unpin_page_def set_frame_page_def update_conv' Let_def split: option.splits if_splits)
  then have "tf_keys s''" using m(4) by (fastforce simp: tf_keys_def r s)
  then have "tinv s''" using rp inv v ne td by (simp add: tinv_def tf_cinv_def r s sets_page_def)
  moreover have "tsame s s''" using tsame_trans [OF m(1), of s''] by (auto simp: tsame_def s r)
  ultimately show ?thesis using rp(1) v r(1) by simp
qed

lemma cinv_other:
  assumes "cinv al f p (c, wm, w)" "contents w' p = contents w p" "\<forall>m. wm' = Some m \<longrightarrow> wal_path m \<noteq> p"
  shows "cinv al f p (c, wm', w')" "view al p c w' k = view al p c w k"
proof -
  have e: "page_bytes w' p i = page_bytes w p i" for i using assms(2) by (rule page_bytes_cong)
  show "cinv al f p (c, wm', w')" using cinvD [OF assms(1)] assms(3) by (intro cinvI) (auto simp: e)
  show "view al p c w' k = view al p c w k" by (simp add: view_def e cong: option.case_cong)
qed

lemma tf_log_result:
  assumes mid: "tmid i s s'" and lg: "tf_log_page_update i b a s' = (ok, a', s'')"
  shows "tmid i s s''" "page_wf a \<Longrightarrow> page_wf a' \<and> page_records a' = page_records a"
proof -
  obtain t wm w where s: "s' = (t, wm, w)" by (cases s')
  have "tmid i s s'' \<and> (a' = a \<or> (\<exists>l. a' = set_page_lsn a l))"
  proof (cases wm)
    case None
    then show ?thesis using lg mid by (auto simp: tf_log_page_update_def s)
  next
    case (Some m)
    obtain lsn m1 w1 where l: "log_page_update (t_txn t) (t_path t) i b a (m, w) = (lsn, m1, w1)" by (cases "log_page_update (t_txn t) (t_path t) i b a (m, w)")
    have r: "s'' = (t, Some m1, w1)" "a' = a \<or> (\<exists>l. a' = set_page_lsn a l)" using lg l Some by (auto simp: tf_log_page_update_def s split: if_splits)
    note fr = append_record_frame [OF l [unfolded log_page_update_def]]
    have ci: "cinv recs_of (lexically_normal (t_path t)) (t_path t) (t_cache t, Some m, w)" using mid by (simp add: tmid_def tf_cinv_def s Some)
    have p: "t_path t \<noteq> wal_path m" using cinvD(3) [OF ci] by auto
    have "\<forall>m'. Some m1 = Some m' \<longrightarrow> wal_path m' \<noteq> t_path t" using fr(1) p by auto
    note co = cinv_other [OF ci fr(2) [OF p] this]
    have "tmid i s s''" using mid co fr(1) tsame_trans [of s s' s'']
      by (auto simp: tmid_def tf_cinv_def tf_view_def tf_keys_def tf_frame_def s r(1) Some tsame_def intro: exI [of _ "t_cache t"])
    then show ?thesis using r(2) by blast
  qed
  then show "tmid i s s''" "page_wf a \<Longrightarrow> page_wf a' \<and> page_records a' = page_records a" using set_page_lsn_law by blast+
qed

lemma recs_of_Some: "recs_of pg = Some rs \<longleftrightarrow> page_wf pg \<and> page_records pg = rs"
  by (auto simp: recs_of_def)

lemma page_wf_length: "page_wf pg \<Longrightarrow> length pg = PAGE_SIZE"
  by (simp add: page_wf_def)

text \<open>A change of the pinned page that is logged, or else taken back.\<close>

lemma accept_page_result:
  assumes mid: "tmid i s s'" and inv: "tinv s" and i: "i < t_page_count (fst s)" and wf: "page_wf a"
    and ac: "accept_page i (tf_frame i s') a s' = (ok, s'')"
  shows "tinv s'' \<and> tsame s s'' \<and> (\<forall>j. tf_view s'' j = (if ok \<and> j = i then recs_of a else tf_view s j))"
proof -
  let ?b = "tf_frame i s'"
  obtain okl a' s1 where l: "tf_log_page_update i ?b a s' = (okl, a', s1)" by (cases "tf_log_page_update i ?b a s'")
  note lr = tf_log_result [OF mid l]
  have vb: "recs_of ?b = tf_view s i" "tf_view s i \<noteq> None" using mid inv i by (simp_all add: tmid_def tinv_def)
  show ?thesis
  proof (cases okl)
    case True
    have a': "recs_of a' = recs_of a" "recs_of a' \<noteq> None" "length a' = PAGE_SIZE" using lr(2) [OF wf] wf by (auto simp: recs_of_def page_wf_length)
    have "tf_unpin i True (tf_set_frame i a' s1) = (ok, s'')" using ac l True by (simp add: accept_page_def)
    from tf_release [OF lr(1) inv a'(3) _ a'(2) this] a'(1) show ?thesis by simp
  next
    case False
    obtain oku s2 where u: "tf_unpin i False (tf_set_frame i ?b s1) = (oku, s2)" by (cases "tf_unpin i False (tf_set_frame i ?b s1)")
    have "ok = False" "s'' = s2" using ac l False u by (auto simp: accept_page_def)
    have "length ?b = PAGE_SIZE" using vb by (auto simp: recs_of_def page_wf_length split: if_splits)
    from tf_release [OF lr(1) inv this _ _ u] vb \<open>ok = False\<close> \<open>s'' = s2\<close> show ?thesis by auto
  qed
qed

section \<open>Appending a page\<close>

lemma full_write_at_outside:
  "full_write_at p b off w = (ok, w') \<Longrightarrow> \<not> (off \<le> j \<and> j < off + length b) \<Longrightarrow> byte_at (contents w' p) j = byte_at (contents w p) j"
proof (induction "w_script w" arbitrary: b off w)
  case Nil
  then show ?case by (cases "b = []") (auto simp: full_write_at_step byte_at_write_block)
next
  case (Cons r rs)
  note s = Cons.hyps(2) [symmetric]
  show ?case
  proof (cases "b = []")
    case True then show ?thesis using Cons.prems by (simp add: full_write_at_step)
  next
    case False
    note st = full_write_at_step(3) [OF False s]
    show ?thesis
    proof (cases r)
      case (Io_short n)
      let ?n = "min n (length b)"
      let ?v = "pwrite_file p off (take ?n b) (w\<lparr>w_script := rs\<rparr>)"
      show ?thesis
      proof (cases "?n = 0")
        case True
        then have "w' = w\<lparr>w_script := rs\<rparr>" using Cons.prems st Io_short by (simp add: Let_def)
        then show ?thesis by simp
      next
        case F2: False
        have rec: "full_write_at p (drop ?n b) (off + ?n) ?v = (ok, w')" using Cons.prems(1) st Io_short F2 by (simp add: Let_def)
        have "\<not> (off + ?n \<le> j \<and> j < off + ?n + length (drop ?n b))" using Cons.prems(2) by auto
        from Cons.hyps(1) [OF _ rec this] have "byte_at (contents w' p) j = byte_at (contents ?v p) j" by simp
        also have "\<dots> = byte_at (contents w p) j" using Cons.prems(2) F2 byte_at_write_block [of "take ?n b" "contents w p" off j] by auto
        finally show ?thesis .
      qed
    qed (use Cons.prems st False Cons.hyps(1) [of "w\<lparr>w_script := rs\<rparr>" b off] in \<open>auto simp: Let_def byte_at_write_block\<close>)
  qed
qed

lemma page_bytes_outside:
  assumes "full_write_at p b (k * PAGE_SIZE) w = (ok, w')" "length b = PAGE_SIZE" "i \<noteq> k"
  shows "page_bytes w' p i = page_bytes w p i"
proof -
  have "\<not> (k * PAGE_SIZE \<le> i * PAGE_SIZE + j \<and> i * PAGE_SIZE + j < k * PAGE_SIZE + length b)" if "j < PAGE_SIZE" for j
    using that assms(2,3) by (cases "i < k") (auto simp: PAGE_SIZE_def)
  then show ?thesis using full_write_at_outside [OF assms(1)] by (simp add: page_bytes_def)
qed

lemma tf_log_unpinned:
  assumes inv: "tinv s" and lg: "tf_log_page_update i b a s = (ok, a', s')"
  shows "tinv s'" "tsame s s'" "tf_view s' j = tf_view s j" "page_wf a \<Longrightarrow> page_wf a' \<and> page_records a' = page_records a" "fst s' = fst s"
proof -
  obtain t wm w where s: "s = (t, wm, w)" by (cases s)
  have "tinv s' \<and> tsame s s' \<and> (\<forall>j. tf_view s' j = tf_view s j) \<and> (a' = a \<or> (\<exists>l. a' = set_page_lsn a l)) \<and> fst s' = fst s"
  proof (cases wm)
    case None
    then show ?thesis using lg inv by (auto simp: tf_log_page_update_def s)
  next
    case (Some m)
    obtain lsn m1 w1 where l: "log_page_update (t_txn t) (t_path t) i b a (m, w) = (lsn, m1, w1)" by (cases "log_page_update (t_txn t) (t_path t) i b a (m, w)")
    have r: "s' = (t, Some m1, w1)" "a' = a \<or> (\<exists>l. a' = set_page_lsn a l)" using lg l Some by (auto simp: tf_log_page_update_def s split: if_splits)
    note fr = append_record_frame [OF l [unfolded log_page_update_def]]
    have ci: "cinv recs_of (lexically_normal (t_path t)) (t_path t) (t_cache t, Some m, w)" using inv by (simp add: tinv_def tf_cinv_def s Some)
    have p: "t_path t \<noteq> wal_path m" using cinvD(3) [OF ci] by auto
    have "\<forall>m'. Some m1 = Some m' \<longrightarrow> wal_path m' \<noteq> t_path t" using fr(1) p by auto
    note co = cinv_other [OF ci fr(2) [OF p] this]
    have v: "tf_view s' j = tf_view s j" for j using co(2) by (simp add: tf_view_def s r(1))
    then have "tinv s'" using inv co(1) by (simp add: tinv_def tf_cinv_def tf_keys_def s r(1) Some)
    moreover have "tsame s s'" using fr(1) by (auto simp: tsame_def s r(1) Some intro: exI [of _ "t_cache t"])
    ultimately show ?thesis using r v by (simp add: s)
  qed
  then show "tinv s'" "tsame s s'" "tf_view s' j = tf_view s j" "page_wf a \<Longrightarrow> page_wf a' \<and> page_records a' = page_records a" "fst s' = fst s"
    using set_page_lsn_law by blast+
qed

text \<open>Changes of the log and of the page behind the last one.\<close>

lemma tinv_world:
  assumes inv: "tinv (t, wm, w)" and p: "\<And>i. i \<noteq> unat (t_page_count t) \<Longrightarrow> page_bytes w' (t_path t) i = page_bytes w (t_path t) i"
    and wm: "map_option wal_path wm' = map_option wal_path wm"
  shows "tinv (t, wm', w')" "j < t_page_count t \<Longrightarrow> tf_view (t, wm', w') j = tf_view (t, wm, w) j"
proof -
  have ci: "cinv recs_of (lexically_normal (t_path t)) (t_path t) (t_cache t, wm, w)" using inv by (simp add: tinv_def tf_cinv_def)
  note I = cinvD [OF ci]
  have ne: "unat j \<noteq> unat (t_page_count t)" if "j < t_page_count t" for j using that by (simp add: word_less_nat_alt)
  have k: "snd k < t_page_count t" if "map_of (c_pages (t_cache t)) k = Some fr" for k fr
    using inv that by (simp add: tinv_def tf_keys_def)
  have wp: "wal_path m \<noteq> t_path t" if "wm' = Some m" for m using wm that I(3) by (cases wm) auto
  have "cinv recs_of (lexically_normal (t_path t)) (t_path t) (t_cache t, wm', w')"
    using I(1,2) wp
  proof (rule cinvI)
    fix ky fr assume f: "map_of (c_pages (t_cache t)) ky = Some fr" "\<not> f_dirty fr"
    then show "recs_of (f_page fr) = recs_of (page_bytes w' (t_path t) (unat (snd ky)))" using I(4) [OF f] p [OF ne [OF k [OF f(1)]]] by simp
  qed
  moreover show v: "tf_view (t, wm', w') j = tf_view (t, wm, w) j" if "j < t_page_count t" for j
    using p [OF ne [OF that]] by (simp add: tf_view_def view_def make_key_def cong: option.case_cong)
  ultimately show "tinv (t, wm', w')" using inv by (simp add: tinv_def tf_cinv_def tf_keys_def)
qed

lemma new_page_keys:
  assumes "new_page path i pg fd (c, ww) = (ok, c', ww')" "map_of (c_pages c') k = Some fr"
  shows "(ok \<and> k = make_key path i) \<or> (\<exists>fr. map_of (c_pages c) k = Some fr)"
proof (cases "map_of (c_pages c) (make_key path i)")
  case (Some g)
  then show ?thesis using assms by (auto simp: new_page_def touch_def Let_def update_conv' split: if_splits)
next
  case None
  obtain ok1 c1 ww1 where m: "evict_to_fit fd (c, ww) = (ok1, c1, ww1)" by (cases "evict_to_fit fd (c, ww)")
  have "\<exists>fr. map_of (c_pages c) k = Some fr" if "map_of (c_pages c1) k = Some g" for g
    using evict_to_fit_new [OF m, of k] that by (cases "map_of (c_pages c) k") auto
  then show ?thesis using assms None m by (auto simp: new_page_def Let_def split: if_splits)
qed

lemma flush_opt_result:
  assumes "(case wm of None \<Rightarrow> (True, None, w) | Some m \<Rightarrow> case flush_through lsn (m, w) of (ok, m, w) \<Rightarrow> (ok, Some m, w)) = (ok, wm', w')"
  shows "w_files w' = w_files w" "map_option wal_path wm' = map_option wal_path wm"
  using assms flush_through_frame(1,2) [of lsn] by (auto split: option.splits prod.splits)

lemma append_cached_page:
  assumes inv: "tinv (t, wm, w)" and wf: "page_wf pg" and n: "unat (t_page_count t) + 1 < 2 ^ 32"
    and nw: "new_page (t_path t) (t_page_count t) pg (Some (t_path t)) (t_cache t, None, w) = (ok, c, wm1, w1)"
  defines "t1 \<equiv> t\<lparr>t_page_count := t_page_count t + 1, t_cache := c\<rparr>"
  shows "\<not> ok \<Longrightarrow> tinv (t\<lparr>t_cache := c\<rparr>, wm, w1) \<and> (\<forall>j. tf_view (t\<lparr>t_cache := c\<rparr>, wm, w1) j = tf_view (t, wm, w) j)"
    "ok \<Longrightarrow> tf_unpin (t_page_count t) False (t1, wm, w1) = (oku, s') \<Longrightarrow>
      oku \<and> tinv s' \<and> t_page_count (fst s') = t_page_count t + 1 \<and> t_path (fst s') = t_path t \<and> map_option wal_path (fst (snd s')) = map_option wal_path wm \<and>
      (\<forall>j. tf_view s' j = (if j = t_page_count t then recs_of pg else tf_view (t, wm, w) j))"
proof -
  let ?f = "lexically_normal (t_path t)" and ?p = "t_path t" and ?i = "t_page_count t"
  have ci: "cinv recs_of ?f ?p (t_cache t, wm, w)" and un: "unpinned (t_cache t)" and ks: "tf_keys (t, wm, w)"
    using inv by (simp_all add: tinv_def tf_cinv_def)
  have wp: "\<forall>m. wm = Some m \<longrightarrow> wal_path m \<noteq> ?p" using cinvD(3) [OF ci] by blast
  note r = new_page_result [OF cinv_wm [OF ci] nw page_wf_length [OF wf]]
  have succ: "j < ?i + 1 \<longleftrightarrow> j < ?i \<or> j = ?i" for j
    using n by (auto simp: word_less_nat_alt unat_word_ariths unat_key_eq less_Suc_eq)
  show "tinv (t\<lparr>t_cache := c\<rparr>, wm, w1) \<and> (\<forall>j. tf_view (t\<lparr>t_cache := c\<rparr>, wm, w1) j = tf_view (t, wm, w) j)" if "\<not> ok"
  proof -
    have q: "quiet recs_of ?f ?p (t_cache t, None, w) (c, wm1, w1)" "unpinned c" using r un that by simp_all
    then have "cinv recs_of ?f ?p (c, wm, w1)" using cinv_wm_back [OF cinv_wm wp] by (auto simp: quiet_def)
    moreover have "tf_keys (t\<lparr>t_cache := c\<rparr>, wm, w1)" using new_page_keys [OF nw] ks that by (fastforce simp: tf_keys_def)
    moreover have v: "tf_view (t\<lparr>t_cache := c\<rparr>, wm, w1) j = tf_view (t, wm, w) j" for j using q by (simp add: quiet_def tf_view_def make_key_def)
    ultimately show ?thesis using inv q(2) by (simp add: tinv_def tf_cinv_def)
  qed
  assume ok: ok and u: "tf_unpin ?i False (t1, wm, w1) = (oku, s')"
  have q: "sets_page recs_of ?f ?p ?i pg (t_cache t, None, w) (c, wm1, w1)" "pinned_at (make_key ?p ?i) c" using r un ok by simp_all
  have ci1: "cinv recs_of ?f ?p (c, wm, w1)" using q(1) cinv_wm_back [OF cinv_wm wp] by (auto simp: sets_page_def)
  obtain ou c2 where up: "unpin_page ?p ?i False c = (ou, c2)" by (cases "unpin_page ?p ?i False c")
  note rc = release_page_clean [OF ci1 q(2) up]
  have s': "oku = ou" "s' = (t1\<lparr>t_cache := c2\<rparr>, wm, w1)" using u up by (auto simp: tf_unpin_def t1_def)
  have ci2: "cinv recs_of ?f ?p (c2, wm, w1)" using rc(3) by (simp add: quiet_def)
  have v: "tf_view s' j = (if j = ?i then recs_of pg else tf_view (t, wm, w) j)" for j
    using rc(3) q(1) by (simp add: quiet_def sets_page_def tf_view_def s' t1_def make_key_def)
  have "map_of (c_pages c2) k = Some fr \<Longrightarrow> \<exists>fr. map_of (c_pages c) k = Some fr" for k fr
    using up by (auto simp: unpin_page_def update_conv' Let_def split: option.splits if_splits)
  then have "tf_keys s'" using new_page_keys [OF nw] ks succ by (fastforce simp: tf_keys_def s' t1_def make_key_def)
  moreover have "tf_view s' j \<noteq> None" if "j < ?i + 1" for j using that succ [of j] v [of j] wf inv by (auto simp: recs_of_def tinv_def)
  ultimately have "tinv s'" using inv rc(2) ci2 by (simp add: tinv_def tf_cinv_def s' t1_def)
  then show "oku \<and> tinv s' \<and> t_page_count (fst s') = ?i + 1 \<and> t_path (fst s') = ?p \<and> map_option wal_path (fst (snd s')) = map_option wal_path wm \<and>
      (\<forall>j. tf_view s' j = (if j = ?i then recs_of pg else tf_view (t, wm, w) j))" using rc(1) v s' by (simp add: t1_def)
qed

lemma append_page_result:
  assumes inv: "tinv s" and wf: "page_wf pg" and n: "unat (t_page_count (fst s)) + 1 < 2 ^ 32" and ap: "append_page pg s = (ok, s')"
  shows "tinv s'" "t_page_count (fst s') = (if ok then t_page_count (fst s) + 1 else t_page_count (fst s))"
    "j < t_page_count (fst s) \<Longrightarrow> tf_view s' j = tf_view s j" "ok \<Longrightarrow> tf_view s' (t_page_count (fst s)) = recs_of pg"
proof -
  let ?i = "t_page_count (fst s)"
  obtain okl lp s1 where l: "tf_log_page_update ?i page_reset pg s = (okl, lp, s1)" by (cases "tf_log_page_update ?i page_reset pg s")
  note lr = tf_log_unpinned [OF inv l]
  have lp: "page_wf lp" "recs_of lp = recs_of pg" using lr(4) [OF wf] wf by (simp_all add: recs_of_def)
  obtain t wm1 w1 where s1: "s1 = (t, wm1, w1)" by (cases s1)
  have t: "fst s = t" using lr(5) s1 by simp
  have op: "t_open (fst s)" using inv by (simp add: tinv_def)
  obtain okf wm2 w2 where f: "(case wm1 of None \<Rightarrow> (True, None, w1) | Some m \<Rightarrow> case flush_through (page_lsn lp) (m, w1) of (ok, m, w) \<Rightarrow> (ok, Some m, w)) = (okf, wm2, w2)"
    by (cases "(case wm1 of None \<Rightarrow> (True, None, w1) | Some m \<Rightarrow> case flush_through (page_lsn lp) (m, w1) of (ok, m, w) \<Rightarrow> (ok, Some m, w))")
  note fr = flush_opt_result [OF f]
  have pb2: "page_bytes w2 (t_path t) i = page_bytes w1 (t_path t) i" for i using fr(1) by (simp add: page_bytes_def contents_def)
  note inv2 = tinv_world [OF lr(1) [unfolded s1] pb2 fr(2)]
  obtain okw w3 where fw: "full_write_at (t_path t) lp (unat ?i * PAGE_SIZE) w2 = (okw, w3)" by (cases "full_write_at (t_path t) lp (unat ?i * PAGE_SIZE) w2")
  have pb3: "page_bytes w3 (t_path t) i = page_bytes w2 (t_path t) i" if "i \<noteq> unat (t_page_count t)" for i
    using page_bytes_outside [OF fw page_wf_length [OF lp(1)]] that t by simp
  note inv3 = tinv_world [OF inv2(1) pb3 refl]
  obtain okn c wm4 w4 where nw: "new_page (t_path t) ?i lp (Some (t_path t)) (t_cache t, None, w3) = (okn, c, wm4, w4)"
    by (cases "new_page (t_path t) ?i lp (Some (t_path t)) (t_cache t, None, w3)")
  let ?t1 = "t\<lparr>t_page_count := t_page_count t + 1, t_cache := c\<rparr>"
  obtain oku s5 where u: "tf_unpin ?i False (?t1, wm2, w4) = (oku, s5)" by (cases "tf_unpin ?i False (?t1, wm2, w4)")
  have n': "unat (t_page_count t) + 1 < 2 ^ 32" using n t by simp
  note ac = append_cached_page [OF inv3(1) lp(1) n' nw [unfolded t]]
  have res: "(ok, s') = (if \<not> okl then (False, s1) else if \<not> okf then (False, t, wm2, w2) else if \<not> okw then (False, t, wm2, w3)
      else if \<not> okn then (False, t\<lparr>t_cache := c\<rparr>, wm2, w4) else (oku, s5))"
    using ap op l s1 f fw nw u t by (auto simp: append_page_def tf_full_write_def Let_def)
  show "tinv s'" "t_page_count (fst s') = (if ok then ?i + 1 else ?i)"
    "j < ?i \<Longrightarrow> tf_view s' j = tf_view s j" "ok \<Longrightarrow> tf_view s' ?i = recs_of pg"
    using res lr s1 t inv2 inv3 ac u lp(2) by (auto split: if_splits)
qed

section \<open>Operations on records\<close>

lemma tab_cong: "tsame s s' \<Longrightarrow> (\<And>j. tf_view s' j = tf_view s j) \<Longrightarrow> tab s' = tab s"
  using tsameD [of s s'] by (auto simp: tab_def fun_eq_iff)

lemma tab_page:
  assumes "tsame s s'" "\<And>j. tf_view s' j = (if j = i then Some rs else tf_view s j)" "i < t_page_count (fst s)"
  shows "tab s' rid = (if fst rid = i then spec_read rs (unat (snd rid)) else tab s rid)"
  using tsameD [OF assms(1)] assms(2,3) by (simp add: tab_def)

lemma unat_slot_eq: "unat (a :: u16) = unat b \<longleftrightarrow> a = b"
  by (metis word_unat_eq_iff)

text \<open>A page whose slot \<open>sid\<close> gets the value \<open>v\<close>.\<close>

lemma tab_slot:
  assumes "tsame s s'" "\<And>j. tf_view s' j = (if j = i then Some rs' else tf_view s j)" "i < t_page_count (fst s)"
    and "tf_view s i = Some rs" "\<And>x. spec_read rs' x = (if x = unat sid then v else spec_read rs x)"
  shows "tab s' = (tab s)((i, sid) := v)"
proof
  fix rid :: record_id
  show "tab s' rid = ((tab s)((i, sid) := v)) rid"
    using tab_page [OF assms(1-3), of rid] assms(3-5) by (cases rid) (auto simp: tab_def unat_slot_eq)
qed

lemma tab_slot_update:
  assumes "tsame s s'" "\<And>j. tf_view s' j = (if j = i then recs_of a else tf_view s j)" "i < t_page_count (fst s)"
    and "tf_view s i = Some rs" "recs_of a = Some (rs[unat sid := v])" "unat sid < length rs"
  shows "tab s' = (tab s)((i, sid) := v)"
proof (rule tab_slot [OF assms(1) _ assms(3,4)])
  show "tf_view s' j = (if j = i then Some (rs[unat sid := v]) else tf_view s j)" for j using assms(2,5) by simp
qed (simp add: spec_read_update [OF assms(6)])

lemma tmid_page:
  assumes "tmid i s s'" "tinv s" "i < t_page_count (fst s)"
  shows "page_wf (tf_frame i s')" "tf_view s i = Some (page_records (tf_frame i s'))" "tab s (i, sid) = page_read (tf_frame i s') sid"
proof -
  have "recs_of (tf_frame i s') = tf_view s i" "tf_view s i \<noteq> None" using assms by (simp_all add: tmid_def tinv_def)
  then show w: "page_wf (tf_frame i s')" and v: "tf_view s i = Some (page_records (tf_frame i s'))" by (auto simp: recs_of_def split: if_splits)
  show "tab s (i, sid) = page_read (tf_frame i s') sid" using v assms(3) pg.rd_law [OF w] by (simp add: tab_def)
qed

lemma tf_set_frame_same: "tmid i s s' \<Longrightarrow> tf_set_frame i (tf_frame i s') s' = s'"
  by (cases s') (auto simp: tmid_def pinned_at_def tf_set_frame_def tf_frame_def set_frame_page_same)

lemma tf_release_clean:
  assumes "tmid i s s'" "tinv s" "i < t_page_count (fst s)" "tf_unpin i False s' = (ok, s'')"
  shows "ok" "tinv s''" "tsame s s''" "tf_view s'' j = tf_view s j" "tab s'' = tab s"
proof -
  note m = tmid_page(1,2) [OF assms(1-3)]
  have r: "recs_of (tf_frame i s') = tf_view s i" using m by (simp add: recs_of_def)
  have "ok \<and> tinv s'' \<and> tsame s s'' \<and> (\<forall>j. tf_view s'' j = (if j = i then recs_of (tf_frame i s') else tf_view s j))"
    using tf_release [OF assms(1,2) page_wf_length [OF m(1)], of False ok s''] assms(4) r m(2) tf_set_frame_same [OF assms(1)] by simp
  then show "ok" "tinv s''" "tsame s s''" and v: "tf_view s'' j = tf_view s j" for j using r by auto
  then show "tab s'' = tab s" by (intro tab_cong) simp_all
qed

lemma delete_record_result:
  assumes inv: "tinv s" and dl: "delete_record rid s = (ok, s')"
  shows "tinv s' \<and> tsame s s' \<and> (if ok then tab s rid \<noteq> None \<and> tab s' = (tab s)(rid := None) else tab s' = tab s)"
proof (cases "fst rid < t_page_count (fst s)")
  case False
  then show ?thesis using dl inv by (simp add: delete_record_def not_less)
next
  case True
  obtain okf s1 where f: "tf_fetch (fst rid) s = (okf, s1)" by (cases "tf_fetch (fst rid) s")
  note fr = tf_fetch_result [OF inv True f]
  have nle: "\<not> t_page_count (fst s) \<le> fst rid" using True by simp
  show ?thesis
  proof (cases okf)
    case False
    then show ?thesis using dl f fr nle tab_cong by (auto simp: delete_record_def)
  next
    case T: True
    have mid: "tmid (fst rid) s s1" using fr T by simp
    let ?b = "tf_frame (fst rid) s1"
    note m = tmid_page [OF mid inv True]
    obtain a okr where rm: "page_remove ?b (snd rid) = (a, okr)" by (cases "page_remove ?b (snd rid)")
    note law = pg.rem_law [OF m(1) rm]
    show ?thesis
    proof (cases okr)
      case True
      have ac: "accept_page (fst rid) ?b a s1 = (ok, s')" using dl f T rm True nle by (simp add: delete_record_def Let_def)
      have wfa: "page_wf a" and lt: "unat (snd rid) < length (page_records ?b)" using law True by (auto simp: spec_read_def split: if_splits)
      note ar = accept_page_result [OF mid inv \<open>fst rid < _\<close> wfa ac]
      have ra: "recs_of a = Some ((page_records ?b)[unat (snd rid) := None])" using law True by (simp add: recs_of_def)
      have "tab s rid \<noteq> None" using law True m(3) [of "snd rid"] pg.rd_law [OF m(1)] by simp
      moreover have "tab s' = (tab s)(rid := None)" if ok
        using tab_slot_update [OF _ _ \<open>fst rid < _\<close> m(2) ra lt, of s'] ar that by simp
      moreover have "tab s' = tab s" if "\<not> ok" using ar that by (intro tab_cong) simp_all
      ultimately show ?thesis using ar by simp
    next
      case False
      obtain oku s2 where u: "tf_unpin (fst rid) False (tf_set_frame (fst rid) a s1) = (oku, s2)"
        by (cases "tf_unpin (fst rid) False (tf_set_frame (fst rid) a s1)")
      have "a = ?b" using law False by simp
      then have "tf_unpin (fst rid) False s1 = (oku, s2)" using u tf_set_frame_same [OF mid] by simp
      note rc = tf_release_clean [OF mid inv True this]
      have "\<not> ok" "s' = s2" using dl f T rm False u nle by (auto simp: delete_record_def Let_def)
      then show ?thesis using rc by simp
    qed
  qed
qed

lemma insert_scan_result:
  "tinv s \<Longrightarrow> \<forall>i\<in>set is. i < t_page_count (fst s) \<Longrightarrow> insert_scan r is s = (res, s') \<Longrightarrow>
   tinv s' \<and> tsame s s' \<and>
   (case res of Inr (Some rid) \<Rightarrow> tab s rid = None \<and> tab s' = (tab s)(rid \<mapsto> r) | _ \<Rightarrow> (\<forall>j. tf_view s' j = tf_view s j))"
proof (induction "is" arbitrary: s)
  case (Cons i rest)
  obtain okf s1 where f: "tf_fetch i s = (okf, s1)" by (cases "tf_fetch i s")
  have i: "i < t_page_count (fst s)" using Cons.prems(2) by simp
  note fr = tf_fetch_result [OF Cons.prems(1) i f]
  have again: ?case if q: "tinv s2" "tsame s s2" "\<And>j. tf_view s2 j = tf_view s j" "insert_scan r rest s2 = (res, s')" for s2
  proof -
    have "\<forall>i\<in>set rest. i < t_page_count (fst s2)" using Cons.prems(2) tsameD [OF q(2)] by simp
    from Cons.IH [OF q(1) this q(4)] tsame_trans [OF q(2)] tab_cong [OF q(2,3)] q(3) show ?case
      by (auto split: sum.splits option.splits)
  qed
  show ?case
  proof (cases okf)
    case False
    then show ?thesis using again [of s1] fr Cons.prems(3) f by simp
  next
    case T: True
    have mid: "tmid i s s1" using fr T by simp
    let ?b = "tf_frame i s1"
    note m = tmid_page [OF mid Cons.prems(1) i]
    obtain a so where ins: "page_insert ?b r = (a, so)" by (cases "page_insert ?b r")
    note law = pg.ins_law [OF m(1) ins]
    show ?thesis
    proof (cases so)
      case None
      obtain oku s2 where u: "tf_unpin i False (tf_set_frame i a s1) = (oku, s2)" by (cases "tf_unpin i False (tf_set_frame i a s1)")
      have ra: "recs_of a = tf_view s i" using law None m(2) by (simp add: recs_of_def)
      note rl = tf_release [OF mid Cons.prems(1) page_wf_length _ _ u]
      have "tinv s2" "tsame s s2" "\<And>j. tf_view s2 j = tf_view s j" using rl law ra m(2) by (auto split: if_splits)
      then show ?thesis using again [of s2] Cons.prems(3) f T ins None u by (simp add: Let_def)
    next
      case (Some sid)
      obtain okl a' s2 where l: "tf_log_page_update i ?b a s1 = (okl, a', s2)" by (cases "tf_log_page_update i ?b a s1")
      note lr = tf_log_result [OF mid l]
      have wfa: "page_wf a" using law by simp
      show ?thesis
      proof (cases okl)
        case True
        obtain oku s3 where u: "tf_unpin i True (tf_set_frame i a' s2) = (oku, s3)" by (cases "tf_unpin i True (tf_set_frame i a' s2)")
        have res: "res = Inr (Some (i, sid))" "s' = s3" using Cons.prems(3) f T ins Some l True u by (auto simp: Let_def)
        have a': "recs_of a' = Some (spec_insert (page_records ?b) r)" using lr(2) [OF wfa] law Some by (simp add: recs_of_def)
        note rl = tf_release [OF lr(1) Cons.prems(1) page_wf_length _ _ u]
        have rr: "tinv s3" "tsame s s3" "\<And>j. tf_view s3 j = (if j = i then Some (spec_insert (page_records ?b) r) else tf_view s j)"
          using rl lr(2) [OF wfa] a' by auto
        have "tab s3 = (tab s)((i, sid) := Some r)"
          using tab_slot [OF rr(2,3) i m(2), of sid "Some r"] law Some by (simp add: spec_read_insert)
        moreover have "tab s (i, sid) = None" using m(3) pg.read_after_insert(1) [OF m(1)] ins Some by simp
        ultimately show ?thesis using rr res by simp
      next
        case False
        obtain oku s3 where u: "tf_unpin i False (tf_set_frame i ?b s2) = (oku, s3)" by (cases "tf_unpin i False (tf_set_frame i ?b s2)")
        have res: "\<exists>e. res = Inl e" "s' = s3" using Cons.prems(3) f T ins Some l False u by (auto simp: Let_def)
        note rl = tf_release [OF lr(1) Cons.prems(1) page_wf_length [OF m(1)] _ _ u]
        have "recs_of ?b = tf_view s i" using m by (simp add: recs_of_def)
        then have "tinv s3 \<and> tsame s s3 \<and> (\<forall>j. tf_view s3 j = tf_view s j)" using rl m(2) by auto
        then show ?thesis using res by auto
      qed
    qed
  qed
qed auto

lemma page_ids_less: "i \<in> set (page_ids n) \<Longrightarrow> i < n"
proof -
  assume "i \<in> set (page_ids n)"
  then obtain k where k: "i = of_nat k" "k < unat n" by (auto simp: page_ids_def)
  have "unat n < 2 ^ LENGTH(32)" by (rule unsigned_less)
  then have "unat i = k" using k by (simp add: unat_of_nat take_bit_nat_eq_self)
  then show "i < n" using k(2) by (simp add: word_less_nat_alt)
qed

lemma page_reset_first: "page_insert page_reset r = (a, Some sid) \<Longrightarrow> page_wf a \<and> page_records a = [Some r] \<and> sid = 0"
  using pg.ins_law [OF page_reset_law(1), of r a "Some sid"] page_reset_law(2)
  by (simp add: spec_insert_def spec_slot_def unat_eq_0)

lemma insert_record_result:
  assumes inv: "tinv s" and n: "unat (t_page_count (fst s)) + 1 < 2 ^ 32" and ins: "insert_record r s = (res, s')"
  shows "tinv s' \<and> t_page_count (fst s) \<le> t_page_count (fst s') \<and>
    (case res of Inr rid \<Rightarrow> tab s rid = None \<and> tab s' = (tab s)(rid \<mapsto> r) | Inl e \<Rightarrow> tab s' = tab s)"
proof -
  obtain res1 s1 where sc: "insert_scan r (page_ids (t_page_count (fst s))) s = (res1, s1)" by (cases "insert_scan r (page_ids (t_page_count (fst s))) s")
  have "\<forall>i\<in>set (page_ids (t_page_count (fst s))). i < t_page_count (fst s)" using page_ids_less by blast
  note isr = insert_scan_result [OF inv this sc]
  show ?thesis
  proof (cases "res1 = Inr None")
    case False
    then show ?thesis using ins sc isr tsameD [of s s1] tab_cong [of s s1] by (auto simp: insert_record_def split: sum.splits option.splits)
  next
    case True
    then have q: "tinv s1" "tsame s s1" "\<And>j. tf_view s1 j = tf_view s j" using isr by auto
    note td = tsameD [OF q(2)] and tc = tab_cong [OF q(2,3)]
    obtain a so where pi: "page_insert page_reset r = (a, so)" by (cases "page_insert page_reset r")
    show ?thesis
    proof (cases so)
      case None
      then show ?thesis using ins sc True pi q(1) td tc by (auto simp: insert_record_def)
    next
      case (Some sid)
      note pf = page_reset_first [OF pi [unfolded Some]]
      obtain ok s2 where ap: "append_page a s1 = (ok, s2)" by (cases "append_page a s1")
      have n1: "unat (t_page_count (fst s1)) + 1 < 2 ^ 32" using n td by simp
      note ar = append_page_result [OF q(1) _ n1 ap]
      have wf: "page_wf a" using pf by simp
      let ?i = "t_page_count (fst s)"
      have succ: "j < ?i + 1 \<longleftrightarrow> j < ?i \<or> j = ?i" for j
        using n by (auto simp: word_less_nat_alt unat_word_ariths unat_key_eq less_Suc_eq)
      have r: "res = (if ok then Inr (?i, sid) else Inl (Runtime_error ''could not append page''))" "s' = s2"
        using ins sc True pi Some ap td by (auto simp: insert_record_def Let_def split: if_splits)
      have le: "?i \<le> t_page_count (fst s2)" using ar(2) [OF wf] td n by (auto simp: word_le_nat_alt unat_word_ariths)
      show ?thesis
      proof (cases ok)
        case True
        have "tab s2 rid = ((tab s1)((?i, sid) \<mapsto> r)) rid" for rid
          using ar(2-4) [OF wf] True succ [of "fst rid"] td pf by (cases rid) (auto simp: tab_def recs_of_def spec_read_def unat_eq_0)
        moreover have "tab s (?i, sid) = None" by (simp add: tab_def)
        ultimately show ?thesis using True r ar(1) [OF wf] tc le by auto
      next
        case False
        have "tab s2 = tab s1" using ar(2,3) [OF wf] False by (auto simp: tab_def fun_eq_iff)
        then show ?thesis using False r ar(1) [OF wf] tc le by simp
      qed
    qed
  qed
qed

lemma update_record_result:
  assumes inv: "tinv s" and n: "unat (t_page_count (fst s)) + 1 < 2 ^ 32" and up: "update_record rid r s = (ok, rid', s')"
  shows "tinv s' \<and> (if ok then tab s rid \<noteq> None \<and> tab s' = ((tab s)(rid := None))(rid' \<mapsto> r) \<and> (rid' = rid \<or> tab s rid' = None)
     else rid' = rid \<and> (tab s' = tab s \<or> (\<exists>new. tab s new = None \<and> tab s' = (tab s)(new \<mapsto> r))))"
proof (cases "fst rid < t_page_count (fst s)")
  case False
  then show ?thesis using up inv by (simp add: update_record_def not_less)
next
  case True
  obtain okf s1 where f: "tf_fetch (fst rid) s = (okf, s1)" by (cases "tf_fetch (fst rid) s")
  note fr = tf_fetch_result [OF inv True f]
  have nle: "\<not> t_page_count (fst s) \<le> fst rid" using True by simp
  show ?thesis
  proof (cases okf)
    case False
    then show ?thesis using up f fr nle tab_cong by (auto simp: update_record_def)
  next
    case T: True
    have mid: "tmid (fst rid) s s1" using fr T by simp
    let ?b = "tf_frame (fst rid) s1"
    note m = tmid_page [OF mid inv True]
    show ?thesis
    proof (cases "page_read ?b (snd rid)")
      case None
      obtain oku s2 where u: "tf_unpin (fst rid) False s1 = (oku, s2)" by (cases "tf_unpin (fst rid) False s1")
      show ?thesis using up f T None u nle tf_release_clean [OF mid inv True u] by (auto simp: update_record_def Let_def)
    next
      case (Some old)
      have old: "tab s rid = Some old" using m(3) [of "snd rid"] Some by simp
      obtain a okp where pu: "Page.page_update ?b (snd rid) r = (a, okp)" by (cases "Page.page_update ?b (snd rid) r")
      note law = pg.upd_law [OF m(1) pu]
      show ?thesis
      proof (cases okp)
        case True
        obtain oka s2 where ac: "accept_page (fst rid) ?b a s1 = (oka, s2)" by (cases "accept_page (fst rid) ?b a s1")
        have r: "ok = oka" "rid' = rid" "s' = s2" using up f T Some pu True ac nle by (auto simp: update_record_def Let_def)
        have wfa: "page_wf a" and ra: "recs_of a = Some ((page_records ?b)[unat (snd rid) := Some r])"
          and lt: "unat (snd rid) < length (page_records ?b)"
          using law True by (auto simp: recs_of_def spec_read_def split: if_splits)
        note ar = accept_page_result [OF mid inv \<open>fst rid < _\<close> wfa ac]
        have "tab s' = (tab s)(rid \<mapsto> r)" if ok
          using tab_slot_update [OF _ _ \<open>fst rid < _\<close> m(2) ra lt, of s'] ar that r by simp
        moreover have "tab s' = tab s" if "\<not> ok" using ar that r by (intro tab_cong) simp_all
        ultimately show ?thesis using ar r old by auto
      next
        case False
        obtain oku s2 where u: "tf_unpin (fst rid) False (tf_set_frame (fst rid) a s1) = (oku, s2)"
          by (cases "tf_unpin (fst rid) False (tf_set_frame (fst rid) a s1)")
        have "a = ?b" using law False by simp
        then have "tf_unpin (fst rid) False s1 = (oku, s2)" using u tf_set_frame_same [OF mid] by simp
        note rc = tf_release_clean [OF mid inv True this]
        have n2: "unat (t_page_count (fst s2)) + 1 < 2 ^ 32" using n tsameD [OF rc(3)] by simp
        obtain res s3 where i: "insert_record r s2 = (res, s3)" by (cases "insert_record r s2")
        note ir = insert_record_result [OF rc(2) n2 i]
        obtain okd s4 where d: "delete_record rid s3 = (okd, s4)" by (cases "delete_record rid s3")
        have inv3: "tinv s3" using ir by simp
        note dr = delete_record_result [OF inv3 d]
        show ?thesis
        proof (cases res)
          case (Inl e)
          then show ?thesis using up f T Some pu False u i nle ir rc(5) by (auto simp: update_record_def Let_def)
        next
          case (Inr new)
          have t3: "tab s new = None" "tab s3 = (tab s)(new \<mapsto> r)" using ir Inr rc(5) by simp_all
          have nn: "new \<noteq> rid" using t3(1) old by auto
          show ?thesis
          proof (cases okd)
            case True
            then have "ok" "rid' = new" "s' = s4" using up f T Some pu False u i Inr d nle by (auto simp: update_record_def Let_def)
            then show ?thesis using dr True t3 nn old by (auto simp: fun_upd_twist)
          next
            case F: False
            obtain ok5 s5 where d2: "delete_record new s4 = (ok5, s5)" by (cases "delete_record new s4")
            have "\<not> ok" "rid' = rid" "s' = s5" using up f T Some pu False u i Inr d F d2 nle by (auto simp: update_record_def Let_def)
            moreover have "tinv s5" "tab s5 = tab s \<or> tab s5 = (tab s)(new \<mapsto> r)"
              using delete_record_result [OF _ d2] dr F t3 by (auto split: if_splits)
            ultimately show ?thesis using t3(1) by auto
          qed
        qed
      qed
    qed
  qed
qed

section \<open>Reading without failing system calls\<close>

lemma write_frame_calm: "calm w \<Longrightarrow> write_frame (Some p) k fr (None, w) = (ok, wm', w') \<Longrightarrow> ok \<and> wm' = None \<and> calm w'"
  using full_write_calm [of w p "f_page fr" "unat (snd k) * PAGE_SIZE"] by (auto simp: write_frame_def split: prod.splits)

lemma evict_scan_calm:
  assumes "calm w" "unpinned c" "\<exists>k\<in>set ks. map_of (c_pages c) k \<noteq> None" "evict_scan (Some p) ks (c, None, w) = (ok, c', wm', w')"
  shows "ok \<and> wm' = None \<and> calm w'"
  using assms(3,4)
proof (induction ks)
  case (Cons k ks)
  show ?case
  proof (cases "map_of (c_pages c) k")
    case None
    then show ?thesis using Cons by auto
  next
    case (Some fr)
    have "f_pins fr = 0" using assms(2) Some unfolding unpinned_def by blast
    then show ?thesis using Cons.prems(2) Some write_frame_calm [OF assms(1), of p k fr] assms(1) by (auto split: prod.splits if_splits)
  qed
qed simp

lemma evict_scan_kept: "evict_scan fd ks (c, ww) = (ok, c', ww') \<Longrightarrow> unpinned c \<Longrightarrow> unpinned c'"
  by (induction fd ks "(c, ww)" rule: evict_scan.induct)
     (auto simp: unpinned_def delete_conv' split: option.splits if_splits prod.splits)

lemma evict_to_fit_calm:
  "calm w \<Longrightarrow> unpinned c \<Longrightarrow> cache_ok c \<Longrightarrow> evict_to_fit (Some p) (c, None, w) = (ok, c', wm', w') \<Longrightarrow> ok \<and> wm' = None \<and> calm w'"
proof (induction "length (c_pages c)" arbitrary: c w rule: less_induct)
  case less
  show ?case
  proof (cases "c_capacity c \<le> length (c_pages c)")
    case True
    obtain ok1 c1 wm1 w1 where e: "evict_one_page (Some p) (c, None, w) = (ok1, c1, wm1, w1)" by (cases "evict_one_page (Some p) (c, None, w)")
    note ev = e [unfolded evict_one_page_def, simplified]
    have "c_pages c \<noteq> []" using less.prems(3) True by (auto simp: cache_ok_def)
    then obtain k fr ps where "c_pages c = (k, fr) # ps" by (cases "c_pages c") auto
    then have "map_of (c_pages c) k = Some fr" by simp
    then have "\<exists>k\<in>set (rev (c_lru c)). map_of (c_pages c) k \<noteq> None" using less.prems(3) by (auto simp: cache_ok_def intro!: bexI [of _ k])
    from evict_scan_calm [OF less.prems(1,2) this ev] have o: "ok1" "wm1 = None" "calm w1" by auto
    have "evict_to_fit (Some p) (c1, None, w1) = (ok, c', wm', w')" using less.prems(4) True e o by (subst (asm) evict_to_fit.simps) simp
    moreover have "length (c_pages c1) < length (c_pages c)" using ev o(1) evict_scan_shrinks [of "Some p" "rev (c_lru c)" c] by simp
    moreover have "cache_ok c1" "unpinned c1" using evict_scan_ok [OF ev less.prems(3)] evict_scan_kept [OF ev less.prems(2)] by auto
    ultimately show ?thesis using less.hyps o(3) by blast
  next
    case False
    then show ?thesis using less.prems by (subst (asm) evict_to_fit.simps) simp
  qed
qed

lemma fetch_page_calm:
  assumes ci: "cinv al (lexically_normal path) p (c, None, w)" and w: "calm w" "unpinned c" "(unat i + 1) * PAGE_SIZE \<le> length (contents w p)"
    and fe: "fetch_page path i (Some p) (c, None, w) = (ok, c', wm', w')"
  shows "ok \<and> calm w'"
proof (cases "map_of (c_pages c) (make_key path i)")
  case (Some fr)
  then show ?thesis using fe w(1) by (auto simp: fetch_page_def Let_def)
next
  case None
  let ?c = "c\<lparr>c_misses := c_misses c + 1\<rparr>"
  obtain ok1 c1 wm1 w1 where m: "evict_to_fit (Some p) (?c, None, w) = (ok1, c1, wm1, w1)" by (cases "evict_to_fit (Some p) (?c, None, w)")
  have "ok1 \<and> wm1 = None \<and> calm w1" using evict_to_fit_calm [OF w(1) _ _ m] w(2) cinvD(1) [OF ci] by (simp add: unpinned_def)
  moreover have "length (contents w p) \<le> length (contents w1 p)" using evict_to_fit_quiet [OF _ m, of al "lexically_normal path"] ci by (simp add: quiet_def)
  moreover have len: "unat i * PAGE_SIZE + PAGE_SIZE \<le> length (contents w p)" using w(3) by (simp add: algebra_simps)
  ultimately have rd: "\<exists>pg w2. read_page_from_disk (Some p) (make_key path i) w1 = (Some pg, w2) \<and> calm w2"
    using full_read_at_calm [of w1 "unat i * PAGE_SIZE" PAGE_SIZE p "[]"]
    by (cases "full_read_at p [] PAGE_SIZE (unat i * PAGE_SIZE) w1") (auto simp: read_page_from_disk_def full_read_def make_key_def)
  then show ?thesis using fe None m \<open>ok1 \<and> wm1 = None \<and> calm w1\<close> by (auto simp: fetch_page_def Let_def)
qed

text \<open>The file holds all pages of the table.\<close>

definition tf_whole :: "tstate \<Rightarrow> bool" where
  "tf_whole = (\<lambda>(t, wm, w). unat (t_page_count t) * PAGE_SIZE \<le> length (contents w (t_path t)))"

lemma read_page_calm:
  assumes inv: "tinv s" and w: "calm (snd (snd s))" "tf_whole s" and i: "i < t_page_count (fst s)"
  obtains pg s' where "read_page i s = (Some pg, s')" "recs_of pg = tf_view s i" "tinv s'" "tsame s s'" "calm (snd (snd s'))" "tf_whole s'"
    "\<And>j. tf_view s' j = tf_view s j"
proof -
  obtain t wm w0 where s: "s = (t, wm, w0)" by (cases s)
  obtain okf c wm1 w1 where f: "fetch_page (t_path t) i (Some (t_path t)) (t_cache t, None, w0) = (okf, c, wm1, w1)"
    by (cases "fetch_page (t_path t) i (Some (t_path t)) (t_cache t, None, w0)")
  let ?s1 = "(t\<lparr>t_cache := c\<rparr>, wm, w1)"
  have tf: "tf_fetch i s = (okf, ?s1)" using f by (simp add: tf_fetch_def s)
  have ci: "cinv recs_of (lexically_normal (t_path t)) (t_path t) (t_cache t, wm, w0)" and u: "unpinned (t_cache t)" using inv by (simp_all add: tinv_def tf_cinv_def s)
  have "unat i + 1 \<le> unat (t_page_count t)" using i by (simp add: s word_less_nat_alt)
  then have "(unat i + 1) * PAGE_SIZE \<le> unat (t_page_count t) * PAGE_SIZE" by (rule mult_le_mono1)
  then have len: "(unat i + 1) * PAGE_SIZE \<le> length (contents w0 (t_path t))" using w(2) by (simp add: tf_whole_def s)
  have fc: "okf \<and> calm w1" using fetch_page_calm [OF cinv_wm [OF ci] _ u len f] w(1) by (simp add: s)
  have mono: "length (contents w0 (t_path t)) \<le> length (contents w1 (t_path t))" using fetch_page_result(1) [OF cinv_wm [OF ci] f] by (simp add: quiet_def)
  have mid: "tmid i s ?s1" using tf_fetch_result [OF inv i tf] fc by simp
  obtain oku s2 where un: "tf_unpin i False ?s1 = (oku, s2)" by (cases "tf_unpin i False ?s1")
  note rc = tf_release_clean [OF mid inv i un]
  have s2: "snd (snd s2) = w1" "t_path (fst s2) = t_path t" "t_page_count (fst s2) = t_page_count t" using un by (auto simp: tf_unpin_def split: prod.splits)
  show thesis
  proof (rule that)
    show "read_page i s = (Some (tf_frame i ?s1), s2)" using i tf fc un rc(1) by (simp add: read_page_def Let_def not_less [symmetric])
    show "recs_of (tf_frame i ?s1) = tf_view s i" using mid by (simp add: tmid_def)
    show "tf_whole s2" using w(2) mono s2 by (cases s2) (simp add: tf_whole_def s)
  qed (use rc s2 fc in auto)
qed

section \<open>Scanning\<close>

text \<open>The records of one page in slot order.\<close>

definition page_list :: "u32 \<Rightarrow> slots \<Rightarrow> (record_id \<times> bytes) list" where
  "page_list i rs = concat (map (\<lambda>k. case rs ! k of None \<Rightarrow> [] | Some r \<Rightarrow> [((i, of_nat k), r)]) [0..<length rs])"

lemma scan_slots_collect:
  "scan_slots (\<lambda>rid r a. (True, a @ [(rid, r)])) i pg sids a =
   (True, a @ concat (map (\<lambda>sid. case page_read pg sid of None \<Rightarrow> [] | Some r \<Rightarrow> [((i, sid), r)]) sids))"
  by (induction sids arbitrary: a) (simp_all split: option.splits)

lemma page_records_length: "page_wf pg \<Longrightarrow> length (page_records pg) = unat (page_slot_count pg) \<and> length (page_records pg) \<le> 1021"
  by (simp add: page_records_def page_slot_count_def nslots_def page_wf_iff)

lemma scan_page_collect:
  assumes "page_wf pg"
  shows "scan_slots (\<lambda>rid r a. (True, a @ [(rid, r)])) i pg (map of_nat [0..<unat (page_slot_count pg)]) a = (True, a @ page_list i (page_records pg))"
proof -
  note l = page_records_length [OF assms]
  have "page_read pg (of_nat k) = page_records pg ! k" if "k < length (page_records pg)" for k
    using that l pg.rd_law [OF assms, of "of_nat k"] by (simp add: spec_read_def unat_of_nat take_bit_nat_eq_self)
  then have "map (\<lambda>k. case page_read pg (of_nat k) of None \<Rightarrow> [] | Some r \<Rightarrow> [((i, of_nat k), r)]) [0..<length (page_records pg)] =
      map (\<lambda>k. case page_records pg ! k of None \<Rightarrow> [] | Some r \<Rightarrow> [((i, of_nat k :: u16), r)]) [0..<length (page_records pg)]"
    by (intro map_cong) simp_all
  then have "concat (map (\<lambda>sid. case page_read pg sid of None \<Rightarrow> [] | Some r \<Rightarrow> [((i, sid), r)]) (map of_nat [0..<length (page_records pg)])) =
      page_list i (page_records pg)" unfolding page_list_def by (simp only: map_map comp_def)
  then show ?thesis using l by (simp only: scan_slots_collect)
qed

lemma page_list_ids: "x \<in> set (page_list i rs) \<Longrightarrow> fst (fst x) = i"
  by (auto simp: page_list_def split: option.splits)

lemma page_list_map:
  assumes "length rs \<le> 1021"
  shows "map_of (page_list i rs) (i, sid) = spec_read rs (unat sid)" "distinct (map fst (page_list i rs))"
proof -
  have inj: "unat (of_nat k :: u16) = k" if "k < 1021" for k using that by (simp add: unat_of_nat take_bit_nat_eq_self)
  let ?g = "\<lambda>k. case rs ! k of None \<Rightarrow> [] | Some r \<Rightarrow> [((i, of_nat k :: u16), r)]"
  have mo: "map_of (concat (map ?g [0..<n])) (i, sid) = (if unat sid < n then rs ! unat sid else None)" and
    di: "distinct (map fst (concat (map ?g [0..<n])))" if "n \<le> length rs" for n
  proof -
    have "map_of (concat (map ?g [0..<n])) (i, sid) = (if unat sid < n then rs ! unat sid else None) \<and>
      distinct (map fst (concat (map ?g [0..<n]))) \<and> fst ` set (concat (map ?g [0..<n])) \<subseteq> {i} \<times> of_nat ` {0..<n}"
      using that
    proof (induction n)
      case (Suc n)
      have lt: "n < 1021" using Suc.prems assms by simp
      have ne: "(of_nat n :: u16) \<notin> of_nat ` {0..<n}" using inj lt by (metis (no_types, lifting) atLeastLessThan_iff imageE less_irrefl less_trans)
      have e: "unat sid = n \<longleftrightarrow> sid = of_nat n" using inj [OF lt] by (metis unat_slot_eq)
      show ?case
      proof (cases "rs ! n")
        case None
        then show ?thesis using Suc by (auto simp: less_Suc_eq)
      next
        case (Some r)
        then show ?thesis using Suc ne e by (auto simp: less_Suc_eq map_add_def split: option.splits)
      qed
    qed simp
    then show "map_of (concat (map ?g [0..<n])) (i, sid) = (if unat sid < n then rs ! unat sid else None)"
      "distinct (map fst (concat (map ?g [0..<n])))" by auto
  qed
  show "map_of (page_list i rs) (i, sid) = spec_read rs (unat sid)" using mo [of "length rs"] by (simp add: page_list_def spec_read_def)
  show "distinct (map fst (page_list i rs))" using di [of "length rs"] by (simp add: page_list_def)
qed

lemma scan_pages_collect:
  assumes "tinv s" "calm (snd (snd s))" "tf_whole s" "\<forall>i\<in>set is. i < t_page_count (fst s)"
  obtains s' where "scan_pages (\<lambda>rid r a. (True, a @ [(rid, r)])) is a s = (True, a @ concat (map (\<lambda>i. page_list i (the (tf_view s i))) is), s')"
    "tinv s'" "tsame s s'" "\<forall>j. tf_view s' j = tf_view s j"
  using assms
proof (induction "is" arbitrary: a s thesis)
  case Nil
  then show ?case by simp
next
  case (Cons i rest)
  have i: "i < t_page_count (fst s)" using Cons.prems(5) by simp
  from read_page_calm [OF Cons.prems(2-4) i] obtain pg s1 where
    r: "read_page i s = (Some pg, s1)" "recs_of pg = tf_view s i" "tinv s1" "tsame s s1" "calm (snd (snd s1))" "tf_whole s1" "\<And>j. tf_view s1 j = tf_view s j" by blast
  have wf: "page_wf pg" "the (tf_view s i) = page_records pg" using r(2) Cons.prems(2) i by (auto simp: recs_of_def tinv_def split: if_splits)
  have "\<forall>i\<in>set rest. i < t_page_count (fst s1)" using Cons.prems(5) tsameD [OF r(4)] by simp
  from Cons.IH [OF _ r(3,5,6) this, of "a @ page_list i (page_records pg)"] obtain s' where
    q: "scan_pages (\<lambda>rid r a. (True, a @ [(rid, r)])) rest (a @ page_list i (page_records pg)) s1 =
        (True, (a @ page_list i (page_records pg)) @ concat (map (\<lambda>i. page_list i (the (tf_view s1 i))) rest), s')"
      "tinv s'" "tsame s1 s'" "\<forall>j. tf_view s' j = tf_view s1 j" by blast
  show ?case
  proof (rule Cons.prems(1))
    show "scan_pages (\<lambda>rid r a. (True, a @ [(rid, r)])) (i # rest) a s =
        (True, a @ concat (map (\<lambda>i. page_list i (the (tf_view s i))) (i # rest)), s')"
      using r(1,7) q(1) wf scan_page_collect [OF wf(1), of i a] by simp
  qed (use q r(7) tsame_trans [OF r(4) q(3)] in auto)
qed

lemma map_of_pages:
  assumes "distinct is" "\<And>i. i \<in> set is \<Longrightarrow> length (f i) \<le> 1021"
  shows "map_of (concat (map (\<lambda>i. page_list i (f i)) is)) (i, sid) = (if i \<in> set is then spec_read (f i) (unat sid) else None) \<and>
    distinct (map fst (concat (map (\<lambda>i. page_list i (f i)) is)))"
  using assms
proof (induction "is")
  case (Cons x xs)
  have "map_of (page_list x (f x)) (i, sid) = None" if "i \<noteq> x" using that page_list_ids [of _ x "f x"] by (force simp: map_of_eq_None_iff)
  moreover have "fst ` set (page_list x (f x)) \<inter> fst ` set (concat (map (\<lambda>i. page_list i (f i)) xs)) = {}"
  proof -
    have "fst a \<noteq> fst b" if "a \<in> set (page_list x (f x))" "y \<in> set xs" "b \<in> set (page_list y (f y))" for a b y
      using page_list_ids [OF that(1)] page_list_ids [OF that(3)] that(2) Cons.prems(1) by auto
    then show ?thesis by (auto simp: image_iff) metis+
  qed
  moreover have "map_of (concat (map (\<lambda>i. page_list i (f i)) xs)) (i, sid) = None" if "i = x"
    using Cons that by simp
  moreover have "length (f x) \<le> 1021" using Cons.prems(2) by simp
  note pl = page_list_map(1) [OF this, of x sid] page_list_map(2) [OF this, of x]
  moreover have IH: "map_of (concat (map (\<lambda>i. page_list i (f i)) xs)) (i, sid) = (if i \<in> set xs then spec_read (f i) (unat sid) else None)"
    "distinct (map fst (concat (map (\<lambda>i. page_list i (f i)) xs)))" using Cons by simp_all
  ultimately show ?case using Cons.prems(1) by (cases "i = x") (auto simp: map_add_def split: option.splits)
qed simp

lemma page_ids_set: "set (page_ids n) = {i. i < n}" "distinct (page_ids n)"
proof -
  have b: "unat n < 2 ^ LENGTH(32)" by (rule unsigned_less)
  have inj: "unat (of_nat k :: u32) = k" if "k < unat n" for k using that b by (simp add: unat_of_nat take_bit_nat_eq_self)
  have "i \<in> set (page_ids n)" if "i < n" for i
    using that by (auto simp: page_ids_def word_less_nat_alt image_iff intro!: bexI [of _ "unat i"])
  then show "set (page_ids n) = {i. i < n}" using page_ids_less by blast
  show "distinct (page_ids n)" using inj unfolding page_ids_def distinct_map by (auto intro!: inj_onI) (metis inj)
qed

lemma scan_records_result:
  assumes inv: "tinv s" and w: "calm (snd (snd s))" "tf_whole s"
  obtains recs s' where "scan_records s = (recs, s')" "map_of recs = tab s" "distinct (map fst recs)" "tinv s'" "tab s' = tab s"
proof -
  let ?n = "t_page_count (fst s)"
  have "\<forall>i\<in>set (page_ids ?n). i < ?n" by (simp add: page_ids_set)
  from scan_pages_collect [OF inv w this, of "[]"] obtain s' where
    r: "scan_pages (\<lambda>rid r a. (True, a @ [(rid, r)])) (page_ids ?n) [] s =
      (True, [] @ concat (map (\<lambda>i. page_list i (the (tf_view s i))) (page_ids ?n)), s')"
    "tinv s'" "tsame s s'" "\<forall>j. tf_view s' j = tf_view s j" by blast
  have len: "length (the (tf_view s i)) \<le> 1021" if "i \<in> set (page_ids ?n)" for i
  proof -
    have "tf_view s i \<noteq> None" using that inv by (simp add: page_ids_set tinv_def)
    then obtain pg where "page_wf pg" "tf_view s i = Some (page_records pg)"
      by (cases s) (auto simp: tf_view_def view_def recs_of_def split: if_splits)
    then show ?thesis using page_records_length [of pg] by simp
  qed
  let ?recs = "concat (map (\<lambda>i. page_list i (the (tf_view s i))) (page_ids ?n))"
  note mp = map_of_pages [OF page_ids_set(2), of ?n "\<lambda>i. the (tf_view s i)", OF len]
  have "map_of ?recs rid = tab s rid" for rid
    using mp [of "fst rid" "snd rid"] inv by (cases rid) (auto simp: page_ids_set tab_def tinv_def split: option.splits)
  moreover have "tab s' = tab s" using r(3,4) by (intro tab_cong) simp_all
  moreover have "scan_records s = (?recs, s')" using r(1) by (simp add: scan_records_def scan_records_with_def)
  ultimately show thesis using that mp r(2) by blast
qed

section \<open>Properties\<close>

text \<open>
  C23. \<^verbatim>\<open>insert_record\<close> returns the id of a place that was free and afterwards holds exactly the new record there
  besides the old ones; when it throws, the records of the table are unchanged. This holds for
  every behaviour of the cache and every failing system call, as long as the page count does not wrap.\<close>

theorem insert_record_correct:
  assumes "tinv s" "unat (t_page_count (fst s)) + 1 < 2 ^ 32"
  shows "case insert_record r s of (res, s') \<Rightarrow> tinv s' \<and>
    (case res of Inr rid \<Rightarrow> tab s rid = None \<and> tab s' = (tab s)(rid \<mapsto> r) | Inl e \<Rightarrow> tab s' = tab s)"
  using insert_record_result [OF assms] by (cases "insert_record r s") auto

text \<open>A new table file without log in an empty world.\<close>

definition fresh_table :: tstate where
  "fresh_table = (\<lparr> t_path = ''t'', t_open = True, t_page_count = 0, t_cache = cache_new 64, t_txn = 0 \<rparr>, None,
     \<lparr> w_files = [''t'' \<mapsto> []], w_dirs = {}, w_synced = (\<lambda>_. 0), w_script = [] \<rparr>)"

lemma fresh_table_inv: "tinv fresh_table"
proof -
  have "cinv recs_of (lexically_normal ''t'') ''t'' (cache_new 64, None, w)" for w by (rule cinvI) (simp_all add: cache_new_def cache_ok_def)
  then show ?thesis by (simp add: tinv_def fresh_table_def tf_cinv_def tf_keys_def unpinned_def cache_new_def)
qed

lemma fresh_table_insert:
  assumes "r \<noteq> []" "length r \<le> 4080"
  obtains s' where "insert_record r fresh_table = (Inr (0, 0), s')" "t_page_count (fst s') = 1"
proof -
  from page_insert_reset [OF assms] obtain d where d: "page_insert page_reset r = (d, Some 0)" "page_wf d" by blast
  have ne: "d \<noteq> []" using page_wf_length [OF d(2)] by (rule page_sized_not_empty)
  have "fst (append_page d fresh_table)"
    using ne by (simp add: append_page_def fresh_table_def tf_log_page_update_def tf_full_write_def full_write_at_step new_page_def
        cache_new_def evict_to_fit.simps tf_unpin_def unpin_page_def Let_def)
  then obtain s' where a: "append_page d fresh_table = (True, s')" by (cases "append_page d fresh_table") auto
  have n: "unat (t_page_count (fst fresh_table)) + 1 < 2 ^ 32" by (simp add: fresh_table_def)
  have "t_page_count (fst s') = 1" using append_page_result(2) [OF fresh_table_inv d(2) n a] by (simp add: fresh_table_def)
  then show thesis using that d a by (simp add: insert_record_def fresh_table_def page_ids_def)
qed

theorem insert_record_correct_witness:
  "\<exists>s'. insert_record [1, 2, 3] fresh_table = (Inr (0, 0), s') \<and> tinv s' \<and> tab s' (0, 0) = Some [1, 2, 3]"
proof -
  obtain s' where "insert_record [1, 2, 3] fresh_table = (Inr (0, 0), s')" by (rule fresh_table_insert [of "[1, 2, 3]"]) simp_all
  then show ?thesis using insert_record_correct [OF fresh_table_inv, of "[1, 2, 3]"] by (simp add: fresh_table_def)
qed



text \<open>
  C25. \<^verbatim>\<open>scan_records\<close> enumerates the table: when no system call fails it returns every record of the table under its id
  exactly once and nothing else, whichever pages are cached and evicted on the way.\<close>

theorem scan_records_complete:
  assumes "tinv s" "calm (snd (snd s))" "tf_whole s"
  shows "case scan_records s of (recs, s') \<Rightarrow> map_of recs = tab s \<and> distinct (map fst recs) \<and> tinv s' \<and> tab s' = tab s"
  by (rule scan_records_result [OF assms]) simp

definition one_page_table :: "page \<Rightarrow> tstate" where
  "one_page_table d = (\<lparr> t_path = ''t'', t_open = True, t_page_count = 1, t_cache = cache_new 64, t_txn = 0 \<rparr>, None,
     \<lparr> w_files = [''t'' \<mapsto> d], w_dirs = {}, w_synced = (\<lambda>_. 0), w_script = [Io_short 7, Io_eintr] \<rparr>)"

lemma one_page_table_inv:
  assumes "page_wf d"
  shows "tinv (one_page_table d)" "tf_view (one_page_table d) 0 = Some (page_records d)" "tf_whole (one_page_table d)"
proof -
  have ci: "cinv recs_of (lexically_normal ''t'') ''t'' (cache_new 64, None, w)" for w by (rule cinvI) (simp_all add: cache_new_def cache_ok_def)
  note len = page_wf_length [OF assms]
  let ?w = "\<lparr> w_files = [''t'' \<mapsto> d], w_dirs = {}, w_synced = (\<lambda>_. 0), w_script = [Io_short 7, Io_eintr] \<rparr>"
  have "page_bytes ?w ''t'' 0 = d" using len by (intro nth_equalityI) (simp_all add: page_bytes_def byte_at_def contents_def)
  then show v: "tf_view (one_page_table d) 0 = Some (page_records d)" using assms
    by (simp add: tf_view_def one_page_table_def view_def cache_new_def recs_of_def make_key_def)
  have z: "i < (1 :: u32) \<longleftrightarrow> i = 0" for i by (simp add: word_less_nat_alt unat_eq_0)
  show "tinv (one_page_table d)" using ci v by (simp add: tinv_def tf_cinv_def tf_keys_def unpinned_def z) (simp add: one_page_table_def cache_new_def)
  show "tf_whole (one_page_table d)" using len by (simp add: tf_whole_def one_page_table_def contents_def)
qed

theorem scan_records_complete_witness:
  "\<exists>s recs s'. scan_records s = (recs, s') \<and> map_of recs (0, 0) = Some [1, 2, 3]"
proof -
  obtain d where d: "page_wf d" "page_records d = [Some [1, 2, 3]]" using page_insert_reset [of "[1, 2, 3]"] by auto
  note o = one_page_table_inv [OF d(1)]
  have "calm (snd (snd (one_page_table d)))" by (simp add: one_page_table_def calm_def)
  from scan_records_complete [OF o(1) this o(3)] obtain recs s' where "scan_records (one_page_table d) = (recs, s')" "map_of recs = tab (one_page_table d)"
    by (cases "scan_records (one_page_table d)") auto
  moreover have "tab (one_page_table d) (0, 0) = Some [1, 2, 3]" using o(2) d(2) by (simp add: tab_def spec_read_def) (simp add: one_page_table_def)
  ultimately show ?thesis by (intro exI [of _ "one_page_table d"] exI [of _ recs] exI [of _ s']) simp
qed



text \<open>
  C27. Reading can break the write-ahead rule. When the cache is full and its least recently used page is changed and carries an LSN that is not
  yet durable, a successful \<^verbatim>\<open>read_page\<close> of another page writes that page to the file while the log is
  neither flushed nor told: the file is then newer than the durable log.\<close>

theorem eviction_bypasses_log:
  assumes "tinv (t, Some m, w)" "calm w" "tf_whole (t, Some m, w)" "i < t_page_count t"
    and "map_of (c_pages (t_cache t)) (make_key (t_path t) i) = None" "c_capacity (t_cache t) = length (c_pages (t_cache t))"
    and "c_lru (t_cache t) = recent @ [k]" "map_of (c_pages (t_cache t)) k = Some fr" "f_dirty fr" "durable_lsn m < page_lsn (f_page fr)"
  shows "\<exists>pg t' w'. read_page i (t, Some m, w) = (Some pg, t', Some m, w') \<and> \<not> lsn_durable (t_path t) m w'"
proof -
  let ?p = "t_path t" and ?c = "t_cache t" and ?s = "(t, Some m, w)"
  let ?cm = "?c\<lparr>c_misses := c_misses ?c + 1\<rparr>"
  have ci: "cinv recs_of (lexically_normal ?p) ?p (?c, Some m, w)" and u: "unpinned ?c" using assms(1) by (simp_all add: tinv_def tf_cinv_def)
  have pin: "f_pins fr = 0" using u assms(8) unfolding unpinned_def by blast
  obtain okw wmw w1 where wr: "write_frame (Some ?p) k fr (None, w) = (okw, wmw, w1)" by (cases "write_frame (Some ?p) k fr (None, w)")
  have wc: "okw" "wmw = None" using write_frame_calm [OF assms(2) wr] by simp_all
  have disk: "page_bytes w1 ?p (unat (snd k)) = f_page fr" using quiet_write_frame(2) [OF cinv_wm [OF ci] assms(8,9) wr wc(1)] .
  let ?cd = "?cm\<lparr>c_lru := rev (remove1 k (rev (c_lru ?cm))), c_pages := AList.delete k (c_pages ?cm)\<rparr>"
  have ev: "evict_one_page (Some ?p) (?cm, None, w) = (True, ?cd, None, w1)" using assms(7-9) pin wr wc by (simp add: evict_one_page_def)
  have "length (c_pages ?cd) < c_capacity ?cd" using length_delete_less [OF assms(8)] assms(6) by simp
  then have fit: "evict_to_fit (Some ?p) (?cm, None, w) = (True, ?cd, None, w1)"
    using ev assms(6) by (subst evict_to_fit.simps, subst evict_to_fit.simps) simp
  obtain okf c2 wm2 w2 where f: "fetch_page ?p i (Some ?p) (?c, None, w) = (okf, c2, wm2, w2)" by (cases "fetch_page ?p i (Some ?p) (?c, None, w)")
  obtain res w3 where rd: "read_page_from_disk (Some ?p) (make_key ?p i) w1 = (res, w3)" by (cases "read_page_from_disk (Some ?p) (make_key ?p i) w1")
  have "w2 = w3" using f fit assms(5) rd by (auto simp: fetch_page_def Let_def split: option.splits)
  then have d2: "page_bytes w2 ?p (unat (snd k)) = f_page fr" using disk read_page_result(1) [OF rd] by (metis page_bytes_cong same_data_contents)
  have cw: "calm (snd (snd ?s))" "i < t_page_count (fst ?s)" using assms(2,4) by simp_all
  obtain pg s' where r: "read_page i ?s = (Some pg, s')" by (rule read_page_calm [OF assms(1) cw(1) assms(3) cw(2)]) blast
  have "snd s' = (Some m, w2)" using r f assms(4) by (auto simp: read_page_def tf_fetch_def tf_unpin_def Let_def split: if_splits prod.splits)
  then have "read_page i ?s = (Some pg, fst s', Some m, w2)" using r by (cases s') simp
  moreover have "\<not> lsn_durable ?p m w2" using d2 assms(10) by (auto simp: lsn_durable_def not_le intro!: exI [of _ "unat (snd k)"])
  ultimately show ?thesis by blast
qed

text \<open>A table of 65 pages whose first 64 pages fill the cache, changed with LSN 5, before any flush of the log.\<close>

definition full_frame :: frame where
  "full_frame = \<lparr> f_page = set_page_lsn page_reset 5, f_dirty = True, f_pins = 0 \<rparr>"

definition full_cache :: cache where
  "full_cache = \<lparr> c_capacity = 64, c_lru = map (\<lambda>i. (''t'', of_nat i)) [0..<64], c_pages = map (\<lambda>i. ((''t'', of_nat i), full_frame)) [0..<64],
     c_hits = 0, c_misses = 0 \<rparr>"

definition full_table :: tstate where
  "full_table = (\<lparr> t_path = ''t'', t_open = True, t_page_count = 65, t_cache = full_cache, t_txn = 1 \<rparr>, Some empty_wal,
     \<lparr> w_files = [''t'' \<mapsto> replicate (64 * PAGE_SIZE) 0 @ page_reset], w_dirs = {}, w_synced = (\<lambda>_. 0), w_script = [] \<rparr>)"

lemma unat_small: "k < 65 \<Longrightarrow> unat (of_nat k :: u32) = k"
  by (simp add: unat_of_nat take_bit_nat_eq_self)

lemma full_cache_map: "map_of (c_pages full_cache) k = (if fst k = ''t'' \<and> unat (snd k) < 64 then Some full_frame else None)"
proof -
  have "map_of (map (\<lambda>i. ((''t'', of_nat i), full_frame)) [0..<n]) k = (if fst k = ''t'' \<and> unat (snd k) < n then Some full_frame else None)" if "n \<le> 64" for n
    using that
  proof (induction n)
    case (Suc n)
    have "unat (snd k) = n \<longleftrightarrow> snd k = of_nat n" using unat_small [of n] Suc.prems unat_key_eq [of "snd k" "of_nat n"] by simp
    then show ?case using Suc by (cases k) (auto simp: map_add_def less_Suc_eq split: option.splits)
  qed simp
  then show ?thesis by (simp add: full_cache_def)
qed

lemma full_cache_ok: "cache_ok full_cache"
proof -
  have inj: "inj_on (\<lambda>i. (''t'', of_nat i :: u32)) {0..<64}"
  proof (rule inj_onI)
    fix x y assume a: "x \<in> {0..<64}" "y \<in> {0..<64}" "(''t'', of_nat x :: u32) = (''t'', of_nat y)"
    then have "unat (of_nat x :: u32) = unat (of_nat y :: u32)" by simp
    then show "x = y" using unat_small [of x] unat_small [of y] a(1,2) by simp
  qed
  have "set (c_lru full_cache) = dom (map_of (c_pages full_cache))"
    by (simp add: full_cache_def dom_map_of_conv_image_fst image_image)
  moreover have "length (set_page_lsn page_reset 5) = PAGE_SIZE" using set_page_lsn_law [OF page_reset_law(1)] page_wf_length by blast
  ultimately show ?thesis using inj unfolding cache_ok_def by (simp add: full_cache_map) (simp add: full_cache_def full_frame_def distinct_map comp_def)
qed

lemma full_table_inv: "tinv full_table" "calm (snd (snd full_table))" "tf_whole full_table"
proof -
  let ?w = "\<lparr> w_files = [''t'' \<mapsto> replicate (64 * PAGE_SIZE) 0 @ page_reset], w_dirs = {}, w_synced = (\<lambda>_. 0), w_script = [] \<rparr>"
  have len: "length page_reset = PAGE_SIZE" using page_reset_law(1) by (rule page_wf_length)
  have wf: "page_wf (set_page_lsn page_reset 5)" using set_page_lsn_law [OF page_reset_law(1)] by blast
  have last: "page_bytes ?w ''t'' 64 = page_reset" using len by (intro nth_equalityI) (simp_all add: page_bytes_def byte_at_def contents_def nth_append PAGE_SIZE_def)
  have ci: "cinv recs_of (lexically_normal ''t'') ''t'' (full_cache, Some empty_wal, ?w)"
    by (rule cinvI) (auto simp: full_cache_ok full_cache_map full_frame_def empty_wal_def lexically_normal_def split: if_splits)
  have "tf_view full_table i \<noteq> None" if "i < 65" for i
  proof (cases "unat i < 64")
    case True
    then show ?thesis using wf by (simp add: tf_view_def full_table_def view_def full_cache_map make_key_def recs_of_def full_frame_def lexically_normal_def)
  next
    case False
    then have "unat i = 64" using that by (simp add: word_less_nat_alt)
    then show ?thesis using last page_reset_law(1) by (simp add: tf_view_def full_table_def view_def full_cache_map make_key_def recs_of_def)
  qed
  moreover have "tf_keys full_table" by (auto simp: tf_keys_def full_table_def full_cache_map word_less_nat_alt split: if_splits)
  moreover have "unpinned full_cache" by (simp add: unpinned_def full_cache_map full_frame_def)
  ultimately show "tinv full_table" using ci by (simp add: tinv_def tf_cinv_def full_table_def)
  show "calm (snd (snd full_table))" by (simp add: full_table_def calm_def)
  show "tf_whole full_table" using len by (simp add: tf_whole_def full_table_def contents_def)
qed

theorem eviction_bypasses_log_witness:
  "\<exists>pg t' w'. read_page 64 full_table = (Some pg, t', Some empty_wal, w') \<and> \<not> lsn_durable ''t'' empty_wal w'"
proof -
  obtain t w where ft: "full_table = (t, Some empty_wal, w)" "t_path t = ''t''" "t_page_count t = 65" "t_cache t = full_cache" by (simp add: full_table_def)
  note inv = full_table_inv [unfolded ft(1), simplified]
  have lru: "c_lru (t_cache t) = map (\<lambda>i. (''t'', of_nat i)) [0..<63] @ [(''t'', 63)]" by (simp add: ft full_cache_def upt_rec)
  have k: "map_of (c_pages (t_cache t)) (''t'', 63) = Some full_frame" "map_of (c_pages (t_cache t)) (make_key (t_path t) 64) = None"
    by (simp_all add: ft full_cache_map make_key_def)
  have l: "f_dirty full_frame" "durable_lsn empty_wal < page_lsn (f_page full_frame)"
    using set_page_lsn_law [OF page_reset_law(1), of 5] by (simp_all add: full_frame_def empty_wal_def)
  have c: "c_capacity (t_cache t) = length (c_pages (t_cache t))" "64 < t_page_count t" by (simp_all add: ft full_cache_def)
  show ?thesis using eviction_bypasses_log [OF inv c(2) k(2) c(1) lru k(1) l] by (simp add: ft)
qed

end
