(* ===== verification/Index_File.thy ===== *)
theory Index_File
  imports Page_Cache "HOL-Library.List_Lexorder" "HOL-Library.Product_Lexorder"
begin

text \<open>
  Index files, from \<^verbatim>\<open>src/src/storage/index_file.cpp\<close>: the sorted entries of an index in memory, and their
  copy on disk, a tree of pages that is rewritten as a whole after every change and searched by
  the lookups. Offsets inside a page never exceed the page size, so the casts to 16 bits
  in their computation are identities and offsets are naturals here.
\<close>

section \<open>State\<close>

type_synonym index_key = bytes
type_synonym entry = "index_key \<times> u32 \<times> u16"

definition INDEX_MAGIC :: u32 where "INDEX_MAGIC = 0x58444953"
definition INDEX_VERSION :: u16 where "INDEX_VERSION = 2"
definition PAGE_TYPE_HEADER :: u8 where "PAGE_TYPE_HEADER = 1"
definition PAGE_TYPE_LEAF :: u8 where "PAGE_TYPE_LEAF = 2"
definition PAGE_TYPE_INTERNAL :: u8 where "PAGE_TYPE_INTERNAL = 3"
definition NO_PAGE :: u32 where "NO_PAGE = 0xffffffff"
definition LEAF_HEADER_SIZE :: nat where "LEAF_HEADER_SIZE = 12"
definition ENTRY_HEADER_SIZE :: nat where "ENTRY_HEADER_SIZE = 8"
definition INTERNAL_HEADER_SIZE :: nat where "INTERNAL_HEADER_SIZE = 7"
definition INTERNAL_CHILD_HEADER_SIZE :: nat where "INTERNAL_CHILD_HEADER_SIZE = 6"

lemmas index_consts = LEAF_HEADER_SIZE_def ENTRY_HEADER_SIZE_def INTERNAL_HEADER_SIZE_def INTERNAL_CHILD_HEADER_SIZE_def PAGE_SIZE_def
  INDEX_VERSION_def PAGE_TYPE_HEADER_def PAGE_TYPE_LEAF_def PAGE_TYPE_INTERNAL_def

record page_summary =
  ps_page_id :: u32
  ps_first_key :: index_key

record index_file =
  ix_path :: string
  ix_txn :: u64
  ix_entries :: "entry list"
  ix_page_count :: u32
  ix_root :: u32
  ix_height :: u16

type_synonym istate = "index_file \<times> wal option \<times> world"

section \<open>Bytes\<close>

definition ix_write_uint16 :: "bytes \<Rightarrow> nat \<Rightarrow> u16 \<Rightarrow> bytes" where
  "ix_write_uint16 d p v = d[p := ucast (v AND 0xff), p + 1 := ucast (drop_bit 8 v AND 0xff)]"

definition ix_write_uint32 :: "bytes \<Rightarrow> nat \<Rightarrow> u32 \<Rightarrow> bytes" where
  "ix_write_uint32 d p v =
     d[p := ucast (v AND 0xff), p + 1 := ucast (drop_bit 8 v AND 0xff),
       p + 2 := ucast (drop_bit 16 v AND 0xff), p + 3 := ucast (drop_bit 24 v AND 0xff)]"

definition ix_read_uint16 :: "bytes \<Rightarrow> nat \<Rightarrow> u16" where
  "ix_read_uint16 d p = ucast (d ! p) OR push_bit 8 (ucast (d ! (p + 1)))"

definition ix_read_uint32 :: "bytes \<Rightarrow> nat \<Rightarrow> u32" where
  "ix_read_uint32 d p =
     ucast (d ! p) OR push_bit 8 (ucast (d ! (p + 1))) OR push_bit 16 (ucast (d ! (p + 2))) OR push_bit 24 (ucast (d ! (p + 3)))"

text \<open>Reading at the end of the file fills the rest with zero bytes.\<close>

function ix_read_loop :: "string \<Rightarrow> bytes \<Rightarrow> nat \<Rightarrow> nat \<Rightarrow> world \<Rightarrow> bytes option \<times> world" where
  "ix_read_loop p got n offset w =
     (if n = 0 then (Some got, w)
      else case next_outcome w of (r, w') \<Rightarrow>
        let avail = get_bytes (contents w' p) offset n in
        (case r of
           Io_all \<Rightarrow> if avail = [] then (Some (got @ replicate n 0), w') else ix_read_loop p (got @ avail) (n - length avail) (offset + length avail) w'
         | Io_short k \<Rightarrow>
             let part = take k avail in
             if part = [] then (Some (got @ replicate n 0), w') else ix_read_loop p (got @ part) (n - length part) (offset + length part) w'
         | Io_eintr \<Rightarrow> ix_read_loop p got n offset w'
         | Io_error \<Rightarrow> (None, w')))"
  by pat_completeness auto
termination
  by (relation "measure (\<lambda>(p, got, n, offset, w). n + length (w_script w))")
    (auto simp: Let_def min.coboundedI1 length_get_bytes_le dest: next_outcome_script(2) [OF sym] intro!: read_shrinks)

declare ix_read_loop.simps [simp del]

definition ix_full_read :: "string \<Rightarrow> u32 \<Rightarrow> world \<Rightarrow> bytes option \<times> world" where
  "ix_full_read p page_id w = ix_read_loop p [] PAGE_SIZE (unat page_id * PAGE_SIZE) w"

text \<open>The write loop is that of the page cache.\<close>

definition ix_full_write :: "string \<Rightarrow> u32 \<Rightarrow> bytes \<Rightarrow> world \<Rightarrow> bool \<times> world" where
  "ix_full_write p page_id data w = full_write p data (unat page_id * PAGE_SIZE) w"

section \<open>Entries and leaves\<close>

fun bytes_less :: "bytes \<Rightarrow> bytes \<Rightarrow> bool" where
  "bytes_less [] ys = (ys \<noteq> [])"
| "bytes_less (x # xs) [] = False"
| "bytes_less (x # xs) (y # ys) = (if x < y then True else if y < x then False else bytes_less xs ys)"

definition entry_less :: "entry \<Rightarrow> entry \<Rightarrow> bool" where
  "entry_less l r =
     (if fst l \<noteq> fst r then bytes_less (fst l) (fst r)
      else if fst (snd l) \<noteq> fst (snd r) then fst (snd l) < fst (snd r)
      else snd (snd l) < snd (snd r))"

definition same_entry :: "entry \<Rightarrow> entry \<Rightarrow> bool" where
  "same_entry l r \<longleftrightarrow> fst l = fst r \<and> fst (snd l) = fst (snd r) \<and> snd (snd l) = snd (snd r)"

definition entry_fits_empty_leaf :: "entry \<Rightarrow> bool" where
  "entry_fits_empty_leaf e \<longleftrightarrow> length (fst e) \<le> 65535 \<and> LEAF_HEADER_SIZE + ENTRY_HEADER_SIZE + length (fst e) \<le> PAGE_SIZE"

definition encoded_size :: "entry list \<Rightarrow> u16" where
  "encoded_size es =
     (let size = fold (\<lambda>e size. size + (of_nat ENTRY_HEADER_SIZE + of_nat (length (fst e)))) es (of_nat LEAF_HEADER_SIZE :: u32)
      in if size > 65535 then 65535 else ucast size)"

text \<open>\<open>leaves\<close> holds the finished leaves, \<open>leaf\<close> the last one.\<close>

fun split_leaf_loop :: "entry list list \<Rightarrow> entry list \<Rightarrow> entry list \<Rightarrow> entry list list" where
  "split_leaf_loop leaves leaf [] = leaves @ [leaf]"
| "split_leaf_loop leaves leaf (e # es) =
     (if \<not> entry_fits_empty_leaf e then []
      else if unat (encoded_size (leaf @ [e])) > PAGE_SIZE then split_leaf_loop (leaves @ [leaf]) [e] es
      else split_leaf_loop leaves (leaf @ [e]) es)"

definition split_leaf_entries :: "entry list \<Rightarrow> entry list list" where
  "split_leaf_entries es = split_leaf_loop [] [] es"

section \<open>Writing the pages\<close>

definition write_logged_page :: "u32 \<Rightarrow> bytes \<Rightarrow> istate \<Rightarrow> bool \<times> istate" where
  "write_logged_page page_id pg = (\<lambda>(ix, wm, w).
     if length pg \<noteq> PAGE_SIZE then (False, ix, wm, w)
     else case (case wm of
                  None \<Rightarrow> (True, None, w)
                | Some m \<Rightarrow>
                    (case ix_full_read (ix_path ix) page_id w of
                       (None, w) \<Rightarrow> (False, Some m, w)
                     | (Some before_page, w) \<Rightarrow>
                         (case log_page_update_raw (ix_txn ix) (ix_path ix) page_id before_page pg (m, w) of (lsn, m, w) \<Rightarrow>
                            if lsn = 0 then (False, Some m, w)
                            else case flush_through lsn (m, w) of (ok, m, w) \<Rightarrow> (ok, Some m, w)))) of
       (ok, wm, w) \<Rightarrow>
         if \<not> ok then (False, ix, wm, w)
         else case ix_full_write (ix_path ix) page_id pg w of (ok, w) \<Rightarrow> (ok, ix, wm, w))"

text \<open>The loop over the entries of a leaf page, from an offset.\<close>

fun put_entries :: "bytes \<Rightarrow> nat \<Rightarrow> entry list \<Rightarrow> bytes option" where
  "put_entries pg offset [] = Some pg"
| "put_entries pg offset ((key, pid, sid) # es) =
     (if length key > 65535 \<or> offset + ENTRY_HEADER_SIZE + length key > PAGE_SIZE then None
      else let pg = ix_write_uint16 pg offset (of_nat (length key));
               pg = ix_write_uint32 pg (offset + 2) pid;
               pg = ix_write_uint16 pg (offset + 6) sid
           in put_entries (put_bytes pg (offset + ENTRY_HEADER_SIZE) key) (offset + ENTRY_HEADER_SIZE + length key) es)"

definition leaf_page :: "u32 \<Rightarrow> entry list \<Rightarrow> bytes option" where
  "leaf_page next_page_id es =
     (let pg = replicate PAGE_SIZE 0;
          pg = ix_write_uint32 pg 0 INDEX_MAGIC;
          pg = pg[4 := PAGE_TYPE_LEAF];
          pg = ix_write_uint32 pg 5 next_page_id;
          pg = ix_write_uint16 pg 9 (of_nat (length es))
      in put_entries pg LEAF_HEADER_SIZE es)"

text \<open>The loop over the leaves from number \<open>i\<close> of \<open>n\<close>, with the summaries of the level.\<close>

fun write_leaves :: "nat \<Rightarrow> nat \<Rightarrow> entry list list \<Rightarrow> page_summary list \<Rightarrow> istate \<Rightarrow> page_summary list option \<times> istate" where
  "write_leaves n i [] level s = (Some level, s)"
| "write_leaves n i (leaf # leaves) level s =
     (let page_id = of_nat (i + 1); next_page_id = (if i + 1 \<ge> n then NO_PAGE else of_nat (i + 2)) in
      case leaf_page next_page_id leaf of
        None \<Rightarrow> (None, s)
      | Some pg \<Rightarrow>
          case write_logged_page page_id pg s of (ok, s) \<Rightarrow>
            if \<not> ok then (None, s)
            else write_leaves n (i + 1) leaves
                   (level @ [\<lparr> ps_page_id = page_id, ps_first_key = (case leaf of [] \<Rightarrow> [] | e # _ \<Rightarrow> fst e) \<rparr>]) s)"

fun put_children :: "bytes \<Rightarrow> nat \<Rightarrow> page_summary list \<Rightarrow> bytes option" where
  "put_children pg offset [] = Some pg"
| "put_children pg offset (c # cs) =
     (if length (ps_first_key c) > 65535 \<or> offset + INTERNAL_CHILD_HEADER_SIZE + length (ps_first_key c) > PAGE_SIZE then None
      else let pg = ix_write_uint32 pg offset (ps_page_id c);
               pg = ix_write_uint16 pg (offset + 4) (of_nat (length (ps_first_key c)))
           in put_children (put_bytes pg (offset + INTERNAL_CHILD_HEADER_SIZE) (ps_first_key c))
                (offset + INTERNAL_CHILD_HEADER_SIZE + length (ps_first_key c)) cs)"

definition internal_page :: "page_summary list \<Rightarrow> bytes option" where
  "internal_page children =
     (let pg = replicate PAGE_SIZE 0;
          pg = ix_write_uint32 pg 0 INDEX_MAGIC;
          pg = pg[4 := PAGE_TYPE_INTERNAL];
          pg = ix_write_uint16 pg 5 (of_nat (length children))
      in put_children pg INTERNAL_HEADER_SIZE children)"

text \<open>\<open>flush_internal\<close>: the summary of the written page, if there were children.\<close>

definition flush_internal :: "page_summary list \<Rightarrow> u32 \<Rightarrow> istate \<Rightarrow> (page_summary list \<times> u32) option \<times> istate" where
  "flush_internal children next_page_id s =
     (if children = [] then (Some ([], next_page_id), s)
      else case internal_page children of
        None \<Rightarrow> (None, s)
      | Some pg \<Rightarrow>
          case write_logged_page next_page_id pg s of (ok, s) \<Rightarrow>
            if \<not> ok then (None, s)
            else (Some ([\<lparr> ps_page_id = next_page_id, ps_first_key = ps_first_key (hd children) \<rparr>], next_page_id + 1), s))"

definition children_size :: "page_summary list \<Rightarrow> u32" where
  "children_size cs = fold (\<lambda>c size. size + (of_nat INTERNAL_CHILD_HEADER_SIZE + of_nat (length (ps_first_key c)))) cs (of_nat INTERNAL_HEADER_SIZE)"

text \<open>One level of internal pages: the rest of the level below, the collected children and the new level.\<close>

fun write_level :: "page_summary list \<Rightarrow> page_summary list \<Rightarrow> page_summary list \<Rightarrow> u32 \<Rightarrow> istate \<Rightarrow>
    (page_summary list \<times> u32) option \<times> istate" where
  "write_level [] children next_level next_page_id s =
     (case flush_internal children next_page_id s of
        (None, s) \<Rightarrow> (None, s)
      | (Some (new, next_page_id), s) \<Rightarrow> (Some (next_level @ new, next_page_id), s))"
| "write_level (c # cs) children next_level next_page_id s =
     (if unat (children_size (children @ [c])) > PAGE_SIZE then
        (case flush_internal children next_page_id s of
           (None, s) \<Rightarrow> (None, s)
         | (Some (new, next_page_id), s) \<Rightarrow> write_level cs [c] (next_level @ new) next_page_id s)
      else write_level cs (children @ [c]) next_level next_page_id s)"

text \<open>
  The loop over the levels. With long keys it need not end: \<open>fuel\<close> bounds the number of levels, \<open>None\<close> is
  a loop still running, \<open>Some None\<close> the early return of \<^verbatim>\<open>false\<close>.
\<close>

fun write_levels :: "nat \<Rightarrow> page_summary list \<Rightarrow> u32 \<Rightarrow> u16 \<Rightarrow> istate \<Rightarrow>
    ((page_summary \<times> u32 \<times> u16) option \<times> istate) option" where
  "write_levels fuel level next_page_id height s =
     (if length level \<le> 1 then Some (Some (hd level, next_page_id, height), s)
      else case fuel of
        0 \<Rightarrow> None
      | Suc fuel \<Rightarrow>
          case write_level level [] [] next_page_id s of
            (None, s) \<Rightarrow> Some (None, s)
          | (Some (next_level, next_page_id), s) \<Rightarrow> write_levels fuel next_level next_page_id (height + 1) s)"

declare write_levels.simps [simp del]

definition header_page :: "u32 \<Rightarrow> u32 \<Rightarrow> u16 \<Rightarrow> bytes" where
  "header_page root_page_id page_count tree_height =
     (let pg = replicate PAGE_SIZE 0;
          pg = ix_write_uint32 pg 0 INDEX_MAGIC;
          pg = pg[4 := PAGE_TYPE_HEADER];
          pg = ix_write_uint16 pg 5 INDEX_VERSION;
          pg = ix_write_uint32 pg 7 root_page_id;
          pg = ix_write_uint32 pg 11 page_count
      in ix_write_uint16 pg 15 tree_height)"

definition write_pages :: "nat \<Rightarrow> istate \<Rightarrow> (bool \<times> istate) option" where
  "write_pages fuel s =
     (let leaves = split_leaf_entries (ix_entries (fst s)) in
      if leaves = [] then Some (False, s)
      else case write_leaves (length leaves) 0 leaves [] s of
        (None, s) \<Rightarrow> Some (False, s)
      | (Some level, s) \<Rightarrow>
          case write_levels fuel level (of_nat (length leaves + 1)) 1 s of
            None \<Rightarrow> None
          | Some (None, s) \<Rightarrow> Some (False, s)
          | Some (Some (root, next_page_id, height), ix, s) \<Rightarrow>
              let ix = ix\<lparr>ix_root := ps_page_id root, ix_page_count := next_page_id, ix_height := height\<rparr> in
              Some (write_logged_page 0 (header_page (ix_root ix) (ix_page_count ix) (ix_height ix)) (ix, s)))"

section \<open>Reading the pages\<close>

text \<open>The loop of \<^verbatim>\<open>load\<close> over the entries of one leaf page; \<open>None\<close> is the early return of \<^verbatim>\<open>false\<close>.\<close>

fun load_entries :: "bytes \<Rightarrow> nat \<Rightarrow> nat \<Rightarrow> entry list \<Rightarrow> entry list option" where
  "load_entries pg 0 offset es = Some es"
| "load_entries pg (Suc n) offset es =
     (if offset + ENTRY_HEADER_SIZE > PAGE_SIZE then None
      else let key_size = unat (ix_read_uint16 pg offset);
               pid = ix_read_uint32 pg (offset + 2);
               sid = ix_read_uint16 pg (offset + 6);
               offset = offset + ENTRY_HEADER_SIZE
           in if offset + key_size > PAGE_SIZE then None
              else load_entries pg n (offset + key_size) (es @ [(get_bytes pg offset key_size, pid, sid)]))"

text \<open>
  The loop of \<^verbatim>\<open>load\<close> over the chain of leaves. In a damaged file the chain can be a cycle: \<open>fuel\<close> bounds the number of pages
  and \<open>None\<close> is a loop still running.
\<close>

fun load_leaves :: "nat \<Rightarrow> string \<Rightarrow> u32 \<Rightarrow> u32 \<Rightarrow> entry list \<Rightarrow> world \<Rightarrow> (entry list option \<times> world) option" where
  "load_leaves fuel p page_count page_id es w =
     (if page_id = NO_PAGE then Some (Some es, w)
      else case fuel of
        0 \<Rightarrow> None
      | Suc fuel \<Rightarrow>
          if page_id \<ge> page_count then Some (None, w)
          else case ix_full_read p page_id w of
            (None, w) \<Rightarrow> Some (None, w)
          | (Some pg, w) \<Rightarrow>
              if ix_read_uint32 pg 0 \<noteq> INDEX_MAGIC then Some (None, w)
              else if pg ! 4 \<noteq> PAGE_TYPE_LEAF then load_leaves fuel p page_count (page_id + 1) es w
              else case load_entries pg (unat (ix_read_uint16 pg 9)) LEAF_HEADER_SIZE es of
                None \<Rightarrow> Some (None, w)
              | Some es \<Rightarrow> load_leaves fuel p page_count (ix_read_uint32 pg 5) es w)"

declare load_leaves.simps [simp del]

text \<open>\<^verbatim>\<open>load\<close>; the constructor gives up the object when it returns \<^verbatim>\<open>false\<close>.\<close>

definition load :: "nat \<Rightarrow> istate \<Rightarrow> (bool \<times> istate) option" where
  "load fuel = (\<lambda>(ix, wm, w).
     case ix_full_read (ix_path ix) 0 w of
       (None, w) \<Rightarrow> Some (False, ix, wm, w)
     | (Some pg, w) \<Rightarrow>
         if ix_read_uint32 pg 0 = 0 then write_pages fuel (ix\<lparr>ix_page_count := 2\<rparr>, wm, w)
         else if ix_read_uint32 pg 0 \<noteq> INDEX_MAGIC \<or> pg ! 4 \<noteq> PAGE_TYPE_HEADER then Some (False, ix, wm, w)
         else if ix_read_uint16 pg 5 \<noteq> INDEX_VERSION then Some (False, ix, wm, w)
         else let ix = ix\<lparr>ix_root := ix_read_uint32 pg 7, ix_page_count := ix_read_uint32 pg 11, ix_height := ix_read_uint16 pg 15\<rparr>
              in if ix_root ix = NO_PAGE \<or> ix_page_count ix < 2 \<or> ix_height ix = 0 then Some (False, ix, wm, w)
                 else case load_leaves fuel (ix_path ix) (ix_page_count ix) 1 [] w of
                   None \<Rightarrow> None
                 | Some (None, w) \<Rightarrow> Some (False, ix, wm, w)
                 | Some (Some es, w) \<Rightarrow> Some (True, ix\<lparr>ix_entries := sort es\<rparr>, wm, w))"

text \<open>\<^verbatim>\<open>find_leaf_page\<close>: the choice of a child from child number \<open>i\<close> on; \<open>None\<close> is the early return of \<^verbatim>\<open>NO_PAGE\<close>.\<close>

fun select_child :: "bytes \<Rightarrow> index_key \<Rightarrow> nat \<Rightarrow> nat \<Rightarrow> nat \<Rightarrow> u32 \<Rightarrow> u32 option" where
  "select_child pg key i 0 offset selected = Some selected"
| "select_child pg key i (Suc n) offset selected =
     (if offset + INTERNAL_CHILD_HEADER_SIZE > PAGE_SIZE then None
      else let child_page_id = ix_read_uint32 pg offset;
               key_size = unat (ix_read_uint16 pg (offset + 4));
               offset = offset + INTERNAL_CHILD_HEADER_SIZE
           in if offset + key_size > PAGE_SIZE then None
              else let separator_key = get_bytes pg offset key_size
                   in if i = 0 \<or> \<not> bytes_less key separator_key
                      then select_child pg key (i + 1) n (offset + key_size) child_page_id
                      else Some selected)"

fun find_leaf_page :: "nat \<Rightarrow> string \<Rightarrow> u32 \<Rightarrow> index_key \<Rightarrow> u32 \<Rightarrow> world \<Rightarrow> (u32 \<times> world) option" where
  "find_leaf_page fuel p page_count key page_id w =
     (if page_id = NO_PAGE then Some (NO_PAGE, w)
      else case fuel of
        0 \<Rightarrow> None
      | Suc fuel \<Rightarrow>
          if page_id \<ge> page_count then Some (NO_PAGE, w)
          else case ix_full_read p page_id w of
            (None, w) \<Rightarrow> Some (NO_PAGE, w)
          | (Some pg, w) \<Rightarrow>
              if ix_read_uint32 pg 0 \<noteq> INDEX_MAGIC then Some (NO_PAGE, w)
              else if pg ! 4 = PAGE_TYPE_LEAF then Some (page_id, w)
              else if pg ! 4 \<noteq> PAGE_TYPE_INTERNAL then Some (NO_PAGE, w)
              else if ix_read_uint16 pg 5 = 0 then Some (NO_PAGE, w)
              else case select_child pg key 0 (unat (ix_read_uint16 pg 5)) INTERNAL_HEADER_SIZE NO_PAGE of
                None \<Rightarrow> Some (NO_PAGE, w)
              | Some child \<Rightarrow> find_leaf_page fuel p page_count key child w)"

declare find_leaf_page.simps [simp del]

text \<open>How the loop over the entries of a leaf ends: with one of the two early returns, or at the end of the leaf.\<close>

datatype scan = Scan_fail | Scan_return "(u32 \<times> u16) list" | Scan_end "(u32 \<times> u16) list" bool

fun find_in_leaf :: "bytes \<Rightarrow> index_key \<Rightarrow> nat \<Rightarrow> nat \<Rightarrow> (u32 \<times> u16) list \<Rightarrow> bool \<Rightarrow> scan" where
  "find_in_leaf pg key 0 offset result maybe_next_leaf = Scan_end result maybe_next_leaf"
| "find_in_leaf pg key (Suc n) offset result maybe_next_leaf =
     (if offset + ENTRY_HEADER_SIZE > PAGE_SIZE then Scan_fail
      else let key_size = unat (ix_read_uint16 pg offset);
               record_id = (ix_read_uint32 pg (offset + 2), ix_read_uint16 pg (offset + 6));
               offset = offset + ENTRY_HEADER_SIZE
           in if offset + key_size > PAGE_SIZE then Scan_fail
              else let entry_key = get_bytes pg offset key_size
                   in if entry_key = key then find_in_leaf pg key n (offset + key_size) (result @ [record_id]) True
                      else if bytes_less key entry_key then Scan_return result
                      else find_in_leaf pg key n (offset + key_size) result maybe_next_leaf)"

fun find_leaves :: "nat \<Rightarrow> string \<Rightarrow> index_key \<Rightarrow> u32 \<Rightarrow> (u32 \<times> u16) list \<Rightarrow> world \<Rightarrow> ((u32 \<times> u16) list \<times> world) option" where
  "find_leaves fuel p key page_id result w =
     (if page_id = NO_PAGE then Some (result, w)
      else case fuel of
        0 \<Rightarrow> None
      | Suc fuel \<Rightarrow>
          case ix_full_read p page_id w of
            (None, w) \<Rightarrow> Some ([], w)
          | (Some pg, w) \<Rightarrow>
              if ix_read_uint32 pg 0 \<noteq> INDEX_MAGIC \<or> pg ! 4 \<noteq> PAGE_TYPE_LEAF then Some ([], w)
              else case find_in_leaf pg key (unat (ix_read_uint16 pg 9)) LEAF_HEADER_SIZE result False of
                Scan_fail \<Rightarrow> Some ([], w)
              | Scan_return result \<Rightarrow> Some (result, w)
              | Scan_end result maybe_next_leaf \<Rightarrow>
                  if \<not> maybe_next_leaf then Some (result, w)
                  else find_leaves fuel p key (ix_read_uint32 pg 5) result w)"

declare find_leaves.simps [simp del]

definition find_from_pages :: "nat \<Rightarrow> index_key \<Rightarrow> index_file \<Rightarrow> world \<Rightarrow> ((u32 \<times> u16) list \<times> world) option" where
  "find_from_pages fuel key ix w =
     (case find_leaf_page fuel (ix_path ix) (ix_page_count ix) key (ix_root ix) w of
        None \<Rightarrow> None
      | Some (page_id, w) \<Rightarrow> find_leaves fuel (ix_path ix) key page_id [] w)"

definition below_lower :: "index_key option \<Rightarrow> bool \<Rightarrow> index_key \<Rightarrow> bool" where
  "below_lower lower_key include_lower k =
     (case lower_key of None \<Rightarrow> False | Some l \<Rightarrow> bytes_less k l \<or> (\<not> include_lower \<and> k = l))"

definition above_upper :: "index_key option \<Rightarrow> bool \<Rightarrow> index_key \<Rightarrow> bool" where
  "above_upper upper_key include_upper k =
     (case upper_key of None \<Rightarrow> False | Some u \<Rightarrow> bytes_less u k \<or> (\<not> include_upper \<and> k = u))"

fun range_in_leaf :: "bytes \<Rightarrow> (index_key \<Rightarrow> bool) \<Rightarrow> (index_key \<Rightarrow> bool) \<Rightarrow> nat \<Rightarrow> nat \<Rightarrow> (u32 \<times> u16) list \<Rightarrow> scan" where
  "range_in_leaf pg too_low too_high 0 offset result = Scan_end result True"
| "range_in_leaf pg too_low too_high (Suc n) offset result =
     (if offset + ENTRY_HEADER_SIZE > PAGE_SIZE then Scan_fail
      else let key_size = unat (ix_read_uint16 pg offset);
               record_id = (ix_read_uint32 pg (offset + 2), ix_read_uint16 pg (offset + 6));
               offset = offset + ENTRY_HEADER_SIZE
           in if offset + key_size > PAGE_SIZE then Scan_fail
              else let entry_key = get_bytes pg offset key_size; offset = offset + key_size
                   in if too_low entry_key then range_in_leaf pg too_low too_high n offset result
                      else if too_high entry_key then Scan_return result
                      else range_in_leaf pg too_low too_high n offset (result @ [record_id]))"

fun range_leaves :: "nat \<Rightarrow> string \<Rightarrow> (index_key \<Rightarrow> bool) \<Rightarrow> (index_key \<Rightarrow> bool) \<Rightarrow> u32 \<Rightarrow> (u32 \<times> u16) list \<Rightarrow> world \<Rightarrow>
    ((u32 \<times> u16) list \<times> world) option" where
  "range_leaves fuel p too_low too_high page_id result w =
     (if page_id = NO_PAGE then Some (result, w)
      else case fuel of
        0 \<Rightarrow> None
      | Suc fuel \<Rightarrow>
          case ix_full_read p page_id w of
            (None, w) \<Rightarrow> Some ([], w)
          | (Some pg, w) \<Rightarrow>
              if ix_read_uint32 pg 0 \<noteq> INDEX_MAGIC \<or> pg ! 4 \<noteq> PAGE_TYPE_LEAF then Some ([], w)
              else case range_in_leaf pg too_low too_high (unat (ix_read_uint16 pg 9)) LEAF_HEADER_SIZE result of
                Scan_fail \<Rightarrow> Some ([], w)
              | Scan_return result \<Rightarrow> Some (result, w)
              | Scan_end result _ \<Rightarrow> range_leaves fuel p too_low too_high (ix_read_uint32 pg 5) result w)"

declare range_leaves.simps [simp del]

definition find_range_from_pages :: "nat \<Rightarrow> index_key option \<Rightarrow> bool \<Rightarrow> index_key option \<Rightarrow> bool \<Rightarrow> index_file \<Rightarrow> world \<Rightarrow>
    ((u32 \<times> u16) list \<times> world) option" where
  "find_range_from_pages fuel lower_key include_lower upper_key include_upper ix w =
     (case (case lower_key of
              None \<Rightarrow> Some (1, w)
            | Some l \<Rightarrow> find_leaf_page fuel (ix_path ix) (ix_page_count ix) l (ix_root ix) w) of
        None \<Rightarrow> None
      | Some (page_id, w) \<Rightarrow>
          range_leaves fuel (ix_path ix) (below_lower lower_key include_lower) (above_upper upper_key include_upper) page_id [] w)"

section \<open>The operations\<close>

definition ix_flush :: "nat \<Rightarrow> istate \<Rightarrow> (bool \<times> istate) option" where
  "ix_flush fuel s = write_pages fuel s"

text \<open>The constructor: an error message or the open file.\<close>

definition ix_new :: "nat \<Rightarrow> string \<Rightarrow> u64 \<Rightarrow> wal option \<Rightarrow> world \<Rightarrow> (string + istate) option" where
  "ix_new fuel p txn wm w =
     (case open_create p w of (ok, w) \<Rightarrow>
        if \<not> ok then Some (Inl ''could not open index file'')
        else case load fuel (\<lparr>ix_path = p, ix_txn = txn, ix_entries = [], ix_page_count = 2, ix_root = 1, ix_height = 1\<rparr>, wm, w) of
          None \<Rightarrow> None
        | Some (ok, s) \<Rightarrow> Some (if ok then Inr s else Inl ''could not load index file''))"

definition ix_close :: "nat \<Rightarrow> istate \<Rightarrow> istate option" where
  "ix_close fuel s = map_option snd (ix_flush fuel s)"

text \<open>\<^verbatim>\<open>std::lower_bound\<close> on a sorted vector: the number of entries before the given one.\<close>

definition ix_lower_bound :: "entry list \<Rightarrow> entry \<Rightarrow> nat" where
  "ix_lower_bound es e = length (takeWhile (\<lambda>x. entry_less x e) es)"

definition ix_insert :: "nat \<Rightarrow> index_key \<Rightarrow> u32 \<times> u16 \<Rightarrow> bool \<Rightarrow> istate \<Rightarrow> (bool \<times> istate) option" where
  "ix_insert fuel key record_id unique = (\<lambda>(ix, s).
     let entry = (key, record_id); es = ix_entries ix in
     if \<not> entry_fits_empty_leaf entry then Some (False, ix, s)
     else let position = ix_lower_bound es entry; duplicate = ix_lower_bound es (key, 0, 0) in
       if unique \<and> duplicate < length es \<and> fst (es ! duplicate) = key then Some (False, ix, s)
       else if position < length es \<and> same_entry (es ! position) entry then Some (True, ix, s)
       else ix_flush fuel (ix\<lparr>ix_entries := take position es @ entry # drop position es\<rparr>, s))"

definition ix_remove :: "nat \<Rightarrow> index_key \<Rightarrow> u32 \<times> u16 \<Rightarrow> istate \<Rightarrow> (bool \<times> istate) option" where
  "ix_remove fuel key record_id = (\<lambda>(ix, s).
     let entry = (key, record_id); es = ix_entries ix; position = ix_lower_bound es entry in
     if position = length es \<or> \<not> same_entry (es ! position) entry then Some (True, ix, s)
     else ix_flush fuel (ix\<lparr>ix_entries := take position es @ drop (position + 1) es\<rparr>, s))"

definition ix_reset :: "nat \<Rightarrow> istate \<Rightarrow> (bool \<times> istate) option" where
  "ix_reset fuel = (\<lambda>(ix, s).
     ix_flush fuel (ix\<lparr>ix_entries := [], ix_page_count := 2, ix_root := 1, ix_height := 1\<rparr>, s))"

definition ix_find :: "nat \<Rightarrow> index_key \<Rightarrow> index_file \<Rightarrow> world \<Rightarrow> ((u32 \<times> u16) list \<times> world) option" where
  "ix_find fuel key ix w = find_from_pages fuel key ix w"

definition ix_find_range :: "nat \<Rightarrow> index_key option \<Rightarrow> bool \<Rightarrow> index_key option \<Rightarrow> bool \<Rightarrow> index_file \<Rightarrow> world \<Rightarrow>
    ((u32 \<times> u16) list \<times> world) option" where
  "ix_find_range fuel lower_key include_lower upper_key include_upper ix w =
     find_range_from_pages fuel lower_key include_lower upper_key include_upper ix w"

definition ix_sync :: "istate \<Rightarrow> bool \<times> istate" where
  "ix_sync = (\<lambda>(ix, wm, w).
     case next_outcome w of (r, w) \<Rightarrow>
       if r = Io_error \<or> r = Io_eintr then (False, ix, wm, w)
       else (True, ix, wm, w\<lparr>w_synced := (w_synced w)(ix_path ix := length (contents w (ix_path ix)))\<rparr>))"

end
