(* ===== verification/Index_Pages.thy ===== *)
theory Index_Pages
  imports Index_File
begin

text \<open>
  The pages of an index file read back: the order of the entries, the split into leaves, the bytes of leaf and
  internal pages, and what the loops over one page return for the pages that the writer makes.
\<close>

section \<open>Order\<close>

lemma bytes_less_iff [simp]: "bytes_less xs ys \<longleftrightarrow> xs < ys"
proof (induction xs ys rule: bytes_less.induct)
  case (1 ys) then show ?case by (cases ys) simp_all
qed auto

lemma entry_less_iff [simp]: "entry_less l r \<longleftrightarrow> l < r"
  by (cases l; cases r) (auto simp: entry_less_def less_prod_def)

lemma same_entry_iff [simp]: "same_entry l r \<longleftrightarrow> l = r"
  by (cases l; cases r) (auto simp: same_entry_def)

section \<open>Splitting into leaves\<close>

definition leaf_size :: "entry list \<Rightarrow> nat" where
  "leaf_size es = LEAF_HEADER_SIZE + sum_list (map (\<lambda>e. ENTRY_HEADER_SIZE + length (fst e)) es)"

lemma leaf_size_append [simp]:
  "leaf_size (es @ [e]) = leaf_size es + (ENTRY_HEADER_SIZE + length (fst e))" "leaf_size [] = LEAF_HEADER_SIZE"
  "leaf_size [e] = LEAF_HEADER_SIZE + (ENTRY_HEADER_SIZE + length (fst e))"
  by (simp_all add: leaf_size_def)

lemma encoded_fold:
  "fold (\<lambda>e size. size + (of_nat ENTRY_HEADER_SIZE + of_nat (length (fst e)))) es (of_nat n :: u32) =
    of_nat (n + sum_list (map (\<lambda>e. ENTRY_HEADER_SIZE + length (fst e)) es))" for es :: "entry list"
proof (induction es arbitrary: n)
  case (Cons e es)
  have "of_nat n + (of_nat ENTRY_HEADER_SIZE + of_nat (length (fst e))) = (of_nat (n + (ENTRY_HEADER_SIZE + length (fst e))) :: u32)" by simp
  then show ?case using Cons [of "n + (ENTRY_HEADER_SIZE + length (fst e))"] by (simp only: fold_simps list.map sum_list.Cons add.assoc)
qed simp

lemma encoded_size_unat: "leaf_size es < 65536 \<Longrightarrow> unat (encoded_size es) = leaf_size es"
proof -
  assume l: "leaf_size es < 65536"
  have u: "unat (of_nat (leaf_size es) :: u32) = leaf_size es" using l by (simp add: unat_of_nat take_bit_nat_eq_self_iff)
  have "\<not> (of_nat (leaf_size es) :: u32) > 65535" using l u by (simp add: word_less_nat_alt)
  moreover have "unat (ucast (of_nat (leaf_size es) :: u32) :: u16) = leaf_size es"
    using l by (simp add: unsigned_ucast_eq unsigned_of_nat take_bit_nat_eq_self)
  ultimately show ?thesis unfolding encoded_size_def Let_def encoded_fold leaf_size_def [symmetric] by simp
qed

lemma split_leaf_loop_ok:
  assumes "\<forall>e\<in>set es. entry_fits_empty_leaf e" "leaf_size leaf \<le> PAGE_SIZE" "leaf = [] \<longrightarrow> leaves = []"
  shows "concat (split_leaf_loop leaves leaf es) = concat leaves @ leaf @ es \<and>
    split_leaf_loop leaves leaf es \<noteq> [] \<and>
    (\<forall>l\<in>set (split_leaf_loop leaves leaf es). l \<in> set leaves \<or> leaf_size l \<le> PAGE_SIZE \<and> (l \<noteq> [] \<or> leaf = [] \<and> es = []))"
  using assms
proof (induction leaves leaf es rule: split_leaf_loop.induct)
  case (2 leaves leaf e es)
  have fit: "entry_fits_empty_leaf e" using 2 by simp
  then have se: "leaf_size (leaf @ [e]) < 65536" using 2(4) by (simp add: entry_fits_empty_leaf_def index_consts)
  show ?case
  proof (cases "unat (encoded_size (leaf @ [e])) > PAGE_SIZE")
    case True
    then have big: "leaf_size (leaf @ [e]) > PAGE_SIZE" using encoded_size_unat [OF se] by simp
    have ne: "leaf \<noteq> []" using big fit by (auto simp: entry_fits_empty_leaf_def index_consts)
    have "leaf_size [e] \<le> PAGE_SIZE" using fit by (simp add: entry_fits_empty_leaf_def index_consts)
    then show ?thesis using 2(1) True fit ne 2(3-5) by auto
  next
    case False
    then have "leaf_size (leaf @ [e]) \<le> PAGE_SIZE" using encoded_size_unat [OF se] by simp
    then show ?thesis using 2(2) False fit 2(3-5) by auto
  qed
qed (auto)

definition leaves_ok :: "entry list list \<Rightarrow> entry list \<Rightarrow> bool" where
  "leaves_ok ls es \<longleftrightarrow> concat ls = es \<and> ls \<noteq> [] \<and> (\<forall>l\<in>set ls. leaf_size l \<le> PAGE_SIZE) \<and> (es \<noteq> [] \<longrightarrow> [] \<notin> set ls) \<and> (es = [] \<longrightarrow> ls = [[]])"

lemma split_leaf_entries_ok:
  assumes "\<forall>e\<in>set es. entry_fits_empty_leaf e"
  shows "leaves_ok (split_leaf_entries es) es"
  using split_leaf_loop_ok [of es "[]" "[]"] assms
  by (auto simp: split_leaf_entries_def leaves_ok_def index_consts)

lemma split_leaf_entries_bad:
  assumes "\<exists>e\<in>set es. \<not> entry_fits_empty_leaf e"
  shows "split_leaf_entries es = []"
proof -
  have "split_leaf_loop leaves leaf es = []" for leaves leaf
    using assms by (induction leaves leaf es rule: split_leaf_loop.induct) auto
  then show ?thesis by (simp add: split_leaf_entries_def)
qed

section \<open>The bytes of a page\<close>

lemma list_update_4_put_bytes:
  "p + 3 < length d \<Longrightarrow> d[p := a, p + 1 := b, p + 2 := c, p + 3 := e] = put_bytes d p [a, b, c, e]"
  by (intro nth_equalityI)
    (auto simp: nth_put_bytes nth_list_update nth_Cons' numeral_2_eq_2 numeral_3_eq_3 split: if_splits)

lemma le_bytes_4: "le_bytes 4 v = [ucast (v AND 0xff), ucast (drop_bit 8 v AND 0xff), ucast (drop_bit 16 v AND 0xff), ucast (drop_bit 24 v AND 0xff)]"
  by (simp add: le_bytes_def upt_rec)

lemma le_read_4: "le_read 4 d p = (ucast (d ! p) OR push_bit 8 (ucast (d ! (p + 1))) OR push_bit 16 (ucast (d ! (p + 2))) OR push_bit 24 (ucast (d ! (p + 3))) :: 'a::len word)"
  by (simp add: le_read_def upt_rec add_Suc_right [symmetric] numeral_3_eq_3 or.assoc)

lemma ix_write_put:
  "p + 2 \<le> length d \<Longrightarrow> ix_write_uint16 d p v2 = put_bytes d p (le_bytes 2 v2)"
  "p + 4 \<le> length d \<Longrightarrow> ix_write_uint32 d p v4 = put_bytes d p (le_bytes 4 v4)"
proof -
  show "ix_write_uint16 d p v2 = put_bytes d p (le_bytes 2 v2)" if "p + 2 \<le> length d"
    using that by (simp add: ix_write_uint16_def le_bytes_2 list_update_2_put_bytes)
  show "ix_write_uint32 d p v4 = put_bytes d p (le_bytes 4 v4)" if "p + 4 \<le> length d"
    unfolding ix_write_uint32_def le_bytes_4 by (rule list_update_4_put_bytes) (use that in simp)
qed

lemma ix_read_le: "ix_read_uint16 d p = le_read 2 d p" "ix_read_uint32 d p = le_read 4 d p"
  by (simp_all add: ix_read_uint16_def ix_read_uint32_def le_read_2 le_read_4)

definition enc_entry :: "entry \<Rightarrow> bytes" where
  "enc_entry e = le_bytes 2 (of_nat (length (fst e)) :: u16) @ le_bytes 4 (fst (snd e)) @ le_bytes 2 (snd (snd e)) @ fst e"

definition enc_child :: "page_summary \<Rightarrow> bytes" where
  "enc_child c = le_bytes 4 (ps_page_id c) @ le_bytes 2 (of_nat (length (ps_first_key c)) :: u16) @ ps_first_key c"

lemma length_enc [simp]: "length (enc_entry e) = 8 + length (fst e)" "length (enc_child c) = 6 + length (ps_first_key c)"
  by (simp_all add: enc_entry_def enc_child_def)

text \<open>A block of bytes inside a page.\<close>

definition block_at :: "bytes \<Rightarrow> nat \<Rightarrow> bytes \<Rightarrow> bool" where
  "block_at pg off bs \<longleftrightarrow> length pg = PAGE_SIZE \<and> off + length bs \<le> PAGE_SIZE \<and> get_bytes pg off (length bs) = bs"

lemma block_at_append: "block_at pg off (a @ b) \<longleftrightarrow> block_at pg off a \<and> block_at pg (off + length a) b"
proof
  assume l: "block_at pg off (a @ b)"
  then show "block_at pg off a \<and> block_at pg (off + length a) b"
    using get_bytes_split [of pg off "length a" "length b" a b] by (simp add: block_at_def)
next
  assume r: "block_at pg off a \<and> block_at pg (off + length a) b"
  have "get_bytes pg off (length a + length b) = get_bytes pg off (length a) @ get_bytes pg (off + length a) (length b)"
    by (simp add: get_bytes_def take_add add.commute)
  then show "block_at pg off (a @ b)" using r by (simp add: block_at_def)
qed

lemma block_at_read:
  "block_at pg off (le_bytes 2 (v2 :: u16)) \<Longrightarrow> ix_read_uint16 pg off = v2"
  "block_at pg off (le_bytes 4 (v4 :: u32)) \<Longrightarrow> ix_read_uint32 pg off = v4"
  by (simp_all add: block_at_def ix_read_le le_read_block)

lemma block_at_put:
  "length pg = PAGE_SIZE \<Longrightarrow> off + length bs \<le> PAGE_SIZE \<Longrightarrow> block_at (put_bytes pg off bs) off bs"
  "length pg = PAGE_SIZE \<Longrightarrow> off + length bs \<le> PAGE_SIZE \<Longrightarrow> q + length cs \<le> off \<or> off + length bs \<le> q \<Longrightarrow>
     block_at (put_bytes pg off bs) q cs = block_at pg q cs"
proof -
  show "block_at (put_bytes pg off bs) off bs" if "length pg = PAGE_SIZE" "off + length bs \<le> PAGE_SIZE"
    using that by (simp add: block_at_def)
  show "block_at (put_bytes pg off bs) q cs = block_at pg q cs"
    if "length pg = PAGE_SIZE" "off + length bs \<le> PAGE_SIZE" "q + length cs \<le> off \<or> off + length bs \<le> q"
    using that get_put_other [of off bs pg q "length cs"] by (auto simp: block_at_def)
qed

lemma block_at_1: "block_at pg off [x] \<longleftrightarrow> length pg = PAGE_SIZE \<and> off < PAGE_SIZE \<and> pg ! off = x"
  by (auto simp: block_at_def get_bytes_def take_Suc hd_drop_conv_nth)

lemma entry_at:
  assumes "block_at pg off (enc_entry (k, p, s) @ rest)"
  shows "off + ENTRY_HEADER_SIZE \<le> PAGE_SIZE" "unat (ix_read_uint16 pg off) = length k" "ix_read_uint32 pg (off + 2) = p"
    "ix_read_uint16 pg (off + 6) = s" "off + ENTRY_HEADER_SIZE + length k \<le> PAGE_SIZE"
    "get_bytes pg (off + ENTRY_HEADER_SIZE) (length k) = k" "block_at pg (off + ENTRY_HEADER_SIZE + length k) rest"
proof -
  have b: "block_at pg off (le_bytes 2 (of_nat (length k) :: u16))" "block_at pg (off + 2) (le_bytes 4 p)" "block_at pg (off + 6) (le_bytes 2 s)"
    "block_at pg (off + 8) k" "block_at pg (off + 8 + length k) rest"
    using assms by (simp_all add: enc_entry_def block_at_append ac_simps)
  have k: "off + 8 + length k \<le> PAGE_SIZE" using b(4) by (simp add: block_at_def)
  then show "unat (ix_read_uint16 pg off) = length k" using block_at_read(1) [OF b(1)] by (simp add: PAGE_SIZE_def)
  show "ix_read_uint32 pg (off + 2) = p" "ix_read_uint16 pg (off + 6) = s" using block_at_read(2) [OF b(2)] block_at_read(1) [OF b(3)] .
  show "off + ENTRY_HEADER_SIZE \<le> PAGE_SIZE" "off + ENTRY_HEADER_SIZE + length k \<le> PAGE_SIZE"
    "get_bytes pg (off + ENTRY_HEADER_SIZE) (length k) = k" "block_at pg (off + ENTRY_HEADER_SIZE + length k) rest"
    using k b(4,5) by (simp_all add: block_at_def ENTRY_HEADER_SIZE_def)
qed

lemma child_at:
  assumes "block_at pg off (enc_child c @ rest)"
  shows "off + INTERNAL_CHILD_HEADER_SIZE \<le> PAGE_SIZE" "unat (ix_read_uint16 pg (off + 4)) = length (ps_first_key c)"
    "ix_read_uint32 pg off = ps_page_id c" "off + INTERNAL_CHILD_HEADER_SIZE + length (ps_first_key c) \<le> PAGE_SIZE"
    "get_bytes pg (off + INTERNAL_CHILD_HEADER_SIZE) (length (ps_first_key c)) = ps_first_key c"
    "block_at pg (off + INTERNAL_CHILD_HEADER_SIZE + length (ps_first_key c)) rest"
proof -
  let ?k = "ps_first_key c"
  have b: "block_at pg off (le_bytes 4 (ps_page_id c))" "block_at pg (off + 4) (le_bytes 2 (of_nat (length ?k) :: u16))"
    "block_at pg (off + 6) ?k" "block_at pg (off + 6 + length ?k) rest"
    using assms by (simp_all add: enc_child_def block_at_append ac_simps)
  have k: "off + 6 + length ?k \<le> PAGE_SIZE" using b(3) by (simp add: block_at_def)
  then show "unat (ix_read_uint16 pg (off + 4)) = length ?k" using block_at_read(1) [OF b(2)] by (simp add: PAGE_SIZE_def)
  show "ix_read_uint32 pg off = ps_page_id c" using block_at_read(2) [OF b(1)] .
  show "off + INTERNAL_CHILD_HEADER_SIZE \<le> PAGE_SIZE" "off + INTERNAL_CHILD_HEADER_SIZE + length ?k \<le> PAGE_SIZE"
    "get_bytes pg (off + INTERNAL_CHILD_HEADER_SIZE) (length ?k) = ?k" "block_at pg (off + INTERNAL_CHILD_HEADER_SIZE + length ?k) rest"
    using k b(3,4) by (simp_all add: block_at_def INTERNAL_CHILD_HEADER_SIZE_def)
qed

section \<open>Pages the writer makes\<close>

abbreviation enc_entries :: "entry list \<Rightarrow> bytes" where "enc_entries es \<equiv> concat (map enc_entry es)"
abbreviation enc_children :: "page_summary list \<Rightarrow> bytes" where "enc_children cs \<equiv> concat (map enc_child cs)"

lemma put_entries_ok:
  "length pg = PAGE_SIZE \<Longrightarrow> off + length (enc_entries es) \<le> PAGE_SIZE \<Longrightarrow> put_entries pg off es = Some (put_bytes pg off (enc_entries es))"
proof (induction es arbitrary: pg off)
  case (Cons e es)
  obtain k p s where e: "e = (k, p, s)" by (cases e)
  have l: "off + 8 + length k + length (enc_entries es) \<le> PAGE_SIZE" using Cons.prems(2) e by simp
  have ok: "\<not> (length k > 65535 \<or> off + ENTRY_HEADER_SIZE + length k > PAGE_SIZE)" using l by (simp add: index_consts)
  let ?p = "put_bytes pg off (enc_entry e)"
  have q: "put_bytes (ix_write_uint16 (ix_write_uint32 (ix_write_uint16 pg off (of_nat (length k))) (off + 2) p) (off + 6) s) (off + ENTRY_HEADER_SIZE) k = ?p"
    using l Cons.prems(1) by (simp add: ix_write_put put_put_adjacent enc_entry_def e ENTRY_HEADER_SIZE_def)
  have "put_entries ?p (off + ENTRY_HEADER_SIZE + length k) es = Some (put_bytes ?p (off + ENTRY_HEADER_SIZE + length k) (enc_entries es))"
    using l Cons.prems(1) e by (intro Cons.IH) (simp_all add: ENTRY_HEADER_SIZE_def)
  moreover have "put_bytes ?p (off + ENTRY_HEADER_SIZE + length k) (enc_entries es) = put_bytes pg off (enc_entries (e # es))"
    using put_put_adjacent [of off "enc_entry e" "enc_entries es" pg] l Cons.prems(1) e by (simp add: ENTRY_HEADER_SIZE_def add.assoc)
  ultimately show ?case using ok q by (simp add: e Let_def)
qed simp

lemma put_children_ok:
  "length pg = PAGE_SIZE \<Longrightarrow> off + length (enc_children cs) \<le> PAGE_SIZE \<Longrightarrow> put_children pg off cs = Some (put_bytes pg off (enc_children cs))"
proof (induction cs arbitrary: pg off)
  case (Cons c cs)
  let ?k = "ps_first_key c" and ?p = "put_bytes pg off (enc_child c)"
  have l: "off + 6 + length ?k + length (enc_children cs) \<le> PAGE_SIZE" using Cons.prems(2) by simp
  have ok: "\<not> (length ?k > 65535 \<or> off + INTERNAL_CHILD_HEADER_SIZE + length ?k > PAGE_SIZE)" using l by (simp add: index_consts)
  have q: "put_bytes (ix_write_uint16 (ix_write_uint32 pg off (ps_page_id c)) (off + 4) (of_nat (length ?k))) (off + INTERNAL_CHILD_HEADER_SIZE) ?k = ?p"
    using l Cons.prems(1) by (simp add: ix_write_put put_put_adjacent enc_child_def INTERNAL_CHILD_HEADER_SIZE_def)
  have "put_children ?p (off + INTERNAL_CHILD_HEADER_SIZE + length ?k) cs = Some (put_bytes ?p (off + INTERNAL_CHILD_HEADER_SIZE + length ?k) (enc_children cs))"
    using l Cons.prems(1) by (intro Cons.IH) (simp_all add: INTERNAL_CHILD_HEADER_SIZE_def)
  moreover have "put_bytes ?p (off + INTERNAL_CHILD_HEADER_SIZE + length ?k) (enc_children cs) = put_bytes pg off (enc_children (c # cs))"
    using put_put_adjacent [of off "enc_child c" "enc_children cs" pg] l Cons.prems(1) by (simp add: INTERNAL_CHILD_HEADER_SIZE_def add.assoc)
  ultimately show ?case using ok q by (simp add: Let_def)
qed simp

definition leaf_at :: "bytes \<Rightarrow> u32 \<Rightarrow> entry list \<Rightarrow> bool" where
  "leaf_at pg next_id es \<longleftrightarrow> length pg = PAGE_SIZE \<and> ix_read_uint32 pg 0 = INDEX_MAGIC \<and> pg ! 4 = PAGE_TYPE_LEAF \<and>
     ix_read_uint32 pg 5 = next_id \<and> unat (ix_read_uint16 pg 9) = length es \<and> block_at pg LEAF_HEADER_SIZE (enc_entries es)"

definition node_at :: "bytes \<Rightarrow> page_summary list \<Rightarrow> bool" where
  "node_at pg cs \<longleftrightarrow> length pg = PAGE_SIZE \<and> ix_read_uint32 pg 0 = INDEX_MAGIC \<and> pg ! 4 = PAGE_TYPE_INTERNAL \<and>
     unat (ix_read_uint16 pg 5) = length cs \<and> block_at pg INTERNAL_HEADER_SIZE (enc_children cs)"

lemma length_enc_entries: "length (enc_entries es) = sum_list (map (\<lambda>e. ENTRY_HEADER_SIZE + length (fst e)) es)"
  by (induction es) (simp_all add: ENTRY_HEADER_SIZE_def)

lemma length_enc_entries_ge: "8 * length es \<le> length (enc_entries es)"
  by (induction es) simp_all

lemma length_enc_children_ge: "6 * length cs \<le> length (enc_children cs)"
  by (induction cs) simp_all

lemma update_put_1: "p < length d \<Longrightarrow> d[p := x] = put_bytes d p [x]"
  by (intro nth_equalityI) (auto simp: nth_put_bytes nth_list_update)

lemma leaf_page_ok:
  assumes "leaf_size es \<le> PAGE_SIZE"
  obtains pg where "leaf_page next_id es = Some pg" "leaf_at pg next_id es"
proof -
  have l: "12 + length (enc_entries es) \<le> PAGE_SIZE" using assms by (simp add: leaf_size_def length_enc_entries LEAF_HEADER_SIZE_def)
  then have n: "length es < 65536" using length_enc_entries_ge [of es] by (simp add: PAGE_SIZE_def)
  let ?h = "put_bytes (put_bytes (put_bytes (put_bytes (replicate PAGE_SIZE 0) 0 (le_bytes 4 INDEX_MAGIC)) 4 [PAGE_TYPE_LEAF]) 5 (le_bytes 4 next_id)) 9 (le_bytes 2 (of_nat (length es) :: u16))"
  let ?pg = "put_bytes ?h 12 (enc_entries es)"
  have h: "length ?h = PAGE_SIZE" by (simp add: PAGE_SIZE_def)
  have lp: "leaf_page next_id es = Some ?pg"
    using put_entries_ok [OF h l] by (simp add: leaf_page_def Let_def ix_write_put update_put_1 PAGE_SIZE_def LEAF_HEADER_SIZE_def)
  have b: "block_at ?pg 0 (le_bytes 4 INDEX_MAGIC)" "block_at ?pg 4 [PAGE_TYPE_LEAF]" "block_at ?pg 5 (le_bytes 4 next_id)"
    "block_at ?pg 9 (le_bytes 2 (of_nat (length es) :: u16))" "block_at ?pg 12 (enc_entries es)"
    using l by (simp_all add: block_at_put h)
  have "leaf_at ?pg next_id es"
    using b(1,3,4) b(2) [unfolded block_at_1] b(5) n by (simp add: leaf_at_def block_at_read LEAF_HEADER_SIZE_def)
  then show ?thesis using lp by (rule that [rotated])
qed

lemma internal_page_ok:
  assumes "INTERNAL_HEADER_SIZE + length (enc_children cs) \<le> PAGE_SIZE"
  obtains pg where "internal_page cs = Some pg" "node_at pg cs"
proof -
  have l: "7 + length (enc_children cs) \<le> PAGE_SIZE" using assms by (simp add: INTERNAL_HEADER_SIZE_def)
  then have n: "length cs < 65536" using length_enc_children_ge [of cs] by (simp add: PAGE_SIZE_def)
  let ?h = "put_bytes (put_bytes (put_bytes (replicate PAGE_SIZE 0) 0 (le_bytes 4 INDEX_MAGIC)) 4 [PAGE_TYPE_INTERNAL]) 5 (le_bytes 2 (of_nat (length cs) :: u16))"
  let ?pg = "put_bytes ?h 7 (enc_children cs)"
  have h: "length ?h = PAGE_SIZE" by (simp add: PAGE_SIZE_def)
  have lp: "internal_page cs = Some ?pg"
    using put_children_ok [OF h l] by (simp add: internal_page_def Let_def ix_write_put update_put_1 PAGE_SIZE_def INTERNAL_HEADER_SIZE_def)
  have b: "block_at ?pg 0 (le_bytes 4 INDEX_MAGIC)" "block_at ?pg 4 [PAGE_TYPE_INTERNAL]"
    "block_at ?pg 5 (le_bytes 2 (of_nat (length cs) :: u16))" "block_at ?pg 7 (enc_children cs)"
    using l by (simp_all add: block_at_put h)
  have "node_at ?pg cs"
    using b(1,3) b(2) [unfolded block_at_1] b(4) n by (simp add: node_at_def block_at_read INTERNAL_HEADER_SIZE_def)
  then show ?thesis using lp by (rule that [rotated])
qed

section \<open>Reading a page\<close>

lemma load_entries_ok: "block_at pg off (enc_entries es) \<Longrightarrow> load_entries pg (length es) off acc = Some (acc @ es)"
proof (induction es arbitrary: off acc)
  case (Cons e es)
  obtain k p s where e: "e = (k, p, s)" by (cases e)
  note a = entry_at [OF Cons.prems [unfolded e list.map concat.simps]]
  show ?case using a(1-6) Cons.IH [OF a(7), of "acc @ [e]"] by (simp add: Let_def e)
qed simp

text \<open>The lookups see the entries of a leaf in order.\<close>

fun find_abs :: "index_key \<Rightarrow> entry list \<Rightarrow> (u32 \<times> u16) list \<Rightarrow> bool \<Rightarrow> scan" where
  "find_abs key [] res m = Scan_end res m"
| "find_abs key ((k, rid) # es) res m =
     (if k = key then find_abs key es (res @ [rid]) True else if key < k then Scan_return res else find_abs key es res m)"

fun range_abs :: "(index_key \<Rightarrow> bool) \<Rightarrow> (index_key \<Rightarrow> bool) \<Rightarrow> entry list \<Rightarrow> (u32 \<times> u16) list \<Rightarrow> scan" where
  "range_abs lo hi [] res = Scan_end res True"
| "range_abs lo hi ((k, rid) # es) res =
     (if lo k then range_abs lo hi es res else if hi k then Scan_return res else range_abs lo hi es (res @ [rid]))"

lemma find_in_leaf_ok: "block_at pg off (enc_entries es) \<Longrightarrow> find_in_leaf pg key (length es) off res m = find_abs key es res m"
proof (induction es arbitrary: off res m)
  case (Cons e es)
  obtain k p s where e: "e = (k, p, s)" by (cases e)
  note a = entry_at [OF Cons.prems [unfolded e list.map concat.simps]]
  show ?case using a(1-6) Cons.IH [OF a(7)] by (cases "k = key") (simp_all add: Let_def e)
qed simp

lemma range_in_leaf_ok: "block_at pg off (enc_entries es) \<Longrightarrow> range_in_leaf pg lo hi (length es) off res = range_abs lo hi es res"
proof (induction es arbitrary: off res)
  case (Cons e es)
  obtain k p s where e: "e = (k, p, s)" by (cases e)
  note a = entry_at [OF Cons.prems [unfolded e list.map concat.simps]]
  show ?case using a(1-6) Cons.IH [OF a(7)] by (simp add: Let_def e)
qed simp

lemma select_child_rest:
  "block_at pg off (enc_children cs) \<Longrightarrow> 0 < i \<Longrightarrow>
   select_child pg key i (length cs) off sel = Some (last (sel # map ps_page_id (takeWhile (\<lambda>c. ps_first_key c \<le> key) cs)))"
proof (induction cs arbitrary: off i sel)
  case (Cons c cs)
  note a = child_at [OF Cons.prems(1) [unfolded list.map concat.simps]]
  show ?case using a(1-5) Cons.IH [OF a(6), of "i + 1" "ps_page_id c"] Cons.prems(2) by (simp add: Let_def not_less)
qed simp

text \<open>The last of the children whose key is not greater than the given one, the first child if there is none.\<close>

definition pick :: "('a \<Rightarrow> index_key) \<Rightarrow> index_key \<Rightarrow> 'a list \<Rightarrow> 'a" where
  "pick f key cs = last (hd cs # takeWhile (\<lambda>c. f c \<le> key) (tl cs))"

lemma select_child_ok:
  assumes "block_at pg off (enc_children cs)" "cs \<noteq> []"
  shows "select_child pg key 0 (length cs) off sel = Some (ps_page_id (pick ps_first_key key cs))"
proof -
  obtain c ds where c: "cs = c # ds" using assms(2) by (cases cs) auto
  note a = child_at [OF assms(1) [unfolded c list.map concat.simps]]
  have "last (map ps_page_id (c # takeWhile (\<lambda>c. ps_first_key c \<le> key) ds)) = ps_page_id (last (c # takeWhile (\<lambda>c. ps_first_key c \<le> key) ds))"
    by (rule last_map) simp
  then show ?thesis using a(1-5) select_child_rest [OF a(6), of 1 key "ps_page_id c"] by (simp add: Let_def c pick_def)
qed

section \<open>Reading and writing the file\<close>

text \<open>A page as \<^verbatim>\<open>full_read\<close> sees it: missing bytes are zero.\<close>

lemma get_bytes_Nil_iff: "0 < n \<Longrightarrow> get_bytes d off n = [] \<longleftrightarrow> length d \<le> off"
  by (simp add: get_bytes_def)

lemma read_zeros: "length d \<le> off \<Longrightarrow> map (\<lambda>j. byte_at d (off + j)) [0..<n] = replicate n 0"
  by (intro nth_equalityI) (simp_all add: byte_at_def)

lemma read_part:
  assumes "part = take k (get_bytes d off n)" "part \<noteq> []"
  shows "part @ map (\<lambda>j. byte_at d (off + length part + j)) [0..<n - length part] = map (\<lambda>j. byte_at d (off + j)) [0..<n]"
proof (rule nth_equalityI)
  have l: "length part \<le> n" "off + length part \<le> length d" using get_bytes_part(2,3) [OF assms] .
  show "length (part @ map (\<lambda>j. byte_at d (off + length part + j)) [0..<n - length part]) = length (map (\<lambda>j. byte_at d (off + j)) [0..<n])" using l by simp
  fix i assume "i < length (part @ map (\<lambda>j. byte_at d (off + length part + j)) [0..<n - length part])"
  then show "(part @ map (\<lambda>j. byte_at d (off + length part + j)) [0..<n - length part]) ! i = map (\<lambda>j. byte_at d (off + j)) [0..<n] ! i"
  proof (cases "i < length part")
    case True
    moreover have "off \<le> length d" using l by simp
    ultimately have "part ! i = d ! (off + i)" using assms(1) by (simp add: get_bytes_def)
    then show ?thesis using True l by (simp add: nth_append byte_at_def)
  next
    case False
    then show ?thesis using \<open>i < length (part @ _)\<close> l by (simp add: nth_append)
  qed
qed

lemma ix_read_loop_result:
  "ix_read_loop p got n off w = (res, w') \<Longrightarrow>
     same_data w w' \<and> (calm w \<longrightarrow> calm w' \<and> res = Some (got @ map (\<lambda>j. byte_at (contents w p) (off + j)) [0..<n]))"
proof (induction p got n off w rule: ix_read_loop.induct)
  case (1 p got n off w)
  obtain r w1 where n: "next_outcome w = (r, w1)" by (cases "next_outcome w")
  have s: "same_data w w1" "calm w \<Longrightarrow> calm w1 \<and> r \<noteq> Io_error \<and> r \<noteq> Io_short 0" using next_outcome_same [OF n] calm_next [OF _ n] by auto
  have c: "contents w1 p = contents w p" by (rule same_data_contents [OF s(1)])
  have t: "same_data w w'" if "same_data w1 w'" using same_data_trans [OF s(1) that] .
  let ?av = "get_bytes (contents w p) off n"
  have cont: ?case if part: "part = take k ?av" "part \<noteq> []"
    and rec: "same_data w1 w' \<and> (calm w1 \<longrightarrow> calm w' \<and> res = Some ((got @ part) @ map (\<lambda>j. byte_at (contents w1 p) (off + length part + j)) [0..<n - length part]))" for part k
    using rec s t read_part [OF part] c by auto
  have stop: ?case if "0 < n" "?av = []" "(res, w') = (Some (got @ replicate n 0), w1)"
    using that s read_zeros [of "contents w p" off n] by (auto simp: get_bytes_Nil_iff)
  show ?case
  proof (cases "n = 0")
    case True then show ?thesis using 1(4) by (subst (asm) ix_read_loop.simps) auto
  next
    case False
    then have n0: "0 < n" by simp
    note st = 1(4) [unfolded ix_read_loop.simps [of p got n off w] if_not_P [OF False] n prod.case Let_def c]
    note IH = 1(1,2) [OF False n [symmetric] refl, unfolded c]
    have all: "?av = take n ?av" by (simp add: get_bytes_def)
    show ?thesis
    proof (cases r)
      case Io_all
      show ?thesis
      proof (cases "?av = []")
        case True then show ?thesis using st Io_all stop [OF n0 True] by simp
      next
        case nz: False
        then show ?thesis using st Io_all IH(1) [OF Io_all nz] cont [OF all nz] c by simp
      qed
    next
      case (Io_short k)
      show ?thesis
      proof (cases "take k ?av = []")
        case True
        have e: "(res, w') = (Some (got @ replicate n 0), w1)" using st Io_short True by simp
        show ?thesis
        proof (cases "?av = []")
          case T2: True then show ?thesis by (rule stop [OF n0 _ e])
        next
          case F2: False
          then have "k = 0" using True by simp
          then show ?thesis using s e Io_short by auto
        qed
      next
        case nz: False
        then show ?thesis using st Io_short IH(2) [OF Io_short refl nz] cont [OF refl nz] c by simp
      qed
    next
      case Io_eintr
      then show ?thesis using st 1(3) [OF False n [symmetric] refl Io_eintr] s t c by auto
    next
      case Io_error
      then show ?thesis using st s by auto
    qed
  qed
qed

lemma ix_full_read_result:
  assumes "ix_full_read p pid w = (res, w')"
  shows "same_data w w'" "calm w \<Longrightarrow> calm w'" "calm w \<Longrightarrow> res = Some (page_bytes w p (unat pid))"
  using ix_read_loop_result [OF assms [unfolded ix_full_read_def]] by (simp_all add: page_bytes_def)

text \<open>A page write changes that page only.\<close>

lemma full_write_page:
  assumes "full_write p pg (k * PAGE_SIZE) w = (ok, w')" "length pg = PAGE_SIZE"
  shows "same_except p w w'" "i \<noteq> k \<Longrightarrow> page_bytes w' p i = page_bytes w p i" "ok \<Longrightarrow> page_bytes w' p k = pg"
proof -
  note r = full_write_result [OF assms(1)]
  show "same_except p w w'" using r by simp
  show "page_bytes w' p i = page_bytes w p i" if "i \<noteq> k"
  proof -
    have "\<not> (k * PAGE_SIZE \<le> i * PAGE_SIZE + j \<and> i * PAGE_SIZE + j < k * PAGE_SIZE + PAGE_SIZE)" if "j < PAGE_SIZE" for j
      using that \<open>i \<noteq> k\<close> by (cases "i < k") (auto simp: PAGE_SIZE_def)
    then show ?thesis using r assms(2) by (simp add: page_bytes_def)
  qed
  show "page_bytes w' p k = pg" if ok
    using page_bytes_written [OF _ assms(2), of w' p w k] r that page_sized_not_empty [OF assms(2)] by simp
qed

end
