(* ===== verification/Index_Tree.thy ===== *)
theory Index_Tree
  imports Index_Pages
begin

text \<open>
  The tree of pages an index file writes: what \<^verbatim>\<open>write_pages\<close> leaves in the file, that it ends when no key is longer than
  2038 bytes, and that \<^verbatim>\<open>load\<close>, \<^verbatim>\<open>find\<close> and \<^verbatim>\<open>find_range\<close> read the entries back.
\<close>

section \<open>Writing one page\<close>

definition disk :: "istate \<Rightarrow> nat \<Rightarrow> bytes" where
  "disk s j = page_bytes (snd (snd s)) (ix_path (fst s)) j"

definition apart :: "istate \<Rightarrow> bool" where
  "apart s \<longleftrightarrow> (\<forall>m. fst (snd s) = Some m \<longrightarrow> wal_path m \<noteq> ix_path (fst s))"

text \<open>No log, and no system call fails.\<close>

definition smooth :: "istate \<Rightarrow> bool" where
  "smooth s \<longleftrightarrow> fst (snd s) = None \<and> calm (snd (snd s))"

text \<open>Between two states only pages of a set were written.\<close>

definition only :: "nat set \<Rightarrow> istate \<Rightarrow> istate \<Rightarrow> bool" where
  "only A s s' \<longleftrightarrow> fst s' = fst s \<and> apart s' \<and> (\<forall>j. j \<notin> A \<longrightarrow> disk s' j = disk s j) \<and> (smooth s \<longrightarrow> smooth s')"

lemma only_refl: "apart s \<Longrightarrow> only A s s"
  by (simp add: only_def)

lemma only_trans: "only A s s' \<Longrightarrow> only B s' s'' \<Longrightarrow> only (A \<union> B) s s''"
  by (simp add: only_def)

lemma only_mono: "only A s s' \<Longrightarrow> A \<subseteq> B \<Longrightarrow> only B s s'"
  by (auto simp: only_def)

lemma onlyD: "only A s s' \<Longrightarrow> fst s' = fst s" "only A s s' \<Longrightarrow> apart s'" "only A s s' \<Longrightarrow> j \<notin> A \<Longrightarrow> disk s' j = disk s j"
  "only A s s' \<Longrightarrow> smooth s \<Longrightarrow> smooth s'"
  by (simp_all add: only_def)

lemma write_logged_page_result:
  assumes "write_logged_page pid pg s = (ok, s')" "apart s"
  shows "only {unat pid} s s'" "ok \<Longrightarrow> disk s' (unat pid) = pg" "smooth s \<Longrightarrow> length pg = PAGE_SIZE \<Longrightarrow> ok"
proof -
  obtain ix wm w where s: "s = (ix, wm, w)" by (cases s)
  let ?p = "ix_path ix"
  have fin: "only {unat pid} s s' \<and> (ok \<longrightarrow> disk s' (unat pid) = pg) \<and> (smooth s \<longrightarrow> ok)"
    if l: "length pg = PAGE_SIZE" and c: "\<forall>i. page_bytes w1 ?p i = page_bytes w ?p i" and p: "map_option wal_path wm1 = map_option wal_path wm"
      and m: "smooth s \<longrightarrow> wm1 = None \<and> calm w1" and e: "ix_full_write ?p pid pg w1 = (ok, w2)" "s' = (ix, wm1, w2)" for wm1 w1 w2
  proof -
    note f = full_write_page [OF e(1) [unfolded ix_full_write_def] l]
    have "apart s'" using assms(2) p by (cases wm; cases wm1) (auto simp: apart_def s e(2))
    moreover have "smooth s \<longrightarrow> ok \<and> smooth s'" using m full_write_calm [of w1 ?p pg "unat pid * PAGE_SIZE"] e by (auto simp: smooth_def ix_full_write_def)
    ultimately show ?thesis using f(2,3) c by (auto simp: only_def disk_def s e(2))
  qed
  have no: "only {unat pid} s s'" if "\<forall>i. page_bytes w1 ?p i = page_bytes w ?p i" "map_option wal_path wm1 = map_option wal_path wm" "wm \<noteq> None" "s' = (ix, wm1, w1)" for wm1 w1
    using that assms(2) by (cases wm; cases wm1) (auto simp: only_def apart_def disk_def smooth_def s)
  have "only {unat pid} s s' \<and> (ok \<longrightarrow> disk s' (unat pid) = pg) \<and> (smooth s \<longrightarrow> length pg = PAGE_SIZE \<longrightarrow> ok)"
  proof (cases "length pg = PAGE_SIZE")
    case l: True
    show ?thesis
    proof (cases wm)
      case None
      obtain ok2 w2 where "ix_full_write ?p pid pg w = (ok2, w2)" by (cases "ix_full_write ?p pid pg w")
      then show ?thesis using assms(1) l None fin [of w wm w2] by (simp add: write_logged_page_def s smooth_def)
    next
      case (Some m)
      have ns: "\<not> smooth s" using Some by (simp add: smooth_def s)
      have ap: "?p \<noteq> wal_path m" using assms(2) Some by (auto simp: apart_def s)
      obtain r w1 where r: "ix_full_read ?p pid w = (r, w1)" by (cases "ix_full_read ?p pid w")
      have c1: "contents w1 q = contents w q" for q using same_data_contents [OF ix_full_read_result(1) [OF r]] .
      show ?thesis
      proof (cases r)
        case None
        then show ?thesis using assms(1) l Some r ns no [of w1 "Some m"] c1 by (simp add: write_logged_page_def s page_bytes_def)
      next
        case (Some bf)
        obtain lsn m2 w2 where lg: "log_page_update_raw (ix_txn ix) ?p pid bf pg (m, w1) = (lsn, m2, w2)" by (cases "log_page_update_raw (ix_txn ix) ?p pid bf pg (m, w1)")
        have c2: "contents w2 ?p = contents w1 ?p" "wal_path m2 = wal_path m"
          using lg append_record_frame(1) [where w = w1 and m = m] append_record_frame(2) [where w = w1 and m = m and g = ?p] ap by (auto simp: log_page_update_raw_def split: if_splits)
        obtain okf m3 w3 where fl: "flush_through lsn (m2, w2) = (okf, m3, w3)" by (cases "flush_through lsn (m2, w2)")
        have c3: "contents w3 ?p = contents w2 ?p" "wal_path m3 = wal_path m2" using flush_through_frame(1,2) [OF fl] by (simp_all add: contents_def)
        obtain ok4 w4 where wr: "ix_full_write ?p pid pg w3 = (ok4, w4)" by (cases "ix_full_write ?p pid pg w3")
        note st = assms(1) [unfolded write_logged_page_def s prod.case \<open>wm = Some m\<close> option.case r Some lg]
        show ?thesis
          using st l fl wr ns c1 c2 c3 \<open>wm = Some m\<close> no [of w2 "Some m2"] no [of w3 "Some m3"] fin [of w3 "Some m3" w4]
          by (auto simp: page_bytes_def split: if_splits)
      qed
    qed
  next
    case False
    then show ?thesis using assms by (auto simp: write_logged_page_def s only_refl)
  qed
  then show "only {unat pid} s s'" "ok \<Longrightarrow> disk s' (unat pid) = pg" "smooth s \<Longrightarrow> length pg = PAGE_SIZE \<Longrightarrow> ok" by auto
qed

section \<open>Writing the leaves\<close>

definition first_key :: "entry list \<Rightarrow> index_key" where
  "first_key l = (case l of [] \<Rightarrow> [] | e # _ \<Rightarrow> fst e)"

fun summaries :: "nat \<Rightarrow> entry list list \<Rightarrow> page_summary list" where
  "summaries i [] = []"
| "summaries i (l # ls) = \<lparr> ps_page_id = of_nat (i + 1), ps_first_key = first_key l \<rparr> # summaries (i + 1) ls"

text \<open>The chain of leaves on the pages from \<open>i + 1\<close> to \<open>n\<close>.\<close>

fun chain :: "(nat \<Rightarrow> bytes) \<Rightarrow> nat \<Rightarrow> nat \<Rightarrow> entry list list \<Rightarrow> bool" where
  "chain D n i [] = True"
| "chain D n i (l # ls) = (leaf_at (D (i + 1)) (if i + 1 \<ge> n then NO_PAGE else of_nat (i + 2)) l \<and> chain D n (i + 1) ls)"

lemma chain_cong: "\<forall>j. i < j \<longrightarrow> j \<le> i + length ls \<longrightarrow> D' j = D j \<Longrightarrow> chain D n i ls \<Longrightarrow> chain D' n i ls"
  by (induction ls arbitrary: i) auto

lemma write_leaves_result:
  "write_leaves n i ls level s = (res, s') \<Longrightarrow> apart s \<Longrightarrow> \<forall>l\<in>set ls. leaf_size l \<le> PAGE_SIZE \<Longrightarrow> i + length ls < 2 ^ 32 \<Longrightarrow>
   only {i <..i + length ls} s s' \<and> (\<forall>L. res = Some L \<longrightarrow> L = level @ summaries i ls \<and> chain (disk s') n i ls) \<and> (smooth s \<longrightarrow> res \<noteq> None)"
proof (induction ls arbitrary: i level s)
  case (Cons l ls)
  let ?next = "if i + 1 \<ge> n then NO_PAGE else of_nat (i + 2) :: u32"
  obtain pg where pg: "leaf_page ?next l = Some pg" "leaf_at pg ?next l" using Cons.prems(3) by (auto intro: leaf_page_ok [of l ?next])
  have pid: "unat (of_nat (i + 1) :: u32) = i + 1" using Cons.prems(4) by (intro unat_of_nat_u32) simp
  obtain ok s1 where w: "write_logged_page (of_nat (i + 1)) pg s = (ok, s1)" by (cases "write_logged_page (of_nat (i + 1)) pg s")
  note r = write_logged_page_result [OF w Cons.prems(2), unfolded pid]
  note st = Cons.prems(1) [unfolded write_leaves.simps Let_def pg(1) option.case w prod.case]
  have len: "length pg = PAGE_SIZE" using pg(2) by (simp add: leaf_at_def)
  show ?case
  proof (cases ok)
    case False
    then show ?thesis using st r(1,3) len only_mono [OF r(1), of "{i <..i + length (l # ls)}"] by auto
  next
    case True
    let ?s = "\<lparr> ps_page_id = of_nat (i + 1), ps_first_key = first_key l \<rparr>"
    have rec: "write_leaves n (i + 1) ls (level @ [?s]) s1 = (res, s')" using st True by (simp add: first_key_def)
    have IH: "only {i + 1 <..i + 1 + length ls} s1 s' \<and> (\<forall>L. res = Some L \<longrightarrow> L = (level @ [?s]) @ summaries (i + 1) ls \<and> chain (disk s') n (i + 1) ls) \<and> (smooth s1 \<longrightarrow> res \<noteq> None)"
      using Cons.prems(3,4) onlyD(2) [OF r(1)] by (intro Cons.IH [OF rec]) auto
    have o: "only {i <..i + length (l # ls)} s s'" by (rule only_mono [OF only_trans [OF r(1) conjunct1 [OF IH]]]) auto
    have "disk s' (i + 1) = pg" using onlyD(3) [OF conjunct1 [OF IH], of "i + 1"] r(2) True by simp
    then show ?thesis using IH o pg(2) onlyD(4) [OF r(1)] by auto
  qed
qed (auto simp: only_refl)

section \<open>Writing the inner levels\<close>

text \<open>
  \<open>subtree D N h c ls\<close>: the page that \<open>c\<close> summarises is the root of a tree of height \<open>h\<close> over the leaves \<open>ls\<close>,
  on pages below \<open>N\<close>. A forest is the sequence of the subtrees of one level.
\<close>

primrec subtree :: "(nat \<Rightarrow> bytes) \<Rightarrow> nat \<Rightarrow> nat \<Rightarrow> page_summary \<Rightarrow> page_summary list \<Rightarrow> bool" where
  "subtree D N 0 c ls \<longleftrightarrow> ls = [c] \<and> 0 < unat (ps_page_id c) \<and> unat (ps_page_id c) < N \<and> (\<exists>next_id es. leaf_at (D (unat (ps_page_id c))) next_id es)"
| "subtree D N (Suc h) c ls \<longleftrightarrow> 0 < unat (ps_page_id c) \<and> unat (ps_page_id c) < N \<and>
     (\<exists>cs segs. cs \<noteq> [] \<and> node_at (D (unat (ps_page_id c))) cs \<and> list_all2 (subtree D N h) cs segs \<and> ls = concat segs \<and> ps_first_key c = ps_first_key (hd cs))"

definition forest :: "(nat \<Rightarrow> bytes) \<Rightarrow> nat \<Rightarrow> nat \<Rightarrow> page_summary list \<Rightarrow> page_summary list \<Rightarrow> bool" where
  "forest D N h cs ls \<longleftrightarrow> (\<exists>segs. list_all2 (subtree D N h) cs segs \<and> ls = concat segs)"

lemma subtree_Suc: "subtree D N (Suc h) c ls \<longleftrightarrow> 0 < unat (ps_page_id c) \<and> unat (ps_page_id c) < N \<and>
    (\<exists>cs. cs \<noteq> [] \<and> node_at (D (unat (ps_page_id c))) cs \<and> forest D N h cs ls \<and> ps_first_key c = ps_first_key (hd cs))"
  by (auto simp: forest_def)

declare subtree.simps(2) [simp del]

lemma subtree_mono: "subtree D N h c ls \<Longrightarrow> N \<le> N' \<Longrightarrow> \<forall>j. 0 < j \<longrightarrow> j < N \<longrightarrow> D' j = D j \<Longrightarrow> subtree D' N' h c ls"
proof (induction h arbitrary: c ls)
  case (Suc h)
  from Suc.prems(1) obtain cs segs where c: "0 < unat (ps_page_id c) \<and> unat (ps_page_id c) < N" "cs \<noteq> []" "node_at (D (unat (ps_page_id c))) cs"
    "list_all2 (subtree D N h) cs segs" "ls = concat segs" "ps_first_key c = ps_first_key (hd cs)" by (auto simp: subtree.simps(2))
  have "list_all2 (subtree D' N' h) cs segs" using c(4) by (rule list_all2_mono) (rule Suc.IH [OF _ Suc.prems(2,3)])
  moreover have "D' (unat (ps_page_id c)) = D (unat (ps_page_id c))" using Suc.prems(3) c(1) by blast
  ultimately show ?case unfolding subtree.simps(2) using c Suc.prems(2) by auto
qed auto

lemma forest_mono: "forest D N h cs ls \<Longrightarrow> N \<le> N' \<Longrightarrow> \<forall>j. 0 < j \<longrightarrow> j < N \<longrightarrow> D' j = D j \<Longrightarrow> forest D' N' h cs ls"
  unfolding forest_def by (blast intro: list_all2_mono subtree_mono)

lemma forest_append: "forest D N h (cs @ ds) ls \<longleftrightarrow> (\<exists>l1 l2. ls = l1 @ l2 \<and> forest D N h cs l1 \<and> forest D N h ds l2)"
proof
  assume "forest D N h (cs @ ds) ls"
  then obtain segs where s: "list_all2 (subtree D N h) (cs @ ds) segs" "ls = concat segs" by (auto simp: forest_def)
  then obtain s1 s2 where "segs = s1 @ s2" "list_all2 (subtree D N h) cs s1" "list_all2 (subtree D N h) ds s2"
    by (auto simp: list_all2_append1)
  then show "\<exists>l1 l2. ls = l1 @ l2 \<and> forest D N h cs l1 \<and> forest D N h ds l2" using s(2) by (auto simp: forest_def)
next
  assume "\<exists>l1 l2. ls = l1 @ l2 \<and> forest D N h cs l1 \<and> forest D N h ds l2"
  then obtain s1 s2 where "ls = concat (s1 @ s2)" "list_all2 (subtree D N h) cs s1" "list_all2 (subtree D N h) ds s2"
    by (auto simp: forest_def)
  then show "forest D N h (cs @ ds) ls" unfolding forest_def by (blast intro: list_all2_appendI)
qed

lemma forest_single: "forest D N h [c] ls \<longleftrightarrow> subtree D N h c ls"
  by (auto simp: forest_def list_all2_Cons1)

lemma forest_Nil [simp]: "forest D N h [] ls \<longleftrightarrow> ls = []"
  by (auto simp: forest_def)

lemma forest_leaves: "chain D n i ls \<Longrightarrow> i + length ls < N \<Longrightarrow> N \<le> 2 ^ 32 \<Longrightarrow> forest D N 0 (summaries i ls) (summaries i ls)"
proof (induction ls arbitrary: i)
  case (Cons l ls)
  have "unat (of_nat (i + 1) :: u32) = i + 1" using Cons.prems(2,3) by (intro unat_of_nat_u32) simp
  then have "forest D N 0 [\<lparr> ps_page_id = of_nat (i + 1), ps_first_key = first_key l \<rparr>] [\<lparr> ps_page_id = of_nat (i + 1), ps_first_key = first_key l \<rparr>]"
    using Cons.prems by (auto simp: forest_single)
  moreover have "forest D N 0 (summaries (i + 1) ls) (summaries (i + 1) ls)" using Cons.prems by (intro Cons.IH) auto
  ultimately show ?case unfolding summaries.simps
    using forest_append [of D N 0 "[\<lparr> ps_page_id = of_nat (i + 1), ps_first_key = first_key l \<rparr>]" "summaries (i + 1) ls"] by (metis append_Cons append_Nil)
qed simp

definition node_fits :: "page_summary list \<Rightarrow> bool" where
  "node_fits cs \<longleftrightarrow> INTERNAL_HEADER_SIZE + length (enc_children cs) \<le> PAGE_SIZE"

lemma children_size_unat: "length (enc_children cs) < 2 ^ 31 \<Longrightarrow> unat (children_size cs) = INTERNAL_HEADER_SIZE + length (enc_children cs)"
proof -
  have "fold (\<lambda>c size. size + (of_nat INTERNAL_CHILD_HEADER_SIZE + of_nat (length (ps_first_key c)))) cs (of_nat n :: u32) =
      of_nat (n + length (enc_children cs))" for n
  proof (induction cs arbitrary: n)
    case (Cons c cs)
    have "of_nat n + (of_nat INTERNAL_CHILD_HEADER_SIZE + of_nat (length (ps_first_key c))) = (of_nat (n + length (enc_child c)) :: u32)"
      by (simp add: INTERNAL_CHILD_HEADER_SIZE_def)
    then show ?case using Cons [of "n + length (enc_child c)"] by (simp only: fold_simps list.map concat.simps length_append add.assoc)
  qed simp
  moreover assume "length (enc_children cs) < 2 ^ 31"
  ultimately show ?thesis unfolding children_size_def
    using unat_of_nat_u32 [of "INTERNAL_HEADER_SIZE + length (enc_children cs)"] by (simp only: INTERNAL_HEADER_SIZE_def) simp
qed

lemma flush_internal_result:
  assumes "flush_internal cs nid s = (res, s')" "cs \<noteq> []" "node_fits cs" "apart s" "unat nid + 1 < 2 ^ 32"
  shows "only {unat nid} s s'" "smooth s \<Longrightarrow> res \<noteq> None"
    "res = Some (new, nid') \<Longrightarrow> new = [\<lparr> ps_page_id = nid, ps_first_key = ps_first_key (hd cs) \<rparr>] \<and> unat nid' = unat nid + 1 \<and> node_at (disk s' (unat nid)) cs"
proof -
  obtain pg where pg: "internal_page cs = Some pg" "node_at pg cs" using internal_page_ok assms(3) by (auto simp: node_fits_def)
  obtain ok s1 where w: "write_logged_page nid pg s = (ok, s1)" by (cases "write_logged_page nid pg s")
  note r = write_logged_page_result [OF w assms(4)]
  have len: "length pg = PAGE_SIZE" using pg(2) by (simp add: node_at_def)
  have n: "unat (nid + 1) = unat nid + 1" using assms(5) by (simp add: unat_word_ariths)
  have st: "(res, s') = (if ok then Some ([\<lparr> ps_page_id = nid, ps_first_key = ps_first_key (hd cs) \<rparr>], nid + 1) else None, s1)"
    using assms(1,2) pg(1) w by (auto simp: flush_internal_def)
  show "only {unat nid} s s'" "smooth s \<Longrightarrow> res \<noteq> None" using r st len by auto
  show "res = Some (new, nid') \<Longrightarrow> new = [\<lparr> ps_page_id = nid, ps_first_key = ps_first_key (hd cs) \<rparr>] \<and> unat nid' = unat nid + 1 \<and> node_at (disk s' (unat nid)) cs"
    using r(2) st pg(2) n by (auto split: if_splits)
qed

text \<open>Two keys of at most this length fit into an inner page, so every level is about half as long as the one below.\<close>

definition short_key :: "index_key \<Rightarrow> bool" where
  "short_key k \<longleftrightarrow> length k \<le> 2038"

lemma two_fit: "short_key (ps_first_key a) \<Longrightarrow> short_key (ps_first_key b) \<Longrightarrow> node_fits [a, b]"
  by (simp add: node_fits_def short_key_def index_consts)

lemma one_fits: "length (ps_first_key a) \<le> 4076 \<Longrightarrow> node_fits [a]"
  by (simp add: node_fits_def index_consts)

lemma overflow_iff:
  "node_fits children \<Longrightarrow> length (ps_first_key c) \<le> 4076 \<Longrightarrow> unat (children_size (children @ [c])) > PAGE_SIZE \<longleftrightarrow> \<not> node_fits (children @ [c])"
  using children_size_unat [of "children @ [c]"] by (auto simp: node_fits_def PAGE_SIZE_def)

definition level_written :: "nat \<Rightarrow> page_summary list \<Rightarrow> page_summary list \<Rightarrow> u32 \<Rightarrow> istate \<Rightarrow> page_summary list \<Rightarrow> u32 \<Rightarrow> istate \<Rightarrow> bool" where
  "level_written h cs ls nid s new nid' s' \<longleftrightarrow>
     forest (disk s') (unat nid') (Suc h) new ls \<and> unat nid' = unat nid + length new \<and> (cs \<noteq> [] \<longrightarrow> new \<noteq> []) \<and> length new \<le> length cs \<and>
     ((\<forall>c\<in>set cs. short_key (ps_first_key c)) \<longrightarrow> 2 * length new \<le> length cs + 1) \<and> ps_first_key ` set new \<subseteq> ps_first_key ` set cs"

lemma write_level_result:
  "write_level rest children nl nid s = (res, s') \<Longrightarrow> apart s \<Longrightarrow> node_fits children \<Longrightarrow> \<forall>c\<in>set (children @ rest). length (ps_first_key c) \<le> 4076 \<Longrightarrow>
   0 < unat nid \<Longrightarrow> unat nid + length (children @ rest) + 1 < 2 ^ 32 \<Longrightarrow> forest (disk s) (unat nid) h (children @ rest) ls \<Longrightarrow>
   only {unat nid..} s s' \<and> (smooth s \<longrightarrow> res \<noteq> None) \<and>
   (\<forall>L nid'. res = Some (L, nid') \<longrightarrow> (\<exists>new. L = nl @ new \<and> level_written h (children @ rest) ls nid s new nid' s'))"
proof (induction rest arbitrary: children nl nid s ls)
  case Nil
  show ?case
  proof (cases "children = []")
    case True
    then show ?thesis using Nil by (auto simp: flush_internal_def only_refl level_written_def)
  next
    case False
    obtain r s1 where f: "flush_internal children nid s = (r, s1)" by (cases "flush_internal children nid s")
    note fr = flush_internal_result [OF f False Nil(3,2)]
    have n: "unat nid + 1 < 2 ^ 32" using Nil(6) by simp
    have o: "only {unat nid..} s s1" by (rule only_mono [OF fr(1) [OF n]]) simp
    let ?c = "\<lparr> ps_page_id = nid, ps_first_key = ps_first_key (hd children) \<rparr>"
    have "level_written h children ls nid s new nid' s1 \<and> new = [?c]" if "r = Some (new, nid')" for new nid'
    proof -
      note q = fr(3) [OF n that]
      have "forest (disk s1) (unat nid') h children ls"
        by (rule forest_mono [OF Nil(7) [simplified]]) (use q onlyD(3) [OF o] in auto)
      then have "forest (disk s1) (unat nid') (Suc h) new ls" using q False Nil(5) by (auto simp: forest_single subtree_Suc)
      then show ?thesis using q False by (auto simp: level_written_def Suc_le_eq)
    qed
    then show ?thesis using Nil(1) f o fr(2) [OF n] by (cases r) auto
  qed
next
  case (Cons c rest)
  have c76: "length (ps_first_key c) \<le> 4076" using Cons.prems(4) by simp
  note ov = overflow_iff [OF Cons.prems(3) c76]
  show ?case
  proof (cases "node_fits (children @ [c])")
    case True
    then have "write_level rest (children @ [c]) nl nid s = (res, s')" using Cons.prems(1) ov by simp
    from Cons.IH [OF this Cons.prems(2) True] show ?thesis using Cons.prems(4-7) by simp
  next
    case nf: False
    have ne: "children \<noteq> []" using nf one_fits [OF c76] by auto
    have n: "unat nid + 1 < 2 ^ 32" using Cons.prems(6) by simp
    obtain r s1 where f: "flush_internal children nid s = (r, s1)" by (cases "flush_internal children nid s")
    note fr = flush_internal_result [OF f ne Cons.prems(3,2) n]
    have o: "only {unat nid..} s s1" by (rule only_mono [OF fr(1)]) simp
    show ?thesis
    proof (cases r)
      case None
      then show ?thesis using Cons.prems(1) f o fr(2) ov nf by auto
    next
      case (Some x)
      obtain new1 nid1 where x: "r = Some (new1, nid1)" using Some by (cases x) auto
      note q = fr(3) [OF x]
      from Cons.prems(7) obtain l1 l2 where l: "ls = l1 @ l2" "forest (disk s) (unat nid) h children l1" "forest (disk s) (unat nid) h (c # rest) l2"
        by (auto simp: forest_append)
      have same: "\<forall>j. 0 < j \<longrightarrow> j < unat nid \<longrightarrow> disk s1 j = disk s j" using onlyD(3) [OF o] by auto
      have f2: "forest (disk s1) (unat nid1) h ([c] @ rest) l2" using forest_mono [OF l(3) _ same, of "unat nid1"] q by simp
      have f1: "forest (disk s1) (unat nid1) h children l1" using forest_mono [OF l(2) _ same, of "unat nid1"] q by simp
      have rec: "write_level rest [c] (nl @ new1) nid1 s1 = (res, s')" using Cons.prems(1) f x ov nf by simp
      have IH: "only {unat nid1..} s1 s' \<and> (smooth s1 \<longrightarrow> res \<noteq> None) \<and>
         (\<forall>L nid'. res = Some (L, nid') \<longrightarrow> (\<exists>new. L = (nl @ new1) @ new \<and> level_written h ([c] @ rest) l2 nid1 s1 new nid' s'))"
        using Cons.prems(4-6) q ne by (intro Cons.IH [OF rec onlyD(2) [OF o] one_fits [OF c76] _ _ _ f2]) (auto simp: neq_Nil_conv)
      have oo: "only {unat nid..} s s'" by (rule only_mono [OF only_trans [OF o conjunct1 [OF IH]]]) (use q in auto)
      have "level_written h (children @ c # rest) ls nid s (new1 @ new) nid' s'"
        if lw: "level_written h ([c] @ rest) l2 nid1 s1 new nid' s'" for new nid'
      proof -
        have N: "unat nid1 \<le> unat nid'" using lw by (simp add: level_written_def)
        have "\<forall>j. 0 < j \<longrightarrow> j < unat nid1 \<longrightarrow> disk s' j = disk s1 j" using onlyD(3) [OF conjunct1 [OF IH]] by auto
        then have "forest (disk s') (unat nid') (Suc h) new1 l1"
          using forest_mono [OF _ N, of "disk s1" "Suc h" new1 l1 "disk s'"] q f1 ne Cons.prems(5) by (auto simp: forest_single subtree_Suc)
        then have fo: "forest (disk s') (unat nid') (Suc h) (new1 @ new) ls" using lw l(1) unfolding level_written_def forest_append by blast
        have two: "2 \<le> length children" if "\<forall>d\<in>set (children @ c # rest). short_key (ps_first_key d)"
        proof (rule ccontr)
          assume "\<not> 2 \<le> length children"
          then obtain d where "children = [d]" using ne by (cases children; cases "tl children") auto
          then show False using nf two_fit [of d c] that by auto
        qed
        show ?thesis unfolding level_written_def
        proof (intro conjI impI)
          show "2 * length (new1 @ new) \<le> length (children @ c # rest) + 1" if "\<forall>c\<in>set (children @ c # rest). short_key (ps_first_key c)"
            using lw q two [OF that] that by (simp add: level_written_def)
          have "1 \<le> length children" using ne by (simp add: Suc_le_eq)
          then show "length (new1 @ new) \<le> length (children @ c # rest)" using lw q by (simp add: level_written_def)
        qed (use fo lw q ne in \<open>auto simp: level_written_def\<close>)
      qed
      then show ?thesis using oo IH onlyD(4) [OF o] by fastforce
    qed
  qed
qed

lemma write_levels_result:
  assumes "write_levels fuel level nid ht s = Some (res, s')" "apart s" "level \<noteq> []" "\<forall>c\<in>set level. short_key (ps_first_key c)"
    "0 < unat nid \<and> unat nid + 2 * length level < 2 ^ 32" "forest (disk s) (unat nid) h level ls"
  shows "only {unat nid..} s s' \<and> (smooth s \<longrightarrow> res \<noteq> None) \<and>
    (\<forall>root nid' ht'. res = Some (root, nid', ht') \<longrightarrow> (\<exists>k. subtree (disk s') (unat nid') (h + k) root ls \<and> ht' = ht + of_nat k \<and>
       unat nid \<le> unat nid' \<and> unat nid' \<le> unat nid + 2 * (length level - 1) \<and> (k = 0 \<or> 2 ^ (k - 1) < length level)))"
  using assms
proof (induction fuel arbitrary: level nid ht s h)
  case 0
  then obtain c where "level = [c]" by (cases level; cases "tl level") (auto simp: write_levels.simps split: if_splits)
  then show ?case using 0 by (auto simp: write_levels.simps forest_single only_refl)
next
  case (Suc fuel)
  show ?case
  proof (cases "length level \<le> 1")
    case True
    then obtain c where "level = [c]" using Suc.prems(3) by (cases level; cases "tl level") auto
    then show ?thesis using Suc.prems by (auto simp: write_levels.simps forest_single only_refl)
  next
    case False
    obtain r s1 where w: "write_level level [] [] nid s = (r, s1)" by (cases "write_level level [] [] nid s")
    have k76: "\<forall>c\<in>set level. length (ps_first_key c) \<le> 4076" using Suc.prems(4) by (auto simp: short_key_def)
    have wl: "only {unat nid..} s s1 \<and> (smooth s \<longrightarrow> r \<noteq> None) \<and>
        (\<forall>L nid'. r = Some (L, nid') \<longrightarrow> (\<exists>new. L = [] @ new \<and> level_written h ([] @ level) ls nid s new nid' s1))"
      using Suc.prems k76 False by (intro write_level_result [OF w]) (auto simp: node_fits_def index_consts)
    note st = Suc.prems(1) [unfolded write_levels.simps [of "Suc fuel"] if_not_P [OF False] nat.case w prod.case]
    show ?thesis
    proof (cases r)
      case None
      then show ?thesis using st wl by auto
    next
      case (Some x)
      obtain L nid1 where x: "r = Some (L, nid1)" using Some by (cases x) auto
      then have lw: "level_written h level ls nid s L nid1 s1" using wl by auto
      have rec: "write_levels fuel L nid1 (ht + 1) s1 = Some (res, s')" using st x by simp
      have n: "L \<noteq> []" "2 * length L \<le> length level + 1" "unat nid1 = unat nid + length L" "\<forall>c\<in>set L. short_key (ps_first_key c)"
        using lw Suc.prems(3,4) unfolding level_written_def by auto
      have IH: "only {unat nid1..} s1 s' \<and> (smooth s1 \<longrightarrow> res \<noteq> None) \<and>
          (\<forall>root nid' ht'. res = Some (root, nid', ht') \<longrightarrow> (\<exists>k. subtree (disk s') (unat nid') (Suc h + k) root ls \<and> ht' = ht + 1 + of_nat k \<and>
             unat nid1 \<le> unat nid' \<and> unat nid' \<le> unat nid1 + 2 * (length L - 1) \<and> (k = 0 \<or> 2 ^ (k - 1) < length L)))"
        using wl n Suc.prems(5) lw False by (intro Suc.IH [OF rec]) (auto simp: level_written_def only_def)
      have o: "only {unat nid..} s s'" by (rule only_mono [OF only_trans [OF conjunct1 [OF wl] conjunct1 [OF IH]]]) (use n in auto)
      have step: "\<exists>j. subtree (disk s') (unat nid') (h + j) root ls \<and> ht' = ht + of_nat j \<and>
             unat nid \<le> unat nid' \<and> unat nid' \<le> unat nid + 2 * (length level - 1) \<and> (j = 0 \<or> 2 ^ (j - 1) < length level)"
        if k: "subtree (disk s') (unat nid') (Suc h + k) root ls" "ht' = ht + 1 + of_nat k" "unat nid1 \<le> unat nid'"
          "unat nid' \<le> unat nid1 + 2 * (length L - 1)" "k = 0 \<or> 2 ^ (k - 1) < length L" for root nid' ht' k
      proof (intro exI [of _ "Suc k"] conjI)
        have "1 \<le> length L" using n(1) by (simp add: Suc_le_eq)
        then show "unat nid' \<le> unat nid + 2 * (length level - 1)" using k(4) n(2,3) False by simp
        have "2 * 2 ^ (k - 1) + 1 < 2 * length L" if "k \<noteq> 0" using k(5) that by simp
        then have "2 ^ k < length level" using n(2) False by (cases k) auto
        then show "Suc k = 0 \<or> 2 ^ (Suc k - 1) < length level" by simp
      qed (use k n in auto)
      show ?thesis using o IH wl step onlyD(4) [OF conjunct1 [OF wl]] by blast
    qed
  qed
qed

lemma write_levels_ends:
  assumes "length level \<le> 2 ^ fuel" "apart s" "level \<noteq> []" "\<forall>c\<in>set level. short_key (ps_first_key c)"
    "0 < unat nid \<and> unat nid + 2 * length level < 2 ^ 32" "forest (disk s) (unat nid) h level ls"
  shows "write_levels fuel level nid ht s \<noteq> None"
  using assms
proof (induction fuel arbitrary: level nid ht s h)
  case 0
  then show ?case by (simp add: write_levels.simps)
next
  case (Suc fuel)
  show ?case
  proof (cases "length level \<le> 1")
    case True then show ?thesis by (simp add: write_levels.simps)
  next
    case False
    obtain r s1 where w: "write_level level [] [] nid s = (r, s1)" by (cases "write_level level [] [] nid s")
    have k76: "\<forall>c\<in>set level. length (ps_first_key c) \<le> 4076" using Suc.prems(4) by (auto simp: short_key_def)
    have wl: "only {unat nid..} s s1 \<and> (smooth s \<longrightarrow> r \<noteq> None) \<and>
        (\<forall>L nid'. r = Some (L, nid') \<longrightarrow> (\<exists>new. L = [] @ new \<and> level_written h ([] @ level) ls nid s new nid' s1))"
      using Suc.prems k76 False by (intro write_level_result [OF w]) (auto simp: node_fits_def index_consts)
    have "write_levels fuel L nid1 ht' s1 \<noteq> None" if x: "r = Some (L, nid1)" for L nid1 ht'
    proof -
      have lw: "level_written h level ls nid s L nid1 s1" using wl x by auto
      have n: "L \<noteq> []" "2 * length L \<le> length level + 1" "unat nid1 = unat nid + length L" "\<forall>c\<in>set L. short_key (ps_first_key c)"
        using lw Suc.prems(3,4) unfolding level_written_def by auto
      have "length L \<le> 2 ^ fuel" using n(2) Suc.prems(1) by simp
      then show ?thesis using wl n Suc.prems(5) lw False by (intro Suc.IH) (auto simp: level_written_def only_def)
    qed
    then show ?thesis using False w by (cases r) (auto simp: write_levels.simps [of "Suc fuel"])
  qed
qed

section \<open>The whole file\<close>

definition stored :: "index_file \<Rightarrow> (nat \<Rightarrow> bytes) \<Rightarrow> bool" where
  "stored ix D \<longleftrightarrow> (\<exists>ls h r. leaves_ok ls (ix_entries ix) \<and> chain D (length ls) 0 ls \<and> length ls < unat (ix_page_count ix) \<and>
     unat (ix_page_count ix) < 2 ^ 32 - 1 \<and> subtree D (unat (ix_page_count ix)) h r (summaries 0 ls) \<and> ix_root ix = ps_page_id r \<and>
     h < 64 \<and> ix_height ix = of_nat (h + 1) \<and> D 0 = header_page (ix_root ix) (ix_page_count ix) (ix_height ix))"

definition short_entries :: "entry list \<Rightarrow> bool" where
  "short_entries es \<longleftrightarrow> (\<forall>e\<in>set es. short_key (fst e)) \<and> 3 * length es + 4 < 2 ^ 32 - 1"

lemma length_leaves: "leaves_ok ls es \<Longrightarrow> 1 \<le> length ls \<and> length ls \<le> length es + 1 \<and> (es \<noteq> [] \<longrightarrow> length ls \<le> length es)"
proof -
  assume l: "leaves_ok ls es"
  have "length ls \<le> length (concat ls)" if "[] \<notin> set ls" using that
  proof (induction ls)
    case (Cons l ls) then show ?case by (cases l) auto
  qed simp
  then show ?thesis using l by (cases "es = []") (auto simp: leaves_ok_def Suc_le_eq)
qed

lemma summaries_keys: "ps_first_key ` set (summaries i ls) \<subseteq> insert [] (fst ` set (concat ls))"
  by (induction ls arbitrary: i) (auto simp: first_key_def split: list.splits)

lemma length_summaries [simp]: "length (summaries i ls) = length ls"
  by (induction ls arbitrary: i) simp_all

lemma length_header_page [simp]: "length (header_page r c h) = PAGE_SIZE"
  by (simp add: header_page_def ix_write_uint16_def ix_write_uint32_def Let_def)

lemma two_power_small: "2 ^ (k - 1) < (n :: nat) \<Longrightarrow> n < 2 ^ 33 \<Longrightarrow> k < 64"
proof (rule ccontr)
  assume a: "2 ^ (k - 1) < n" "n < 2 ^ 33" "\<not> k < 64"
  have "(2 :: nat) ^ 33 \<le> 2 ^ (k - 1)" using a(3) by (intro power_increasing) auto
  then show False using a by linarith
qed

lemma write_pages_steps:
  assumes "apart s" "short_entries (ix_entries (fst s))"
  defines "ls \<equiv> split_leaf_entries (ix_entries (fst s))"
  shows "leaves_ok ls (ix_entries (fst s))" "3 * length ls + 1 < 2 ^ 32 - 1" "ls \<noteq> []"
    "write_leaves (length ls) 0 ls [] s = (res, s1) \<Longrightarrow>
       only {0 <..length ls} s s1 \<and> (\<forall>L. res = Some L \<longrightarrow> L = summaries 0 ls \<and> chain (disk s1) (length ls) 0 ls) \<and> (smooth s \<longrightarrow> res \<noteq> None)"
    "\<forall>c\<in>set (summaries 0 ls). short_key (ps_first_key c)" "unat (of_nat (length ls + 1) :: u32) = length ls + 1"
proof -
  have fit: "\<forall>e\<in>set (ix_entries (fst s)). entry_fits_empty_leaf e"
    using assms(2) by (auto simp: short_entries_def short_key_def entry_fits_empty_leaf_def index_consts)
  show ok: "leaves_ok ls (ix_entries (fst s))" unfolding ls_def by (rule split_leaf_entries_ok [OF fit])
  then show n: "3 * length ls + 1 < 2 ^ 32 - 1" "ls \<noteq> []" using length_leaves [OF ok] assms(2) by (auto simp: short_entries_def leaves_ok_def)
  show "unat (of_nat (length ls + 1) :: u32) = length ls + 1" using n by (intro unat_of_nat_u32) simp
  have "ps_first_key ` set (summaries 0 ls) \<subseteq> insert [] (fst ` set (ix_entries (fst s)))" using summaries_keys [of 0 ls] ok by (metis leaves_ok_def)
  then have "ps_first_key c \<in> insert [] (fst ` set (ix_entries (fst s)))" if "c \<in> set (summaries 0 ls)" for c
    using that by blast
  then have "short_key (ps_first_key c)" if "c \<in> set (summaries 0 ls)" for c
    using that assms(2) by (fastforce simp: short_entries_def short_key_def)
  then show "\<forall>c\<in>set (summaries 0 ls). short_key (ps_first_key c)" by blast
  show "only {0 <..length ls} s s1 \<and> (\<forall>L. res = Some L \<longrightarrow> L = summaries 0 ls \<and> chain (disk s1) (length ls) 0 ls) \<and> (smooth s \<longrightarrow> res \<noteq> None)"
    if "write_leaves (length ls) 0 ls [] s = (res, s1)"
    using write_leaves_result [OF that assms(1)] ok n by (auto simp: leaves_ok_def)
qed

lemma write_pages_result:
  assumes "write_pages fuel s = Some (ok, s')" "apart s" "short_entries (ix_entries (fst s))"
  shows "apart s'" "ix_entries (fst s') = ix_entries (fst s)" "ix_path (fst s') = ix_path (fst s)" "ix_txn (fst s') = ix_txn (fst s)"
    "ok \<Longrightarrow> stored (fst s') (disk s')" "smooth s \<Longrightarrow> ok \<and> smooth s'"
proof -
  let ?ls = "split_leaf_entries (ix_entries (fst s))"
  let ?P = "apart s' \<and> ix_entries (fst s') = ix_entries (fst s) \<and> ix_path (fst s') = ix_path (fst s) \<and> ix_txn (fst s') = ix_txn (fst s) \<and>
    (ok \<longrightarrow> stored (fst s') (disk s')) \<and> (smooth s \<longrightarrow> ok \<and> smooth s')"
  note b = write_pages_steps [OF assms(2,3)]
  obtain r s1 where w: "write_leaves (length ?ls) 0 ?ls [] s = (r, s1)" by (cases "write_leaves (length ?ls) 0 ?ls [] s")
  note l = b(4) [OF w]
  have o1: "only {0 <..length ?ls} s s1" using l by blast
  note st = assms(1) [unfolded write_pages_def Let_def if_not_P [OF b(3)] w prod.case]
  have ?P
  proof (cases r)
    case None
    then show ?thesis using st l o1 by (auto simp: only_def)
  next
    case (Some L)
    have L: "L = summaries 0 ?ls" "chain (disk s1) (length ?ls) 0 ?ls" using l Some by auto
    have fo: "forest (disk s1) (unat (of_nat (length ?ls + 1) :: u32)) 0 L L" unfolding b(6) L(1) by (rule forest_leaves [OF L(2)]) (use b(2) in auto)
    show ?thesis
    proof (cases "write_levels fuel L (of_nat (length ?ls + 1)) 1 s1")
      case None
      then show ?thesis using st Some by simp
    next
      case ws: (Some x)
      obtain res s2 where x: "write_levels fuel L (of_nat (length ?ls + 1)) 1 s1 = Some (res, s2)" using ws by (cases x) auto
      have wl: "only {length ?ls + 1..} s1 s2 \<and> (smooth s1 \<longrightarrow> res \<noteq> None) \<and>
        (\<forall>root nid' ht'. res = Some (root, nid', ht') \<longrightarrow> (\<exists>k. subtree (disk s2) (unat nid') (0 + k) root L \<and> ht' = 1 + of_nat k \<and>
           length ?ls + 1 \<le> unat nid' \<and> unat nid' \<le> length ?ls + 1 + 2 * (length L - 1) \<and> (k = 0 \<or> 2 ^ (k - 1) < length L)))"
        using write_levels_result [OF x onlyD(2) [OF o1] _ _ _ fo] b(2,3,5,6) L(1) by (auto simp: length_greater_0_conv [symmetric] simp del: length_greater_0_conv)
      have o2: "only {0 <..} s s2" by (rule only_mono [OF only_trans [OF o1 conjunct1 [OF wl]]]) auto
      show ?thesis
      proof (cases res)
        case None
        then show ?thesis using st Some x l wl o1 onlyD(4) [OF o1] o2 by (auto simp: only_def)
      next
        case (Some y)
        obtain root nid ht where y: "res = Some (root, nid, ht)" using Some by (cases y) auto
        obtain k where k: "subtree (disk s2) (unat nid) k root L" "ht = 1 + of_nat k" "length ?ls + 1 \<le> unat nid"
          "unat nid \<le> length ?ls + 1 + 2 * (length L - 1)" "k = 0 \<or> 2 ^ (k - 1) < length L" using wl y by auto
        obtain ix2 t2 where s2: "s2 = (ix2, t2)" by (cases s2)
        let ?ix = "ix2\<lparr>ix_root := ps_page_id root, ix_page_count := nid, ix_height := ht\<rparr>"
        have fin: "write_logged_page 0 (header_page (ix_root ?ix) (ix_page_count ?ix) (ix_height ?ix)) (?ix, t2) = (ok, s')"
          using st \<open>r = Some L\<close> x y s2 by (simp add: Let_def)
        have a2: "apart (?ix, t2)" "smooth (?ix, t2) \<longleftrightarrow> smooth s2" "disk (?ix, t2) = disk s2" using onlyD(2) [OF o2] by (auto simp: s2 apart_def smooth_def disk_def)
        note f = write_logged_page_result [OF fin a2(1), simplified a2]
        have ix': "fst s' = ?ix" using onlyD(1) [OF f(1)] by simp
        have ix2: "ix2 = fst s" using onlyD(1) [OF o2] s2 by simp
        have d: "disk s' j = disk s2 j" if "0 < j" for j using onlyD(3) [OF f(1), of j] that a2(3) by simp
        have "stored (fst s') (disk s')" if ok
        proof -
          have ch: "chain (disk s') (length ?ls) 0 ?ls"
            by (rule chain_cong [OF _ L(2)]) (use d onlyD(3) [OF conjunct1 [OF wl]] in auto)
          have "disk s' 0 = header_page (ps_page_id root) nid ht" using f(2) that by simp
          moreover have "subtree (disk s') (unat nid) k root (summaries 0 ?ls)"
            by (rule subtree_mono [OF k(1) [unfolded L(1)] order_refl]) (use d in auto)
          moreover have "k < 64" using k(5) two_power_small [of k "length L"] b(2) L(1) by auto
          ultimately show ?thesis using ch b(1,2) k L(1) unfolding stored_def ix' ix2
            by (intro exI [of _ ?ls] exI [of _ k] exI [of _ root]) (auto)
        qed
        moreover have "smooth s \<longrightarrow> ok \<and> smooth s'" using f(3) a2 onlyD(4) [OF f(1)] onlyD(4) [OF o2] by simp
        ultimately show ?thesis using onlyD(2) [OF f(1)] ix' ix2 by simp
      qed
    qed
  qed
  then show "apart s'" "ix_entries (fst s') = ix_entries (fst s)" "ix_path (fst s') = ix_path (fst s)" "ix_txn (fst s') = ix_txn (fst s)"
    "ok \<Longrightarrow> stored (fst s') (disk s')" "smooth s \<Longrightarrow> ok \<and> smooth s'" by auto
qed

lemma write_pages_ends:
  assumes "apart s" "short_entries (ix_entries (fst s))" "32 \<le> fuel"
  shows "\<exists>ok s'. write_pages fuel s = Some (ok, s')"
proof -
  let ?ls = "split_leaf_entries (ix_entries (fst s))"
  note b = write_pages_steps [OF assms(1,2)]
  obtain r s1 where w: "write_leaves (length ?ls) 0 ?ls [] s = (r, s1)" by (cases "write_leaves (length ?ls) 0 ?ls [] s")
  note l = b(4) [OF w]
  have o1: "only {0 <..length ?ls} s s1" using l by blast
  have "write_pages fuel s \<noteq> None"
  proof (cases r)
    case None
    then show ?thesis using w b(3) by (simp add: write_pages_def Let_def)
  next
    case (Some L)
    have L: "L = summaries 0 ?ls" "chain (disk s1) (length ?ls) 0 ?ls" using l Some by auto
    have fo: "forest (disk s1) (unat (of_nat (length ?ls + 1) :: u32)) 0 L L" unfolding b(6) L(1) by (rule forest_leaves [OF L(2)]) (use b(2) in auto)
    have "(2 :: nat) ^ 32 \<le> 2 ^ fuel" using assms(3) by (intro power_increasing) auto
    then have "length L \<le> 2 ^ fuel" using b(2) L(1) by simp
    then have "write_levels fuel L (of_nat (length ?ls + 1)) 1 s1 \<noteq> None"
      using b(2,3,5,6) L(1) onlyD(2) [OF o1] fo by (intro write_levels_ends) (auto simp: length_greater_0_conv [symmetric] simp del: length_greater_0_conv)
    then obtain x ix t where x: "write_levels fuel L (of_nat (length ?ls + 1)) 1 s1 = Some (x, ix, t)" by (auto simp: split_paired_Ex)
    show ?thesis using w b(3) Some x by (cases x) (simp_all add: write_pages_def Let_def del: not_None_eq split: prod.splits)
  qed
  then show ?thesis by auto
qed

section \<open>Long keys\<close>

text \<open>No two keys of more than 2038 bytes fit into one inner page: a level of such keys is copied to the next level for ever.\<close>

lemma not_two_fit: "\<not> short_key (ps_first_key a) \<Longrightarrow> \<not> short_key (ps_first_key b) \<Longrightarrow> \<not> node_fits [a, b]"
  by (simp add: node_fits_def short_key_def index_consts)

lemma smooth_apart: "smooth s \<Longrightarrow> apart s"
  by (simp add: smooth_def apart_def)

lemma flush_internal_long:
  assumes "length (ps_first_key c) \<le> 4076" "smooth s"
  obtains d nid' s' where "flush_internal [c] nid s = (Some ([d], nid'), s')" "ps_first_key d = ps_first_key c" "smooth s'"
proof -
  obtain pg where pg: "internal_page [c] = Some pg" "node_at pg [c]" using internal_page_ok [of "[c]"] one_fits [OF assms(1)] by (auto simp: node_fits_def)
  obtain ok s' where w: "write_logged_page nid pg s = (ok, s')" by (cases "write_logged_page nid pg s")
  note r = write_logged_page_result [OF w smooth_apart [OF assms(2)]]
  have "ok" "smooth s'" using r(3) onlyD(4) [OF r(1)] assms(2) pg(2) by (simp_all add: node_at_def)
  then show ?thesis using that [of "\<lparr> ps_page_id = nid, ps_first_key = ps_first_key c \<rparr>" "nid + 1" s'] pg(1) w by (simp add: flush_internal_def)
qed

definition long_summary :: "page_summary \<Rightarrow> bool" where
  "long_summary c \<longleftrightarrow> \<not> short_key (ps_first_key c) \<and> length (ps_first_key c) \<le> 4076"

lemma write_level_long:
  "\<forall>d\<in>set (c # rest). long_summary d \<Longrightarrow> smooth s \<Longrightarrow>
   \<exists>L nid' s'. write_level rest [c] nl nid s = (Some (nl @ L, nid'), s') \<and> smooth s' \<and> map ps_first_key L = map ps_first_key (c # rest)"
proof (induction rest arbitrary: c nl nid s)
  case Nil
  have c76: "length (ps_first_key c) \<le> 4076" using Nil(1) by (simp add: long_summary_def)
  obtain d nid' s' where "flush_internal [c] nid s = (Some ([d], nid'), s')" "ps_first_key d = ps_first_key c" "smooth s'"
    using flush_internal_long [OF c76 Nil(2)] by metis
  then show ?case by auto
next
  case (Cons e rest)
  have ov: "PAGE_SIZE < unat (children_size ([c] @ [e]))"
    using overflow_iff [OF one_fits, of c e] not_two_fit [of c e] Cons.prems(1) by (simp add: long_summary_def)
  have c76: "length (ps_first_key c) \<le> 4076" using Cons.prems(1) by (simp add: long_summary_def)
  obtain d nid1 s1 where f: "flush_internal [c] nid s = (Some ([d], nid1), s1)" "ps_first_key d = ps_first_key c" "smooth s1"
    using flush_internal_long [OF c76 Cons.prems(2)] by metis
  obtain L nid' s' where L: "write_level rest [e] (nl @ [d]) nid1 s1 = (Some ((nl @ [d]) @ L, nid'), s')" "smooth s'" "map ps_first_key L = map ps_first_key (e # rest)"
    using Cons.IH [of e s1 "nl @ [d]" nid1] Cons.prems(1) f(3) by auto
  then show ?case using ov f by (intro exI [of _ "d # L"]) simp
qed

lemma write_levels_long:
  "2 \<le> length level \<Longrightarrow> \<forall>d\<in>set level. long_summary d \<Longrightarrow> smooth s \<Longrightarrow> write_levels fuel level nid ht s = None"
proof (induction fuel arbitrary: level nid ht s)
  case 0
  then show ?case by (simp add: write_levels.simps)
next
  case (Suc fuel)
  obtain c rest where lv: "level = c # rest" using Suc.prems(1) by (cases level) auto
  have sm: "\<not> PAGE_SIZE < unat (children_size ([] @ [c]))"
    using overflow_iff [of "[]" c] one_fits [of c] Suc.prems(2) lv by (simp add: node_fits_def index_consts long_summary_def)
  obtain L nid1 s1 where L: "write_level rest [c] [] nid s = (Some ([] @ L, nid1), s1)" "smooth s1" "map ps_first_key L = map ps_first_key level"
    using write_level_long [of c rest s "[]" nid] Suc.prems(2,3) lv by blast
  have k: "ps_first_key d \<in> ps_first_key ` set level" if "d \<in> set L" for d using that L(3) by (metis image_eqI set_map)
  have "2 \<le> length L" using Suc.prems(1) arg_cong [OF L(3), of length] by simp
  moreover have "\<forall>d\<in>set L. long_summary d" using k Suc.prems(2) unfolding long_summary_def by fastforce
  ultimately have "write_levels fuel L nid1 (ht + 1) s1 = None" using L(2) by (rule Suc.IH)
  moreover have "\<not> length level \<le> 1" using Suc.prems(1) by simp
  ultimately show ?case using sm L(1) by (simp only: write_levels.simps [of "Suc fuel"]) (simp add: lv)
qed

lemma split_leaf_loop_long:
  "\<forall>e\<in>set (a # es). 2038 < length (fst e) \<and> length (fst e) \<le> 4076 \<Longrightarrow> split_leaf_loop ls [a] es = ls @ map (\<lambda>e. [e]) (a # es)"
proof (induction es arbitrary: ls a)
  case (Cons e es)
  have fit: "entry_fits_empty_leaf e" using Cons.prems by (simp add: entry_fits_empty_leaf_def index_consts)
  have "unat (encoded_size [a, e]) = leaf_size [a, e]" using Cons.prems by (intro encoded_size_unat) (simp add: leaf_size_def index_consts)
  then have "PAGE_SIZE < unat (encoded_size ([a] @ [e]))" using Cons.prems by (simp add: leaf_size_def index_consts)
  then show ?case using Cons.IH [of e "ls @ [[a]]"] Cons.prems fit by simp
qed simp

lemma split_leaf_long:
  assumes "\<forall>e\<in>set es. 2038 < length (fst e) \<and> length (fst e) \<le> 4076" "es \<noteq> []"
  shows "split_leaf_entries es = map (\<lambda>e. [e]) es"
proof -
  obtain a es' where es: "es = a # es'" using assms(2) by (cases es) auto
  have fit: "entry_fits_empty_leaf a" using assms(1) es by (simp add: entry_fits_empty_leaf_def index_consts)
  have "unat (encoded_size ([] @ [a])) = leaf_size [a]" using assms(1) es by (simp add: encoded_size_unat leaf_size_def index_consts)
  then have "\<not> PAGE_SIZE < unat (encoded_size ([] @ [a]))" using fit by (simp add: entry_fits_empty_leaf_def index_consts)
  then show ?thesis using split_leaf_loop_long [of a es' "[]"] assms(1) fit es by (simp add: split_leaf_entries_def)
qed

lemma write_leaves_keys:
  "smooth s \<Longrightarrow> \<forall>l\<in>set ls. leaf_size l \<le> PAGE_SIZE \<Longrightarrow>
   \<exists>L s'. write_leaves n i ls level s = (Some L, s') \<and> smooth s' \<and> map ps_first_key L = map ps_first_key level @ map first_key ls"
proof (induction ls arbitrary: i level s)
  case (Cons l ls)
  let ?next = "if i + 1 \<ge> n then NO_PAGE else of_nat (i + 2) :: u32"
  obtain pg where pg: "leaf_page ?next l = Some pg" "leaf_at pg ?next l" using Cons.prems(2) by (auto intro: leaf_page_ok [of l ?next])
  obtain ok s1 where w: "write_logged_page (of_nat (i + 1)) pg s = (ok, s1)" by (cases "write_logged_page (of_nat (i + 1)) pg s")
  note r = write_logged_page_result [OF w smooth_apart [OF Cons.prems(1)]]
  have ok: "ok" "smooth s1" using r(3) onlyD(4) [OF r(1)] Cons.prems(1) pg(2) by (simp_all add: leaf_at_def)
  let ?s = "\<lparr> ps_page_id = of_nat (i + 1), ps_first_key = first_key l \<rparr>"
  obtain L s' where "write_leaves n (i + 1) ls (level @ [?s]) s1 = (Some L, s')" "smooth s'" "map ps_first_key L = map ps_first_key (level @ [?s]) @ map first_key ls"
    using Cons.IH [OF ok(2), of "i + 1" "level @ [?s]"] Cons.prems(2) by auto
  then show ?case using pg(1) w ok by (simp add: Let_def first_key_def)
qed simp

lemma write_pages_long:
  assumes "smooth s" "2 \<le> length (ix_entries (fst s))" "\<forall>e\<in>set (ix_entries (fst s)). 2038 < length (fst e) \<and> length (fst e) \<le> 4076"
  shows "write_pages fuel s = None"
proof -
  let ?es = "ix_entries (fst s)" and ?ls = "map (\<lambda>e. [e]) (ix_entries (fst s))"
  have ne: "?es \<noteq> []" using assms(2) by auto
  have sp: "split_leaf_entries ?es = ?ls" by (rule split_leaf_long [OF assms(3) ne])
  obtain L s' where L: "write_leaves (length ?ls) 0 ?ls [] s = (Some L, s')" "smooth s'" "map ps_first_key L = map first_key ?ls"
    using write_leaves_keys [OF assms(1), of ?ls "length ?ls" 0 "[]"] assms(3) by (auto simp: index_consts)
  have m: "map ps_first_key L = map fst ?es" using L(3) by (simp add: first_key_def)
  have "2 \<le> length L" using assms(2) arg_cong [OF m, of length] by simp
  moreover have "\<forall>d\<in>set L. long_summary d"
  proof
    fix d assume "d \<in> set L"
    then have "ps_first_key d \<in> fst ` set ?es" using m by (metis image_eqI set_map)
    then show "long_summary d" using assms(3) by (fastforce simp: long_summary_def short_key_def)
  qed
  ultimately have "write_levels fuel L (of_nat (length ?ls + 1)) 1 s' = None" using L(2) by (rule write_levels_long)
  then show ?thesis using sp L(1) ne by (simp add: write_pages_def Let_def)
qed

end
