(* ===== verification/Index_Search.thy ===== *)
theory Index_Search
  imports Index_Tree Wal_Recovery
begin

text \<open>
  Reading an index file that \<^verbatim>\<open>write_pages\<close> has written: \<^verbatim>\<open>load\<close> returns the entries, the descent from the root finds
  the last leaf whose first key is not greater than the key looked for, and the scans from there return the record ids of
  the matching entries.
\<close>

section \<open>Choosing a leaf\<close>

lemma pick_simps [simp]:
  "pick f key [c] = c" "pick f key (c # d # cs) = (if f d \<le> key then pick f key (d # cs) else c)"
  by (simp_all add: pick_def)

lemma pick_append:
  "seg \<noteq> [] \<Longrightarrow> rest \<noteq> [] \<Longrightarrow> sorted (map f (seg @ rest)) \<Longrightarrow> pick f key (seg @ rest) = (if f (hd rest) \<le> key then pick f key rest else pick f key seg)"
proof (induction seg rule: list_nonempty_induct)
  case (single a)
  then show ?case by (cases rest) simp_all
next
  case (cons a seg)
  obtain b t where seg: "seg = b # t" using cons.hyps by (cases seg) auto
  have "f b \<le> f (hd rest)" using cons.prems seg by (cases rest) auto
  then have "f (hd rest) \<le> key \<Longrightarrow> f b \<le> key" by (rule order_trans)
  then show ?case using cons.IH cons.prems seg by (cases "f b \<le> key") auto
qed

lemma pick_concat:
  "list_all2 (\<lambda>c seg. seg \<noteq> [] \<and> f c = g (hd seg)) cs segs \<Longrightarrow> cs \<noteq> [] \<Longrightarrow> sorted (map g (concat segs)) \<Longrightarrow>
   \<exists>j<length cs. pick f key cs = cs ! j \<and> pick g key (concat segs) = pick g key (segs ! j)"
proof (induction rule: list_all2_induct)
  case (Cons c cs seg segs)
  show ?case
  proof (cases "cs = []")
    case True
    then show ?thesis using Cons.hyps by auto
  next
    case False
    then obtain d ds sd sds where d: "cs = d # ds" "segs = sd # sds" "sd \<noteq> []" "f d = g (hd sd)" using Cons.hyps(2) by (cases cs; cases segs) auto
    from Cons.IH [OF False] Cons.prems obtain j where j: "j < length cs" "pick f key cs = cs ! j" "pick g key (concat segs) = pick g key (segs ! j)"
      by (auto simp: sorted_append)
    have p: "pick g key (seg @ concat segs) = (if g (hd (concat segs)) \<le> key then pick g key (concat segs) else pick g key seg)"
      using Cons.hyps(1) Cons.prems(2) d by (intro pick_append) auto
    show ?thesis
    proof (cases "f d \<le> key")
      case True then show ?thesis using j p d by (intro exI [of _ "Suc j"]) auto
    next
      case f: False then show ?thesis using p d by (intro exI [of _ 0]) auto
    qed
  qed
qed simp

lemma pick_spec:
  "xs \<noteq> [] \<Longrightarrow> sorted (map f xs) \<Longrightarrow>
   \<exists>j<length xs. pick f key xs = xs ! j \<and> (0 < j \<longrightarrow> f (xs ! j) \<le> key) \<and> (\<forall>i. j < i \<longrightarrow> i < length xs \<longrightarrow> key < f (xs ! i))"
proof (induction xs rule: list_nonempty_induct)
  case (cons a xs)
  obtain b t where xs: "xs = b # t" using cons.hyps by (cases xs) auto
  show ?case
  proof (cases "f b \<le> key")
    case True
    obtain j where j: "j < length xs" "pick f key xs = xs ! j" "0 < j \<longrightarrow> f (xs ! j) \<le> key" "\<forall>i. j < i \<longrightarrow> i < length xs \<longrightarrow> key < f (xs ! i)"
      using cons by auto
    have "f (xs ! j) \<le> key" using j(3) True xs by (cases j) auto
    then show ?thesis using j True xs by (intro exI [of _ "Suc j"]) (auto simp: less_Suc_eq_0_disj nth_Cons split: nat.splits)
  next
    case False
    have "key < f (xs ! i)" if "i < length xs" for i
    proof -
      have "f b \<le> f (xs ! i)" using cons.prems that xs by (cases i) auto
      then show ?thesis using False by simp
    qed
    then show ?thesis using False xs by (intro exI [of _ 0]) (auto simp: nth_Cons split: nat.splits)
  qed
qed simp

lemma subtree_first: "subtree D N h c ls \<Longrightarrow> ls \<noteq> [] \<and> ps_first_key c = ps_first_key (hd ls)"
proof (induction h arbitrary: c ls)
  case (Suc h)
  then obtain cs segs where c: "cs \<noteq> []" "list_all2 (subtree D N h) cs segs" "ls = concat segs" "ps_first_key c = ps_first_key (hd cs)"
    by (auto simp: subtree.simps(2))
  then obtain d ds sd sds where d: "cs = d # ds" "segs = sd # sds" "subtree D N h d sd" by (cases cs; cases segs) auto
  show ?case using Suc.IH [OF d(3)] c d by auto
qed auto

lemma subtree_sum_pages: "subtree D N h c ls \<Longrightarrow> 0 < unat (ps_page_id c) \<and> unat (ps_page_id c) < N"
  by (cases h) (auto simp: subtree.simps(2))

section \<open>Reading pages\<close>

abbreviation reads :: "world \<Rightarrow> world \<Rightarrow> bool" where
  "reads w w' \<equiv> same_data w w' \<and> calm w'"

lemma ix_full_read_calm:
  assumes "calm w"
  obtains w' where "ix_full_read p pid w = (Some (page_bytes w p (unat pid)), w')" "reads w w'" "\<And>i. page_bytes w' p i = page_bytes w p i"
proof -
  obtain r w' where r: "ix_full_read p pid w = (r, w')" by (cases "ix_full_read p pid w")
  note f = ix_full_read_result [OF r]
  show ?thesis using that [of w'] r f assms page_bytes_cong [OF same_data_contents [OF f(1)]] by simp
qed

lemma not_NO_PAGE: "unat pid < 2 ^ 32 - 1 \<Longrightarrow> pid \<noteq> NO_PAGE"
  by (auto simp: NO_PAGE_def)

lemma find_leaf_page_ok:
  "subtree (page_bytes w p) N h c ls \<Longrightarrow> sorted (map ps_first_key ls) \<Longrightarrow> N \<le> unat pc \<Longrightarrow> unat pc < 2 ^ 32 - 1 \<Longrightarrow> calm w \<Longrightarrow> h < fuel \<Longrightarrow>
   \<exists>w'. find_leaf_page fuel p pc key (ps_page_id c) w = Some (ps_page_id (pick ps_first_key key ls), w') \<and> reads w w'"
proof (induction h arbitrary: fuel c ls w)
  case 0
  obtain f where f: "fuel = Suc f" using 0 by (cases fuel) auto
  have c: "ls = [c]" "unat (ps_page_id c) < N" using 0 by auto
  from 0 obtain nx es where lf: "leaf_at (page_bytes w p (unat (ps_page_id c))) nx es" by auto
  obtain w' where r: "ix_full_read p (ps_page_id c) w = (Some (page_bytes w p (unat (ps_page_id c))), w')" "reads w w'" using ix_full_read_calm [OF 0(5)] by metis
  have "\<not> pc \<le> ps_page_id c" "ps_page_id c \<noteq> NO_PAGE" using c 0(3,4) not_NO_PAGE by (auto simp: word_le_nat_alt)
  then show ?case using r lf c by (simp add: f find_leaf_page.simps leaf_at_def)
next
  case (Suc h)
  obtain f where f: "fuel = Suc f" "h < f" using Suc.prems(6) by (cases fuel) auto
  let ?D = "page_bytes w p" and ?pg = "page_bytes w p (unat (ps_page_id c))"
  from Suc.prems(1) obtain cs segs where c: "unat (ps_page_id c) < N" "cs \<noteq> []" "node_at ?pg cs" "list_all2 (subtree ?D N h) cs segs" "ls = concat segs"
    by (auto simp: subtree.simps(2))
  obtain w1 where r: "ix_full_read p (ps_page_id c) w = (Some ?pg, w1)" "reads w w1" "\<And>i. page_bytes w1 p i = ?D i"
    using ix_full_read_calm [OF Suc.prems(5)] by metis
  have D: "page_bytes w1 p = ?D" using r(3) by blast
  have "list_all2 (\<lambda>c seg. seg \<noteq> [] \<and> ps_first_key c = ps_first_key (hd seg)) cs segs" using c(4) by (rule list_all2_mono) (rule subtree_first)
  from pick_concat [OF this c(2), of key] Suc.prems(2) c(5) obtain j where j: "j < length cs" "pick ps_first_key key cs = cs ! j"
    "pick ps_first_key key ls = pick ps_first_key key (segs ! j)" by auto
  have sj: "subtree (page_bytes w1 p) N h (cs ! j) (segs ! j)" "segs ! j \<in> set segs" using c(4) j(1) D by (auto simp: list_all2_conv_all_nth)
  obtain pre post where split: "segs = pre @ segs ! j # post" using sj(2) by (metis split_list)
  have "sorted (map ps_first_key (segs ! j))" using Suc.prems(2) unfolding c(5) by (subst (asm) split) (simp add: sorted_append)
  from Suc.IH [OF sj(1) this Suc.prems(3,4) conjunct2 [OF r(2)] f(2)] obtain w2 where
    w2: "find_leaf_page f p pc key (ps_page_id (cs ! j)) w1 = Some (ps_page_id (pick ps_first_key key (segs ! j)), w2)" "reads w1 w2" by auto
  have n: "\<not> pc \<le> ps_page_id c" "ps_page_id c \<noteq> NO_PAGE" using c(1) Suc.prems(3,4) not_NO_PAGE by (auto simp: word_le_nat_alt)
  have nd: "ix_read_uint32 ?pg 0 = INDEX_MAGIC" "?pg ! 4 = PAGE_TYPE_INTERNAL" "unat (ix_read_uint16 ?pg 5) = length cs" "block_at ?pg INTERNAL_HEADER_SIZE (enc_children cs)"
    using c(3) by (simp_all add: node_at_def)
  have nz: "ix_read_uint16 ?pg 5 \<noteq> 0" using nd(3) c(2) by (auto simp: u16_zero_iff)
  have ty: "PAGE_TYPE_INTERNAL \<noteq> PAGE_TYPE_LEAF" by (simp add: PAGE_TYPE_INTERNAL_def PAGE_TYPE_LEAF_def)
  have "find_leaf_page fuel p pc key (ps_page_id c) w = find_leaf_page f p pc key (ps_page_id (cs ! j)) w1"
    using select_child_ok [OF nd(4) c(2), of key NO_PAGE] nz ty n r(1) nd(1-3) j(2) by (simp add: f(1) find_leaf_page.simps [of "Suc f"])
  then show ?case using w2 j(3) r(2) same_data_trans by auto
qed

section \<open>Scanning the leaves\<close>

definition hits :: "index_key \<Rightarrow> entry list \<Rightarrow> (u32 \<times> u16) list" where
  "hits key es = map snd (filter (\<lambda>e. fst e = key) es)"

lemma hits_simps [simp]: "hits key [] = []" "hits key (es @ fs) = hits key es @ hits key fs"
  by (simp_all add: hits_def)

lemma find_abs_sorted:
  "sorted (map fst es) \<Longrightarrow> find_abs key es res m =
     (if \<exists>e\<in>set es. key < fst e then Scan_return (res @ hits key es) else Scan_end (res @ hits key es) (m \<or> hits key es \<noteq> []))"
proof (induction key es res m rule: find_abs.induct)
  case (2 key k rid es res m)
  consider "k = key" | "key < k" | "k < key" by force
  then show ?case
  proof cases
    case 2
    then have "hits key ((k, rid) # es) = []" using \<open>sorted _\<close> by (auto simp: hits_def filter_empty_conv)
    then show ?thesis using 2 by auto
  qed (use 2 in \<open>auto simp: hits_def\<close>)
qed simp

lemma range_abs_append:
  "range_abs lo hi (es @ fs) res = (case range_abs lo hi es res of Scan_end r _ \<Rightarrow> range_abs lo hi fs r | x \<Rightarrow> x)"
  by (induction lo hi es res rule: range_abs.induct) auto

fun scan_result :: "scan \<Rightarrow> (u32 \<times> u16) list" where
  "scan_result Scan_fail = []" | "scan_result (Scan_return r) = r" | "scan_result (Scan_end r _) = r"

lemma range_abs_sorted:
  "sorted (map fst es) \<Longrightarrow> \<forall>k k'. hi k \<longrightarrow> k \<le> k' \<longrightarrow> hi k' \<Longrightarrow>
     scan_result (range_abs lo hi es res) = res @ map snd (filter (\<lambda>e. \<not> lo (fst e) \<and> \<not> hi (fst e)) es)"
proof (induction lo hi es res rule: range_abs.induct)
  case (2 lo hi k rid es res)
  have "filter (\<lambda>e. \<not> lo (fst e) \<and> \<not> hi (fst e)) es = []" if "hi k"
    using that 2(3,4) by (auto simp: filter_empty_conv)
  then show ?case using 2 by auto
qed simp

lemma leafD:
  assumes "leaf_at pg nx es"
  shows "ix_read_uint32 pg 0 = INDEX_MAGIC" "pg ! 4 = PAGE_TYPE_LEAF" "ix_read_uint32 pg 5 = nx"
    "find_in_leaf pg key (unat (ix_read_uint16 pg 9)) LEAF_HEADER_SIZE res m = find_abs key es res m"
    "range_in_leaf pg lo hi (unat (ix_read_uint16 pg 9)) LEAF_HEADER_SIZE res = range_abs lo hi es res"
    "load_entries pg (unat (ix_read_uint16 pg 9)) LEAF_HEADER_SIZE acc = Some (acc @ es)"
  using assms by (simp_all add: leaf_at_def find_in_leaf_ok range_in_leaf_ok load_entries_ok)

text \<open>Page \<open>i + 1\<close> is read, and the chain continues on the next page.\<close>

lemma chain_read:
  assumes "chain (page_bytes w p) n i (l # ls)" "n = i + length (l # ls)" "n + 1 < 2 ^ 32 - 1" "calm w"
  obtains pg w' where "ix_full_read p (of_nat (i + 1)) w = (Some pg, w')" "reads w w'" "(of_nat (i + 1) :: u32) \<noteq> NO_PAGE"
    "leaf_at pg (if ls = [] then NO_PAGE else of_nat (i + 2)) l" "chain (page_bytes w' p) n (i + 1) ls"
proof -
  have pid: "unat (of_nat (i + 1) :: u32) = i + 1" using assms(2,3) by (intro unat_of_nat_u32) simp
  obtain w' where r: "ix_full_read p (of_nat (i + 1)) w = (Some (page_bytes w p (i + 1)), w')" "reads w w'" "\<And>i. page_bytes w' p i = page_bytes w p i"
    using ix_full_read_calm [OF assms(4), of p "of_nat (i + 1)"] unfolding pid by metis
  have "(of_nat (i + 1) :: u32) \<noteq> NO_PAGE" using not_NO_PAGE [of "of_nat (i + 1)"] pid assms(2,3) by simp
  moreover have "leaf_at (page_bytes w p (i + 1)) (if ls = [] then NO_PAGE else of_nat (i + 2)) l" using assms(1,2) by (cases ls) auto
  moreover have "chain (page_bytes w' p) n (i + 1) ls" using assms(1) ext [of "page_bytes w' p", OF r(3)] by simp
  ultimately show ?thesis using that [OF r(1,2)] by blast
qed

lemma load_leaves_ok:
  "chain (page_bytes w p) n i ls \<Longrightarrow> ls \<noteq> [] \<Longrightarrow> n = i + length ls \<Longrightarrow> n < unat pc \<Longrightarrow> unat pc < 2 ^ 32 - 1 \<Longrightarrow> calm w \<Longrightarrow> length ls \<le> fuel \<Longrightarrow>
   \<exists>w'. load_leaves fuel p pc (of_nat (i + 1)) es w = Some (Some (es @ concat ls), w') \<and> reads w w'"
proof (induction ls arbitrary: i es w fuel)
  case (Cons l ls)
  obtain f where f: "fuel = Suc f" "length ls \<le> f" using Cons.prems(7) by (cases fuel) auto
  have b: "n + 1 < 2 ^ 32 - 1" using Cons.prems(4,5) by linarith
  obtain pg w1 where r: "ix_full_read p (of_nat (i + 1)) w = (Some pg, w1)" "reads w w1" "(of_nat (i + 1) :: u32) \<noteq> NO_PAGE"
    "leaf_at pg (if ls = [] then NO_PAGE else of_nat (i + 2)) l" "chain (page_bytes w1 p) n (i + 1) ls"
    using chain_read [OF Cons.prems(1,3) b Cons.prems(6)] by blast
  have "unat (of_nat (i + 1) :: u32) = i + 1" using Cons.prems(3-5) by (intro unat_of_nat_u32) simp
  then have pc: "\<not> pc \<le> of_nat (i + 1)" using Cons.prems(3,4) by (simp add: word_le_nat_alt)
  have st: "load_leaves fuel p pc (of_nat (i + 1)) es w = load_leaves f p pc (if ls = [] then NO_PAGE else of_nat (i + 2)) (es @ l) w1"
    using r(1,3) pc leafD [OF r(4)] by (simp add: f(1) load_leaves.simps [of "Suc f"])
  show ?case
  proof (cases "ls = []")
    case True
    then show ?thesis using st r(2) by (simp add: load_leaves.simps)
  next
    case False
    from Cons.IH [OF r(5) False _ Cons.prems(4,5) conjunct2 [OF r(2)] f(2), of "es @ l"] Cons.prems(3) obtain w2 where
      "load_leaves f p pc (of_nat (i + 1 + 1)) (es @ l) w1 = Some (Some ((es @ l) @ concat ls), w2)" "reads w1 w2" by auto
    then show ?thesis using st r(2) False same_data_trans by (auto simp: numeral_2_eq_2)
  qed
qed simp

lemma range_leaves_ok:
  "chain (page_bytes w p) n i ls \<Longrightarrow> ls \<noteq> [] \<Longrightarrow> n = i + length ls \<Longrightarrow> n + 1 < 2 ^ 32 - 1 \<Longrightarrow> calm w \<Longrightarrow> length ls \<le> fuel \<Longrightarrow>
   \<exists>w'. range_leaves fuel p lo hi (of_nat (i + 1)) res w = Some (scan_result (range_abs lo hi (concat ls) res), w') \<and> reads w w'"
proof (induction ls arbitrary: i res w fuel)
  case (Cons l ls)
  obtain f where f: "fuel = Suc f" "length ls \<le> f" using Cons.prems(6) by (cases fuel) auto
  obtain pg w1 where r: "ix_full_read p (of_nat (i + 1)) w = (Some pg, w1)" "reads w w1" "(of_nat (i + 1) :: u32) \<noteq> NO_PAGE"
    "leaf_at pg (if ls = [] then NO_PAGE else of_nat (i + 2)) l" "chain (page_bytes w1 p) n (i + 1) ls"
    using chain_read [OF Cons.prems(1,3,4,5)] by blast
  have st: "range_leaves fuel p lo hi (of_nat (i + 1)) res w = (case range_abs lo hi l res of
      Scan_fail \<Rightarrow> Some ([], w1) | Scan_return r \<Rightarrow> Some (r, w1)
    | Scan_end r _ \<Rightarrow> range_leaves f p lo hi (if ls = [] then NO_PAGE else of_nat (i + 2)) r w1)"
    using r(1,3) leafD(1,2,3,5) [OF r(4)] by (simp add: f(1) range_leaves.simps [of "Suc f"] split: scan.split)
  show ?case
  proof (cases "range_abs lo hi l res")
    case (Scan_end r1 m)
    show ?thesis
    proof (cases "ls = []")
      case True
      then show ?thesis using st r(2) Scan_end by (simp add: range_leaves.simps)
    next
      case False
      from Cons.IH [OF r(5) False _ Cons.prems(4) conjunct2 [OF r(2)] f(2), of r1] Cons.prems(3) obtain w2 where
        "range_leaves f p lo hi (of_nat (i + 1 + 1)) r1 w1 = Some (scan_result (range_abs lo hi (concat ls) r1), w2)" "reads w1 w2" by auto
      then show ?thesis using st r(2) False same_data_trans Scan_end by (auto simp: numeral_2_eq_2 range_abs_append)
    qed
  qed (use st r(2) in \<open>auto simp: range_abs_append\<close>)
qed simp

text \<open>An exact lookup stops in the first leaf, or at the first entry of the next one.\<close>

lemma find_leaves_ok:
  assumes "chain (page_bytes w p) n i (l # ls)" "n = i + length (l # ls)" "n + 1 < 2 ^ 32 - 1" "calm w" "2 \<le> fuel" "sorted (map fst (concat (l # ls)))"
    "\<forall>l'\<in>set ls. l' \<noteq> [] \<and> key < first_key l'"
  shows "\<exists>w'. find_leaves fuel p key (of_nat (i + 1)) [] w = Some (hits key l, w') \<and> reads w w'"
proof -
  obtain f where f: "fuel = Suc (Suc f)" using assms(5) by (metis Suc_le_D numeral_2_eq_2 le_SucE Suc_n_not_le_n old.nat.exhaust)
  obtain pg w1 where r: "ix_full_read p (of_nat (i + 1)) w = (Some pg, w1)" "reads w w1" "(of_nat (i + 1) :: u32) \<noteq> NO_PAGE"
    "leaf_at pg (if ls = [] then NO_PAGE else of_nat (i + 2)) l" "chain (page_bytes w1 p) n (i + 1) ls"
    using chain_read [OF assms(1-4)] by blast
  have so: "sorted (map fst l)" using assms(6) by (simp add: sorted_append)
  have st: "find_leaves fuel p key (of_nat (i + 1)) [] w = (if (\<exists>e\<in>set l. key < fst e) \<or> hits key l = [] then Some (hits key l, w1)
      else find_leaves (Suc f) p key (if ls = [] then NO_PAGE else of_nat (i + 2)) (hits key l) w1)"
    using r(1,3) leafD [OF r(4)] by (simp add: f(1) find_leaves.simps [of "Suc (Suc f)"] find_abs_sorted [OF so])
  show ?thesis
  proof (cases ls)
    case Nil
    then show ?thesis using st r(2) by (auto simp: find_leaves.simps)
  next
    case (Cons l2 ls2)
    then obtain e es2 where l2: "l2 = e # es2" "key < fst e" using assms(7) by (cases l2) (auto simp: first_key_def)
    have n2: "n = i + 1 + length (l2 # ls2)" using assms(2) Cons by simp
    have so2: "sorted (map fst l2)" using assms(6) Cons by (simp add: sorted_append)
    have "hits key l2 = []" using l2 so2 by (auto simp: hits_def filter_empty_conv)
    then have fa: "find_abs key l2 res False = Scan_return res" for res using l2 so2 by (simp add: find_abs_sorted)
    obtain pg2 w2 where r2: "ix_full_read p (of_nat (i + 1 + 1)) w1 = (Some pg2, w2)" "reads w1 w2" "(of_nat (i + 1 + 1) :: u32) \<noteq> NO_PAGE"
      "leaf_at pg2 (if ls2 = [] then NO_PAGE else of_nat (i + 1 + 2)) l2"
      using chain_read [OF r(5) [unfolded Cons] n2 assms(3) conjunct2 [OF r(2)]] by blast
    have "find_leaves (Suc f) p key (of_nat (i + 1 + 1)) (hits key l) w1 = Some (hits key l, w2)"
      using r2(1,3) leafD [OF r2(4)] fa by (simp add: find_leaves.simps [of "Suc f"])
    then show ?thesis using st r(2) r2(2) Cons same_data_trans by (auto simp: numeral_2_eq_2)
  qed
qed

section \<open>The entries in memory\<close>

lemma lower_bound_split:
  assumes "sorted_wrt (<) es"
  obtains as bs where "es = as @ bs" "ix_lower_bound es e = length as" "\<forall>x\<in>set as. x < e" "\<forall>x\<in>set bs. e \<le> x"
proof
  let ?P = "\<lambda>x. entry_less x e"
  show "es = takeWhile ?P es @ dropWhile ?P es" by simp
  show "ix_lower_bound es e = length (takeWhile ?P es)" by (simp add: ix_lower_bound_def)
  show "\<forall>x\<in>set (takeWhile ?P es). x < e" by (auto dest: set_takeWhileD)
  show "\<forall>x\<in>set (dropWhile ?P es). e \<le> x"
    using assms
  proof (induction es)
    case (Cons a es)
    show ?case
    proof (cases "a < e")
      case True then show ?thesis using Cons by simp
    next
      case False
      then show ?thesis using Cons.prems by (auto dest: order_less_imp_le intro: order_trans)
    qed
  qed simp
qed

lemma lower_bound_member:
  assumes "sorted_wrt (<) es"
  shows "ix_lower_bound es e < length es \<and> es ! ix_lower_bound es e = e \<longleftrightarrow> e \<in> set es"
proof -
  obtain as bs where s: "es = as @ bs" "ix_lower_bound es e = length as" "\<forall>x\<in>set as. x < e" "\<forall>x\<in>set bs. e \<le> x"
    using lower_bound_split [OF assms] .
  show ?thesis
  proof (cases bs)
    case Nil then show ?thesis using s by auto
  next
    case (Cons b bs')
    have "b = e" if "e \<in> set es"
    proof -
      have "e \<in> set bs" using that s(1,3) by auto
      then have "b \<le> e" using assms s(1) Cons by (auto simp: sorted_wrt_append)
      then show ?thesis using s(4) Cons by auto
    qed
    then show ?thesis using s Cons by (auto simp: nth_append)
  qed
qed

lemma lower_bound_key:
  assumes "sorted_wrt (<) es"
  shows "ix_lower_bound es (key, 0, 0) < length es \<and> fst (es ! ix_lower_bound es (key, 0, 0)) = key \<longleftrightarrow> key \<in> fst ` set es"
proof -
  let ?e = "(key, 0, 0) :: entry"
  obtain as bs where s: "es = as @ bs" "ix_lower_bound es ?e = length as" "\<forall>x\<in>set as. x < ?e" "\<forall>x\<in>set bs. ?e \<le> x"
    using lower_bound_split [OF assms] .
  have low: "x < ?e \<Longrightarrow> fst x < key" for x by (cases x) (auto simp: less_prod_def less_eq_prod_def)
  show ?thesis
  proof (cases bs)
    case Nil then show ?thesis using s low by fastforce
  next
    case (Cons b bs')
    have "fst b = key" if k: "key \<in> fst ` set es"
    proof -
      obtain x where x: "x \<in> set es" "fst x = key" using k unfolding image_iff by blast
      then have "x \<in> set bs" using s(1,3) low by fastforce
      then have "b \<le> x" using assms s(1) Cons by (auto simp: sorted_wrt_append)
      moreover have "?e \<le> b" using s(4) Cons by simp
      ultimately show ?thesis using x(2) by (cases b; cases x) (auto simp: less_eq_prod_def)
    qed
    then show ?thesis using s Cons by (auto simp: nth_append image_iff)
  qed
qed

lemma sorted_insert_at:
  assumes "sorted_wrt (<) es" "e \<notin> set es"
  shows "sorted_wrt (<) (take (ix_lower_bound es e) es @ e # drop (ix_lower_bound es e) es)"
    "set (take (ix_lower_bound es e) es @ e # drop (ix_lower_bound es e) es) = insert e (set es)"
proof -
  obtain as bs where s: "es = as @ bs" "ix_lower_bound es e = length as" "\<forall>x\<in>set as. x < e" "\<forall>x\<in>set bs. e \<le> x"
    using lower_bound_split [OF assms(1)] .
  have "\<forall>x\<in>set bs. e < x" using s(1,4) assms(2) by (auto simp: order_less_le)
  then show "sorted_wrt (<) (take (ix_lower_bound es e) es @ e # drop (ix_lower_bound es e) es)"
    using assms(1) s by (auto simp: sorted_wrt_append)
  show "set (take (ix_lower_bound es e) es @ e # drop (ix_lower_bound es e) es) = insert e (set es)" using s by auto
qed

lemma sorted_remove_at:
  assumes "sorted_wrt (<) es" "e \<in> set es"
  shows "sorted_wrt (<) (take (ix_lower_bound es e) es @ drop (ix_lower_bound es e + 1) es)"
    "set (take (ix_lower_bound es e) es @ drop (ix_lower_bound es e + 1) es) = set es - {e}"
proof -
  obtain as bs where s: "es = as @ bs" "ix_lower_bound es e = length as" "\<forall>x\<in>set as. x < e" "\<forall>x\<in>set bs. e \<le> x"
    using lower_bound_split [OF assms(1)] .
  have "ix_lower_bound es e < length es \<and> es ! ix_lower_bound es e = e" using lower_bound_member [OF assms(1)] assms(2) by blast
  then obtain bs' where b: "bs = e # bs'" using s(1,2) by (cases bs) (auto simp: nth_append)
  then show "sorted_wrt (<) (take (ix_lower_bound es e) es @ drop (ix_lower_bound es e + 1) es)"
    "set (take (ix_lower_bound es e) es @ drop (ix_lower_bound es e + 1) es) = set es - {e}"
    using assms(1) s by (auto simp: sorted_wrt_append)
qed

text \<open>What holds of an open index file between operations.\<close>

definition index_ok :: "istate \<Rightarrow> bool" where
  "index_ok s \<longleftrightarrow> apart s \<and> sorted_wrt (<) (ix_entries (fst s)) \<and> short_entries (ix_entries (fst s)) \<and> stored (fst s) (disk s)"

lemma flushed_ok:
  assumes "ix_flush fuel (ix, t) = Some (True, s')" "apart (ix, t)" "sorted_wrt (<) (ix_entries ix)" "short_entries (ix_entries ix)"
  shows "index_ok s' \<and> ix_entries (fst s') = ix_entries ix"
  using write_pages_result [OF assms(1) [unfolded ix_flush_def]] assms by (simp add: index_ok_def)

lemma ix_insert_ok:
  assumes "index_ok (ix, t)" "ix_insert fuel key rid unique (ix, t) = Some (ok, s')" "short_key key" "3 * length (ix_entries ix) + 7 < 2 ^ 32 - 1"
  shows "unique \<and> key \<in> fst ` set (ix_entries ix) \<Longrightarrow> \<not> ok \<and> s' = (ix, t)"
    "\<not> (unique \<and> key \<in> fst ` set (ix_entries ix)) \<Longrightarrow> ok \<Longrightarrow> index_ok s' \<and> set (ix_entries (fst s')) = insert (key, rid) (set (ix_entries ix))"
proof -
  let ?es = "ix_entries ix" and ?e = "(key, rid)"
  let ?new = "take (ix_lower_bound ?es ?e) ?es @ ?e # drop (ix_lower_bound ?es ?e) ?es"
  have so: "sorted_wrt (<) ?es" using assms(1) by (simp add: index_ok_def)
  have fit: "entry_fits_empty_leaf ?e" using assms(3) by (simp add: entry_fits_empty_leaf_def short_key_def index_consts)
  note st = assms(2) [unfolded ix_insert_def prod.case Let_def lower_bound_key [OF so] same_entry_iff lower_bound_member [OF so], simplified fit, simplified]
  show "\<not> ok \<and> s' = (ix, t)" if "unique \<and> key \<in> fst ` set ?es" using st that by simp
  show "index_ok s' \<and> set (ix_entries (fst s')) = insert ?e (set ?es)" if nu: "\<not> (unique \<and> key \<in> fst ` set ?es)" and ok: ok
  proof (cases "?e \<in> set ?es")
    case True then show ?thesis using st nu ok assms(1) by auto
  next
    case False
    have f: "ix_flush fuel (ix\<lparr>ix_entries := ?new\<rparr>, t) = Some (True, s')" using st nu ok False by simp
    have len: "length ?new = length ?es + 1" by simp
    have sh: "short_entries ?new" unfolding short_entries_def sorted_insert_at(2) [OF so False] len
      using assms(1,3,4) by (simp add: index_ok_def short_entries_def)
    have "apart (ix\<lparr>ix_entries := ?new\<rparr>, t)" using assms(1) by (simp add: index_ok_def apart_def)
    from flushed_ok [OF f this] show ?thesis using sorted_insert_at [OF so False] sh by simp
  qed
qed

lemma ix_remove_ok:
  assumes "index_ok (ix, t)" "ix_remove fuel key rid (ix, t) = Some (True, s')"
  shows "index_ok s' \<and> set (ix_entries (fst s')) = set (ix_entries ix) - {(key, rid)}"
proof -
  let ?es = "ix_entries ix" and ?e = "(key, rid)"
  let ?new = "take (ix_lower_bound ?es ?e) ?es @ drop (ix_lower_bound ?es ?e + 1) ?es"
  have so: "sorted_wrt (<) ?es" using assms(1) by (simp add: index_ok_def)
  have le: "ix_lower_bound ?es ?e \<le> length ?es" by (simp add: ix_lower_bound_def length_takeWhile_le)
  have mem: "(ix_lower_bound ?es ?e = length ?es \<or> ?es ! ix_lower_bound ?es ?e \<noteq> ?e) \<longleftrightarrow> ?e \<notin> set ?es"
    using lower_bound_member [OF so, of ?e] le by auto
  note st = assms(2) [unfolded ix_remove_def prod.case Let_def same_entry_iff mem]
  show ?thesis
  proof (cases "?e \<in> set ?es")
    case False then show ?thesis using st assms(1) by auto
  next
    case True
    have f: "ix_flush fuel (ix\<lparr>ix_entries := ?new\<rparr>, t) = Some (True, s')" using st True by simp
    have sh: "short_entries ?new" unfolding short_entries_def sorted_remove_at(2) [OF so True]
      using assms(1) by (auto simp: index_ok_def short_entries_def)
    have "apart (ix\<lparr>ix_entries := ?new\<rparr>, t)" using assms(1) by (simp add: index_ok_def apart_def)
    from flushed_ok [OF f this] show ?thesis using sorted_remove_at [OF so True] sh by simp
  qed
qed

lemma ix_reset_ok:
  assumes "apart (ix, t)" "ix_reset fuel (ix, t) = Some (True, s')"
  shows "index_ok s' \<and> ix_entries (fst s') = []"
proof -
  have f: "ix_flush fuel (ix\<lparr>ix_entries := [], ix_page_count := 2, ix_root := 1, ix_height := 1\<rparr>, t) = Some (True, s')" using assms(2) by (simp add: ix_reset_def)
  show ?thesis using flushed_ok [OF f] assms(1) by (simp add: apart_def short_entries_def)
qed

section \<open>Lookups\<close>

lemma map_summaries: "map ps_first_key (summaries i ls) = map first_key ls"
  by (induction ls arbitrary: i) simp_all

lemma nth_summaries: "j < length ls \<Longrightarrow> summaries i ls ! j = \<lparr> ps_page_id = of_nat (i + j + 1), ps_first_key = first_key (ls ! j) \<rparr>"
  by (induction ls arbitrary: i j) (auto simp: nth_Cons split: nat.splits)

lemma first_key_hd: "l \<noteq> [] \<Longrightarrow> first_key l = fst (hd l)"
  by (cases l) (simp_all add: first_key_def)

lemma sorted_first_keys: "sorted (map fst (concat ls)) \<Longrightarrow> [] \<notin> set ls \<Longrightarrow> sorted (map first_key ls)"
proof (induction ls)
  case (Cons l ls)
  have "first_key l \<le> first_key m" if "m \<in> set ls" for m
  proof -
    have "l \<noteq> []" "m \<noteq> []" using Cons.prems(2) that by auto
    moreover have "hd m \<in> set (concat ls)" using that hd_in_set [OF \<open>m \<noteq> []\<close>] unfolding set_concat by blast
    ultimately show ?thesis using Cons.prems(1) by (auto simp: sorted_append first_key_hd)
  qed
  then show ?case using Cons by (auto simp: sorted_append)
qed simp

lemma leaves_sorted: "leaves_ok ls es \<Longrightarrow> sorted (map fst es) \<Longrightarrow> sorted (map first_key ls)"
  using sorted_first_keys [of ls] by (cases "es = []") (auto simp: leaves_ok_def)

lemma chain_drop: "chain D n i ls \<Longrightarrow> j \<le> length ls \<Longrightarrow> chain D n (i + j) (drop j ls)"
proof (induction ls arbitrary: i j)
  case (Cons l ls)
  then show ?case using Cons.IH [of "i + 1" "j - 1"] by (cases j) auto
qed simp

lemma sorted_fst: "sorted_wrt (<) (es :: entry list) \<Longrightarrow> sorted (map fst es)"
  by (induction es) (auto simp: less_prod_def dest: order_less_imp_le)

lemma concat_split: "j < length ls \<Longrightarrow> concat ls = concat (take j ls) @ ls ! j @ concat (drop (Suc j) ls)"
  using arg_cong [OF id_take_nth_drop, of j ls concat] by simp

lemma leaves_split: "leaves_ok ls es \<Longrightarrow> j < length ls \<Longrightarrow> es = concat (take j ls) @ ls ! j @ concat (drop (Suc j) ls)"
  using concat_split [of j ls] by (simp add: leaves_ok_def)

lemma locate_leaf:
  assumes "stored ix (page_bytes w (ix_path ix))" "sorted_wrt (<) (ix_entries ix)" "calm w" "64 \<le> fuel"
  obtains ls j w' where "leaves_ok ls (ix_entries ix)" "chain (page_bytes w' (ix_path ix)) (length ls) 0 ls" "length ls + 1 < 2 ^ 32 - 1"
    "find_leaf_page fuel (ix_path ix) (ix_page_count ix) key (ix_root ix) w = Some (of_nat (j + 1), w')" "reads w w'" "j < length ls"
    "\<forall>x\<in>set (concat (take j ls)). fst x \<le> key" "\<forall>l\<in>set (drop (Suc j) ls). l \<noteq> [] \<and> key < first_key l"
    "distinct (map fst (ix_entries ix)) \<Longrightarrow> key \<notin> fst ` set (concat (take j ls))"
proof -
  let ?D = "page_bytes w (ix_path ix)" and ?es = "ix_entries ix"
  from assms(1) obtain ls h r where s: "leaves_ok ls ?es" "chain ?D (length ls) 0 ls" "length ls < unat (ix_page_count ix)"
    "unat (ix_page_count ix) < 2 ^ 32 - 1" "subtree ?D (unat (ix_page_count ix)) h r (summaries 0 ls)" "ix_root ix = ps_page_id r" "h < 64"
    unfolding stored_def by blast
  have se: "sorted (map fst ?es)" by (rule sorted_fst [OF assms(2)])
  have so: "sorted (map ps_first_key (summaries 0 ls))" using leaves_sorted [OF s(1) se] by (simp add: map_summaries)
  have ne: "ls \<noteq> []" using s(1) by (simp add: leaves_ok_def)
  obtain w' where w': "find_leaf_page fuel (ix_path ix) (ix_page_count ix) key (ps_page_id r) w = Some (ps_page_id (pick ps_first_key key (summaries 0 ls)), w')" "reads w w'"
    using find_leaf_page_ok [OF s(5) so order_refl s(4) assms(3)] s(7) assms(4) by (meson order_less_le_trans)
  have D: "page_bytes w' (ix_path ix) = ?D" using page_bytes_cong [OF same_data_contents [OF conjunct1 [OF w'(2)]]] by blast
  have "summaries 0 ls \<noteq> []" using ne by (cases ls) simp_all
  from pick_spec [OF this so, of key] obtain j where j': "j < length (summaries 0 ls)" "pick ps_first_key key (summaries 0 ls) = summaries 0 ls ! j"
    "0 < j \<longrightarrow> ps_first_key (summaries 0 ls ! j) \<le> key" "\<forall>i. j < i \<longrightarrow> i < length (summaries 0 ls) \<longrightarrow> key < ps_first_key (summaries 0 ls ! i)"
    by blast
  have j: "j < length ls" "pick ps_first_key key (summaries 0 ls) = summaries 0 ls ! j"
    "0 < j \<longrightarrow> first_key (ls ! j) \<le> key" "\<forall>i. j < i \<longrightarrow> i < length ls \<longrightarrow> key < first_key (ls ! i)"
    using j' by (simp_all add: nth_summaries)
  have full: "[] \<notin> set ls" if "1 < length ls" using s(1) that by (cases "?es = []") (auto simp: leaves_ok_def)
  have es: "?es = concat (take j ls) @ (ls ! j) @ concat (drop (Suc j) ls)"
    by (rule leaves_split [OF s(1) j(1)])
  have nj: "ls ! j \<noteq> [] \<and> first_key (ls ! j) \<le> key" if "x \<in> set (concat (take j ls))" for x
  proof -
    have "0 < j" using that by (cases j) auto
    then have "1 < length ls" "first_key (ls ! j) \<le> key" using j(1,3) by auto
    then show ?thesis using full nth_mem [OF j(1)] by auto
  qed
  have below: "fst x \<le> first_key (ls ! j)" if x: "x \<in> set (concat (take j ls))" for x
    using se x nj [OF x] unfolding es by (auto simp: sorted_append first_key_hd dest: hd_in_set)
  have d: "key \<notin> fst ` set (concat (take j ls))" if "distinct (map fst ?es)"
  proof
    assume "key \<in> fst ` set (concat (take j ls))"
    then obtain x where x: "x \<in> set (concat (take j ls))" "fst x = key" unfolding image_iff by blast
    note n = nj [OF x(1)]
    have "fst (hd (ls ! j)) = key" using below [OF x(1)] n x(2) by (metis first_key_hd order_antisym)
    moreover have "hd (ls ! j) \<in> set (ls ! j)" using n by simp
    ultimately have "key \<in> fst ` set (ls ! j)" by (metis imageI)
    then have "key \<in> fst ` set (concat (take j ls)) \<inter> fst ` set (ls ! j)" using \<open>key \<in> fst ` set (concat (take j ls))\<close> by blast
    then show False using that unfolding es map_append distinct_append set_map set_append by blast
  qed
  have after: "l \<noteq> [] \<and> key < first_key l" if lm: "l \<in> set (drop (Suc j) ls)" for l
  proof -
    obtain k where k: "k < length (drop (Suc j) ls)" "l = drop (Suc j) ls ! k" using lm unfolding in_set_conv_nth by blast
    then have "l = ls ! (Suc j + k)" "Suc j + k < length ls" by simp_all
    moreover have "j < Suc j + k" by simp
    ultimately obtain i where i: "j < i" "i < length ls" "l = ls ! i" by blast
    then have "1 < length ls" by simp
    then have "ls ! i \<noteq> []" using full nth_mem [OF i(2)] by metis
    then show ?thesis using j(4) [rule_format, OF i(1,2)] unfolding i(3) by simp
  qed
  have ln: "length ls + 1 < 2 ^ 32 - 1" using s(3,4) by linarith
  have bl: "fst x \<le> key" if "x \<in> set (concat (take j ls))" for x using below [OF that] nj [OF that] by (blast intro: order_trans)
  have fl: "find_leaf_page fuel (ix_path ix) (ix_page_count ix) key (ix_root ix) w = Some (of_nat (j + 1), w')"
    using w'(1) s(6) j(1,2) by (simp add: nth_summaries)
  have ch: "chain (page_bytes w' (ix_path ix)) (length ls) 0 ls" using D s(2) by simp
  show ?thesis by (rule that [OF s(1) ch ln fl w'(2) j(1)]) (use bl after d in blast)+
qed

lemma ix_find_result:
  assumes "stored ix (page_bytes w (ix_path ix))" "sorted_wrt (<) (ix_entries ix)" "calm w" "64 \<le> fuel"
  shows "\<exists>w' k. ix_find fuel key ix w = Some (drop k (hits key (ix_entries ix)), w') \<and> reads w w' \<and> (distinct (map fst (ix_entries ix)) \<longrightarrow> k = 0) \<and>
    ((\<forall>e\<in>set (ix_entries ix). fst e = key) \<and> PAGE_SIZE < leaf_size (ix_entries ix) \<longrightarrow> 0 < k)"
proof -
  obtain ls j w' where l: "leaves_ok ls (ix_entries ix)" "chain (page_bytes w' (ix_path ix)) (length ls) 0 ls" "length ls + 1 < 2 ^ 32 - 1"
    "find_leaf_page fuel (ix_path ix) (ix_page_count ix) key (ix_root ix) w = Some (of_nat (j + 1), w')" "reads w w'" "j < length ls"
    "\<forall>x\<in>set (concat (take j ls)). fst x \<le> key" "\<forall>l\<in>set (drop (Suc j) ls). l \<noteq> [] \<and> key < first_key l"
    "distinct (map fst (ix_entries ix)) \<Longrightarrow> key \<notin> fst ` set (concat (take j ls))"
    using locate_leaf [OF assms] by metis
  let ?a = "concat (take j ls)" and ?c = "concat (drop (Suc j) ls)"
  have dr: "drop j ls = ls ! j # drop (Suc j) ls" using l(6) by (rule Cons_nth_drop_Suc [symmetric])
  have es: "ix_entries ix = ?a @ (ls ! j) @ ?c" by (rule leaves_split [OF l(1,6)])
  have so: "sorted (map fst (ix_entries ix))" by (rule sorted_fst [OF assms(2)])
  have ch: "chain (page_bytes w' (ix_path ix)) (length ls) j (ls ! j # drop (Suc j) ls)"
    using chain_drop [OF l(2), of j] l(6) dr by simp
  have soc: "sorted (map fst (concat (ls ! j # drop (Suc j) ls)))" using so unfolding es by (simp add: sorted_append)
  have nn: "length ls = j + length (ls ! j # drop (Suc j) ls)" using l(6) by simp
  have f2: "2 \<le> fuel" using assms(4) by simp
  obtain w2 where w2: "find_leaves fuel (ix_path ix) key (of_nat (j + 1)) [] w' = Some (hits key (ls ! j), w2)" "reads w' w2"
    using find_leaves_ok [OF ch nn l(3) conjunct2 [OF l(5)] f2 soc l(8)] by blast
  have "hits key ?c = []"
  proof -
    have "key < fst x" if mx: "m \<in> set (drop (Suc j) ls)" "x \<in> set m" for m x
    proof -
      have "m \<noteq> []" "key < fst (hd m)" using l(8) that(1) by (auto simp: first_key_hd)
      moreover have "sorted (map fst m)"
      proof -
        have "sorted (map fst ?c)" using soc by (simp add: sorted_append)
        moreover obtain as bs where "drop (Suc j) ls = as @ m # bs" using split_list [OF mx(1)] by blast
        ultimately show ?thesis by (simp add: sorted_append)
      qed
      ultimately show ?thesis using that(2) by (cases m) (auto intro: order_less_le_trans)
    qed
    then show ?thesis by (fastforce simp: hits_def filter_empty_conv)
  qed
  then have h: "hits key (ix_entries ix) = hits key ?a @ hits key (ls ! j)" unfolding es by simp
  have z: "hits key ?a = []" if "distinct (map fst (ix_entries ix))" using l(9) [OF that] by (auto simp: hits_def filter_empty_conv)
  have "ix_find fuel key ix w = Some (drop (length (hits key ?a)) (hits key (ix_entries ix)), w2)"
    using l(4) w2(1) h by (simp add: ix_find_def find_from_pages_def)
  moreover have "reads w w2" using l(5) w2(2) same_data_trans by blast
  moreover have "0 < length (hits key ?a)" if same: "\<forall>e\<in>set (ix_entries ix). fst e = key" "PAGE_SIZE < leaf_size (ix_entries ix)"
  proof -
    have "m = []" if "m \<in> set (drop (Suc j) ls)" for m
    proof (rule ccontr)
      assume "m \<noteq> []"
      then have "hd m \<in> set (ix_entries ix)" unfolding es using that hd_in_set [of m] unfolding set_append set_concat by blast
      then show False using same(1) l(8) that \<open>m \<noteq> []\<close> by (auto simp: first_key_hd)
    qed
    then have c: "drop (Suc j) ls = []" using l(8) by (metis list.set_intros(1) neq_Nil_conv)
    have lj: "leaf_size (ls ! j) \<le> PAGE_SIZE" using l(1,6) by (simp add: leaves_ok_def)
    have a: "?a \<noteq> []"
    proof
      assume "?a = []"
      then have "ix_entries ix = ls ! j" using es c by simp
      then show False using same(2) lj by simp
    qed
    have "fst (hd ?a) = key" using same(1) hd_in_set [OF a] unfolding es by auto
    then have "key \<in> fst ` set ?a" using hd_in_set [OF a] by (metis imageI)
    then show ?thesis by (auto simp: hits_def filter_empty_conv)
  qed
  ultimately show ?thesis using z by (intro exI [of _ w2] exI [of _ "length (hits key ?a)"]) simp
qed

lemma above_upper_mono: "\<forall>k k'. above_upper u incl k \<longrightarrow> k \<le> k' \<longrightarrow> above_upper u incl k'"
  by (auto simp: above_upper_def split: option.splits dest: order_less_le_trans)

definition in_range :: "index_key option \<Rightarrow> bool \<Rightarrow> index_key option \<Rightarrow> bool \<Rightarrow> index_key \<Rightarrow> bool" where
  "in_range lo lo_incl hi hi_incl k \<longleftrightarrow>
     (\<forall>l. lo = Some l \<longrightarrow> (if lo_incl then l \<le> k else l < k)) \<and> (\<forall>u. hi = Some u \<longrightarrow> (if hi_incl then k \<le> u else k < u))"

lemma in_range_iff: "in_range lo li hi hi_incl k \<longleftrightarrow> \<not> below_lower lo li k \<and> \<not> above_upper hi hi_incl k"
  by (auto simp: in_range_def below_lower_def above_upper_def not_less split: option.splits dest: order.order_iff_strict [THEN iffD1])

lemma ix_find_range_result:
  assumes "stored ix (page_bytes w (ix_path ix))" "sorted_wrt (<) (ix_entries ix)" "calm w" "64 + length (ix_entries ix) \<le> fuel"
    "lo = None \<or> \<not> li \<or> distinct (map fst (ix_entries ix))"
  shows "\<exists>w'. ix_find_range fuel lo li hi hi_incl ix w = Some (map snd (filter (\<lambda>e. in_range lo li hi hi_incl (fst e)) (ix_entries ix)), w') \<and> reads w w'"
proof -
  let ?lo = "below_lower lo li" and ?hi = "above_upper hi hi_incl" and ?p = "ix_path ix"
  have so: "sorted (map fst (ix_entries ix))" by (rule sorted_fst [OF assms(2)])
  have scan: "\<exists>w'. range_leaves fuel ?p ?lo ?hi (of_nat (j + 1)) [] w1 = Some (map snd (filter (\<lambda>e. in_range lo li hi hi_incl (fst e)) (ix_entries ix)), w') \<and> reads w1 w'"
    if l: "leaves_ok ls (ix_entries ix)" "chain (page_bytes w1 ?p) (length ls) 0 ls" "length ls + 1 < 2 ^ 32 - 1" "calm w1" "j < length ls"
      "\<forall>x\<in>set (concat (take j ls)). ?lo (fst x)" for ls j w1
  proof -
    have es: "ix_entries ix = concat (take j ls) @ concat (drop j ls)" using l(1) leaves_split [OF l(1,5)] Cons_nth_drop_Suc [OF l(5), symmetric] by simp
    have "length (drop j ls) \<le> length ls" by simp
    then have "length (drop j ls) \<le> fuel" using length_leaves [OF l(1)] assms(4) by linarith
    moreover have "chain (page_bytes w1 ?p) (length ls) j (drop j ls)" using chain_drop [OF l(2), of j] l(5) by simp
    moreover have "drop j ls \<noteq> []" "length ls = j + length (drop j ls)" using l(5) by simp_all
    ultimately obtain w' where w': "range_leaves fuel ?p ?lo ?hi (of_nat (j + 1)) [] w1 = Some (scan_result (range_abs ?lo ?hi (concat (drop j ls)) []), w')" "reads w1 w'"
      using range_leaves_ok [of w1 ?p "length ls" j "drop j ls" fuel ?lo ?hi "[]"] l(3,4) by blast
    have "sorted (map fst (concat (drop j ls)))" using so unfolding es by (simp add: sorted_append)
    note r = range_abs_sorted [OF this above_upper_mono [of hi hi_incl], where lo = ?lo and res = "[]"]
    have "filter (\<lambda>e. \<not> ?lo (fst e) \<and> \<not> ?hi (fst e)) (concat (take j ls)) = []" using l(6) by (simp only: filter_empty_conv) blast
    then have "scan_result (range_abs ?lo ?hi (concat (drop j ls)) []) = map snd (filter (\<lambda>e. in_range lo li hi hi_incl (fst e)) (ix_entries ix))"
      unfolding es in_range_iff r by simp
    then show ?thesis using w' by auto
  qed
  show ?thesis
  proof (cases lo)
    case None
    from assms(1) obtain ls where s: "leaves_ok ls (ix_entries ix)" "chain (page_bytes w ?p) (length ls) 0 ls" "length ls < unat (ix_page_count ix)"
      "unat (ix_page_count ix) < 2 ^ 32 - 1" unfolding stored_def by blast
    have "0 < length ls" using s(1) by (simp add: leaves_ok_def)
    moreover have "length ls + 1 < 2 ^ 32 - 1" using s(3,4) by linarith
    ultimately show ?thesis using scan [OF s(1,2), of 0] assms(3) None by (simp add: ix_find_range_def find_range_from_pages_def)
  next
    case (Some key)
    have "64 \<le> fuel" using assms(4) by simp
    then obtain ls j w' where l: "leaves_ok ls (ix_entries ix)" "chain (page_bytes w' ?p) (length ls) 0 ls" "length ls + 1 < 2 ^ 32 - 1"
      "find_leaf_page fuel ?p (ix_page_count ix) key (ix_root ix) w = Some (of_nat (j + 1), w')" "reads w w'" "j < length ls"
      "\<forall>x\<in>set (concat (take j ls)). fst x \<le> key" "\<forall>l\<in>set (drop (Suc j) ls). l \<noteq> [] \<and> key < first_key l"
      "distinct (map fst (ix_entries ix)) \<Longrightarrow> key \<notin> fst ` set (concat (take j ls))"
      using locate_leaf [OF assms(1-3)] by metis
    have "?lo (fst x)" if x: "x \<in> set (concat (take j ls))" for x
    proof -
      have le: "fst x \<le> key" using l(7) x by blast
      have "fst x \<noteq> key" if li
      proof -
        have "distinct (map fst (ix_entries ix))" using assms(5) Some that by simp
        from l(9) [OF this] show ?thesis using x by (metis imageI)
      qed
      then show ?thesis using le Some by (auto simp: below_lower_def)
    qed
    then obtain w2 where "range_leaves fuel ?p ?lo ?hi (of_nat (j + 1)) [] w' = Some (map snd (filter (\<lambda>e. in_range lo li hi hi_incl (fst e)) (ix_entries ix)), w2)" "reads w' w2"
      using scan [OF l(1-3) _ l(6)] l(5) by blast
    then show ?thesis using l(4,5) Some same_data_trans by (auto simp: ix_find_range_def find_range_from_pages_def)
  qed
qed

section \<open>Opening a file\<close>

lemma header_fields:
  "ix_read_uint32 (header_page r c h) 0 = INDEX_MAGIC" "header_page r c h ! 4 = PAGE_TYPE_HEADER" "ix_read_uint16 (header_page r c h) 5 = INDEX_VERSION"
  "ix_read_uint32 (header_page r c h) 7 = r" "ix_read_uint32 (header_page r c h) 11 = c" "ix_read_uint16 (header_page r c h) 15 = h"
proof -
  let ?p1 = "put_bytes (put_bytes (replicate PAGE_SIZE 0) 0 (le_bytes 4 INDEX_MAGIC)) 4 [PAGE_TYPE_HEADER]"
  let ?p2 = "put_bytes (put_bytes ?p1 5 (le_bytes 2 INDEX_VERSION)) 7 (le_bytes 4 r)"
  let ?pg = "put_bytes (put_bytes ?p2 11 (le_bytes 4 c)) 15 (le_bytes 2 h)"
  have hp: "header_page r c h = ?pg" by (simp add: header_page_def Let_def ix_write_put update_put_1 PAGE_SIZE_def)
  have b: "block_at ?pg 0 (le_bytes 4 INDEX_MAGIC)" "block_at ?pg 4 [PAGE_TYPE_HEADER]" "block_at ?pg 5 (le_bytes 2 INDEX_VERSION)"
    "block_at ?pg 7 (le_bytes 4 r)" "block_at ?pg 11 (le_bytes 4 c)" "block_at ?pg 15 (le_bytes 2 h)"
    by (simp_all add: block_at_put PAGE_SIZE_def)
  show "ix_read_uint32 (header_page r c h) 0 = INDEX_MAGIC" "header_page r c h ! 4 = PAGE_TYPE_HEADER" "ix_read_uint16 (header_page r c h) 5 = INDEX_VERSION"
    "ix_read_uint32 (header_page r c h) 7 = r" "ix_read_uint32 (header_page r c h) 11 = c" "ix_read_uint16 (header_page r c h) 15 = h"
    unfolding hp using b(1,3-6) b(2) [unfolded block_at_1] by (simp_all add: block_at_read)
qed

lemma sort_entries: "sorted_wrt (<) (es :: entry list) \<Longrightarrow> sort es = es"
  by (rule sorted_sort_id, erule sorted_wrt_mono_rel [rotated]) (rule order_less_imp_le)

lemma load_result:
  assumes "stored ix (page_bytes w (ix_path ix))" "sorted_wrt (<) (ix_entries ix)" "calm w" "1 + length (ix_entries ix) \<le> fuel" "ix_path ix0 = ix_path ix"
  shows "\<exists>w'. load fuel (ix0, wm, w) = Some (True, ix\<lparr>ix_txn := ix_txn ix0\<rparr>, wm, w') \<and> reads w w'"
proof -
  let ?D = "page_bytes w (ix_path ix)"
  from assms(1) obtain ls h r where s: "leaves_ok ls (ix_entries ix)" "chain ?D (length ls) 0 ls" "length ls < unat (ix_page_count ix)"
    "unat (ix_page_count ix) < 2 ^ 32 - 1" "subtree ?D (unat (ix_page_count ix)) h r (summaries 0 ls)" "ix_root ix = ps_page_id r" "h < 64"
    "ix_height ix = of_nat (h + 1)" "?D 0 = header_page (ix_root ix) (ix_page_count ix) (ix_height ix)" unfolding stored_def by blast
  obtain w1 where r1: "ix_full_read (ix_path ix) 0 w = (Some (?D (unat (0 :: u32))), w1)" "reads w w1" "\<And>i. page_bytes w1 (ix_path ix) i = ?D i"
    using ix_full_read_calm [OF assms(3), of "ix_path ix" 0] by blast
  have n: "ls \<noteq> []" "0 < length ls" using s(1) by (auto simp: leaves_ok_def)
  have len: "length ls \<le> fuel" using length_leaves [OF s(1)] assms(4) by linarith
  have "page_bytes w1 (ix_path ix) = ?D" using r1(3) by blast
  then have ch: "chain (page_bytes w1 (ix_path ix)) (length ls) 0 ls" using s(2) by simp
  obtain w2 where w2: "load_leaves fuel (ix_path ix) (ix_page_count ix) (of_nat (0 + 1)) [] w1 = Some (Some ([] @ concat ls), w2)" "reads w1 w2"
    using load_leaves_ok [OF ch n(1) add_0 [symmetric] s(3,4) conjunct2 [OF r1(2)] len, of "[]"] by blast
  have "unat (ix_root ix) < unat (ix_page_count ix)" using subtree_sum_pages [OF s(5)] s(6) by simp
  then have nr: "ix_root ix \<noteq> NO_PAGE" using s(4) by (intro not_NO_PAGE) linarith
  have "2 \<le> unat (ix_page_count ix)" using s(3) n(2) by linarith
  then have pc: "\<not> ix_page_count ix < 2" by (simp add: word_less_nat_alt)
  have "unat (ix_height ix) = h + 1" unfolding s(8) using s(7) by (intro unat_of_nat_u16) simp
  then have ht: "ix_height ix \<noteq> 0" by (auto simp: u16_zero_iff)
  have es: "concat ls = ix_entries ix" using s(1) by (simp add: leaves_ok_def)
  have mg: "INDEX_MAGIC \<noteq> 0" by (simp add: INDEX_MAGIC_def)
  have "load fuel (ix0, wm, w) = Some (True, ix0\<lparr>ix_root := ix_root ix, ix_page_count := ix_page_count ix, ix_height := ix_height ix, ix_entries := sort (ix_entries ix)\<rparr>, wm, w2)"
    using r1(1) w2(1) nr pc ht mg assms(5) by (simp add: load_def s(9) header_fields Let_def es)
  moreover have "ix0\<lparr>ix_root := ix_root ix, ix_page_count := ix_page_count ix, ix_height := ix_height ix, ix_entries := ix_entries ix\<rparr> = ix\<lparr>ix_txn := ix_txn ix0\<rparr>"
    using assms(5) by (cases ix; cases ix0) simp
  ultimately show ?thesis using r1(2) w2(2) same_data_trans sort_entries [OF assms(2)] by auto
qed

section \<open>Properties\<close>

lemma index_ok_disk: "index_ok (ix, wm, w) \<Longrightarrow> stored ix (page_bytes w (ix_path ix)) \<and> sorted_wrt (<) (ix_entries ix)"
  unfolding index_ok_def disk_def by simp

text \<open>
  A small index for the examples: no log, no failing system call, no entries, and its pages written.
\<close>

definition no_index :: istate where
  "no_index = (\<lparr>ix_path = ''i'', ix_txn = 0, ix_entries = [], ix_page_count = 2, ix_root = 1, ix_height = 1\<rparr>, None,
     \<lparr>w_files = Map.empty, w_dirs = {}, w_synced = (\<lambda>_. 0), w_script = []\<rparr>)"

lemma no_index_smooth: "smooth no_index" "apart no_index"
  by (simp_all add: no_index_def smooth_def apart_def calm_def)

lemma example_write:
  assumes "smooth (ix, t)" "short_entries (ix_entries ix)" "sorted_wrt (<) (ix_entries ix)"
  obtains s' where "ix_flush 64 (ix, t) = Some (True, s')" "index_ok s'" "smooth s'" "ix_entries (fst s') = ix_entries ix" "ix_path (fst s') = ix_path ix"
proof -
  have a: "apart (ix, t)" using assms(1) by (auto simp: smooth_def apart_def)
  obtain ok s' where w: "write_pages 64 (ix, t) = Some (ok, s')" using write_pages_ends [OF a, of 64] assms(2) by auto
  note r = write_pages_result [OF w a]
  have "ok" using r(6) assms(1,2) by simp
  then show ?thesis using that [of s'] w r a assms by (simp add: ix_flush_def index_ok_def)
qed

text \<open>
  C32. Writing the tree of an index ends: when no key is longer than 2038 bytes, 32 rounds of the loop over the levels are
  enough for any number of entries that 32-bit page numbers allow, and without failing system calls (and without a log)
  the write succeeds.
\<close>

theorem write_pages_terminates:
  assumes "apart s" "short_entries (ix_entries (fst s))" "32 \<le> fuel"
  shows "\<exists>ok s'. write_pages fuel s = Some (ok, s') \<and> (smooth s \<longrightarrow> ok)"
  using write_pages_ends [OF assms] write_pages_result(6) [OF _ assms(1,2)] by blast

theorem write_pages_terminates_witness: "\<exists>s'. write_pages 32 no_index = Some (True, s')"
  using write_pages_terminates [OF no_index_smooth(2), of 32] no_index_smooth(1)
  by (auto simp: no_index_def short_entries_def)

text \<open>
  With two or more keys that are all longer than 2038 bytes the loop over the levels runs for ever: each inner page has
  room for one such key only, so every level is as long as the one below. However many rounds are allowed, the write has not
  ended, although each of the entries fits into a leaf and is accepted by \<^verbatim>\<open>insert\<close>.
\<close>

lemma long_keys_never_written:
  assumes "smooth s" "2 \<le> length (ix_entries (fst s))" "\<forall>e\<in>set (ix_entries (fst s)). 2038 < length (fst e) \<and> length (fst e) \<le> 4076"
  shows "write_pages fuel s = None"
  by (rule write_pages_long [OF assms])

definition long_index :: istate where
  "long_index = apfst (ix_entries_update (\<lambda>_. [(replicate 2039 1, 0, 0), (replicate 2039 2, 0, 1)])) no_index"

theorem long_keys_never_written_witness: "write_pages 1000 long_index = None"
  by (rule long_keys_never_written) (simp_all add: long_index_def no_index_def smooth_def calm_def)


definition one_index :: istate where
  "one_index = apfst (ix_entries_update (\<lambda>_. [([7], 0, 1)])) no_index"

lemma one_index_written:
  obtains s' where "index_ok s'" "smooth s'" "ix_entries (fst s') = [([7], 0, 1)]"
proof -
  obtain ix t where s: "one_index = (ix, t)" by (cases one_index)
  then have ix: "ix_entries ix = [([7], 0, 1)]" "smooth (ix, t)" by (auto simp: one_index_def no_index_def smooth_def calm_def)
  show ?thesis using example_write [OF ix(2)] ix(1) that by (auto simp: short_entries_def short_key_def)
qed


text \<open>
  C31. Opening an index file that was written returns the index: the same entries, root, page count and height.
\<close>

theorem index_reopen_roundtrip:
  assumes "index_ok (ix, wm, w)" "open_create (ix_path ix) w = (True, w1)" "calm w1" "1 + length (ix_entries ix) \<le> fuel"
  shows "\<exists>w'. ix_new fuel (ix_path ix) txn wm2 w = Some (Inr (ix\<lparr>ix_txn := txn\<rparr>, wm2, w')) \<and> same_data w1 w'"
proof -
  have c: "contents w1 (ix_path ix) = contents w (ix_path ix)" using open_create_contents [OF assms(2)] by blast
  have st: "stored ix (page_bytes w1 (ix_path ix))" "sorted_wrt (<) (ix_entries ix)"
    using index_ok_disk [OF assms(1)] ext [of "page_bytes w1 (ix_path ix)", OF page_bytes_cong [OF c]] by simp_all
  show ?thesis using load_result [OF st assms(3,4), of "\<lparr>ix_path = ix_path ix, ix_txn = txn, ix_entries = [], ix_page_count = 2, ix_root = 1, ix_height = 1\<rparr>" wm2] assms(2)
    by (auto simp: ix_new_def)
qed

text \<open>A file that a script without interruptions reads.\<close>

lemma example_open: "w_script w = [] \<Longrightarrow> w_dirs w = {} \<Longrightarrow> open_create ''i'' w = (True, if w_files w ''i'' = None then w\<lparr>w_files := (w_files w)(''i'' \<mapsto> [])\<rparr> else w)"
  by (simp add: open_create_def next_outcome_def parent_exists_def parent_path_def)

lemma index_ok_world: "index_ok (ix, wm, w) \<Longrightarrow> w_files w' = w_files w \<Longrightarrow> index_ok (ix, wm, w')"
proof -
  assume a: "index_ok (ix, wm, w)" "w_files w' = w_files w"
  have "page_bytes w' p i = page_bytes w p i" for p i using a(2) by (intro page_bytes_cong) (simp add: contents_def)
  then have "disk (ix, wm, w') = disk (ix, wm, w)" by (simp add: disk_def fun_eq_iff)
  then show ?thesis using a(1) by (simp add: index_ok_def apart_def)
qed

lemma example_index:
  assumes "short_entries es" "sorted_wrt (<) es"
  obtains ix w where "index_ok (ix, None, w)" "calm w" "ix_entries ix = es" "open_create (ix_path ix) w = (True, w)"
proof -
  let ?ix = "\<lparr>ix_path = ''i'', ix_txn = 0, ix_entries = es, ix_page_count = 2, ix_root = 1, ix_height = 1\<rparr>"
  obtain t where t: "no_index = (fst no_index, t)" "smooth (?ix, t)" by (auto simp: no_index_def smooth_def calm_def)
  obtain s' where s': "index_ok s'" "smooth s'" "ix_entries (fst s') = es" "ix_path (fst s') = ''i''"
    using example_write [OF t(2)] assms by (metis index_file.select_convs(1) index_file.select_convs(3))
  obtain ix w where s: "s' = (ix, None, w)" using s'(2) by (cases s') (auto simp: smooth_def)
  let ?w = "w\<lparr>w_script := [], w_dirs := {}\<rparr>"
  have "w_files w ''i'' \<noteq> None"
  proof
    assume n: "w_files w ''i'' = None"
    have "page_bytes w ''i'' 0 = replicate PAGE_SIZE 0" using n by (intro nth_equalityI) (simp_all add: page_bytes_def contents_def byte_at_def)
    then have "ix_read_uint32 (page_bytes w ''i'' 0) 0 = 0" by (simp add: ix_read_uint32_def PAGE_SIZE_def)
    moreover obtain r c h where "page_bytes w ''i'' 0 = header_page r c h"
      using index_ok_disk [OF s'(1) [unfolded s]] s'(4) s by (auto simp: stored_def)
    ultimately show False using header_fields(1) [of r c h] by (simp add: INDEX_MAGIC_def)
  qed
  then have "open_create (ix_path ix) ?w = (True, ?w)" using example_open [of ?w] s'(4) s by auto
  moreover have "index_ok (ix, None, ?w)" using index_ok_world [OF s'(1) [unfolded s], of ?w] by simp
  ultimately show ?thesis using that [of ix ?w] s'(3) s by (simp add: calm_def)
qed

theorem index_reopen_roundtrip_witness:
  "\<exists>ix w w'. ix_entries ix = [([7], 0, 1)] \<and> ix_new 64 (ix_path ix) 5 None w = Some (Inr (ix\<lparr>ix_txn := 5\<rparr>, None, w'))"
proof -
  have sh: "short_entries [([7], 0, 1)]" "sorted_wrt (<) [([7], 0, 1) :: entry]" by (simp_all add: short_entries_def short_key_def)
  obtain ix w where i: "index_ok (ix, None, w)" "calm w" "ix_entries ix = [([7], 0, 1)]" "open_create (ix_path ix) w = (True, w)"
    using example_index [OF sh] .
  show ?thesis using index_reopen_roundtrip [OF i(1,4,2), of 64 5 None] i(3) by auto
qed

text \<open>
  C29. An exact lookup through the pages: with distinct keys, as in a unique index, \<^verbatim>\<open>find\<close> returns the record id of the key, if any;
  in general it returns a final part of the record ids of the key, never one of another key. The lookup ends, and it
  changes nothing.
\<close>

theorem index_find_correct:
  assumes "index_ok (ix, wm, w)" "calm w" "64 \<le> fuel"
  shows "\<exists>w' k. ix_find fuel key ix w = Some (drop k (map snd (filter (\<lambda>e. fst e = key) (ix_entries ix))), w') \<and> same_data w w' \<and>
    (distinct (map fst (ix_entries ix)) \<longrightarrow> k = 0)"
  using ix_find_result [OF conjunct1 conjunct2, OF index_ok_disk index_ok_disk, OF assms(1,1-3), of key] unfolding hits_def by blast

theorem index_find_correct_witness:
  "\<exists>ix w w'. ix_entries ix = [([7], 0, 1), ([8], 0, 2)] \<and> ix_find 64 [8] ix w = Some ([(0, 2)], w')"
proof -
  let ?es = "[([7], 0, 1), ([8], 0, 2)] :: entry list"
  have sh: "short_entries ?es" "sorted_wrt (<) ?es" by (simp_all add: short_entries_def short_key_def less_prod_def)
  obtain ix w where i: "index_ok (ix, None, w)" "calm w" "ix_entries ix = ?es" using example_index [OF sh] by metis
  obtain w' k where "ix_find 64 [8] ix w = Some (drop k (map snd (filter (\<lambda>e. fst e = [8]) ?es)), w')" "k = 0"
    using index_find_correct [OF i(1,2), of 64 "[8]"] i(3) by auto
  then show ?thesis using i(3) by auto
qed



text \<open>
  When the entries of one key do not fit into one leaf, \<^verbatim>\<open>find\<close> does not return all of them: the descent goes to the last
  leaf that begins with the key, and the leaves before it are never read.
\<close>

lemma index_find_misses_duplicates:
  assumes "index_ok (ix, wm, w)" "calm w" "64 \<le> fuel" "\<forall>e\<in>set (ix_entries ix). fst e = key" "PAGE_SIZE < leaf_size (ix_entries ix)"
  shows "\<exists>rids w'. ix_find fuel key ix w = Some (rids, w') \<and> length rids < length (ix_entries ix)"
proof -
  obtain w' k where k: "ix_find fuel key ix w = Some (drop k (hits key (ix_entries ix)), w')" "0 < k"
    using ix_find_result [OF conjunct1 conjunct2, OF index_ok_disk index_ok_disk, OF assms(1,1-3), of key] assms(4,5) by blast
  have "length (hits key (ix_entries ix)) = length (ix_entries ix)" using assms(4) by (simp add: hits_def)
  moreover have "ix_entries ix \<noteq> []" using assms(5) by (auto simp: index_consts)
  ultimately show ?thesis using k by auto
qed

theorem index_find_misses_duplicates_witness:
  "\<exists>ix w rids w'. ix_entries ix = [(replicate 2030 1, 0, 1), (replicate 2030 1, 0, 2), (replicate 2030 1, 0, 3)] \<and>
     ix_find 64 (replicate 2030 1) ix w = Some (rids, w') \<and> length rids < 3"
proof -
  let ?es = "[(replicate 2030 1, 0, 1), (replicate 2030 1, 0, 2), (replicate 2030 1, 0, 3)] :: entry list"
  have sh: "short_entries ?es" "sorted_wrt (<) ?es" by (simp_all add: short_entries_def short_key_def less_prod_def)
  obtain ix w where i: "index_ok (ix, None, w)" "calm w" "ix_entries ix = ?es" using example_index [OF sh] by metis
  have "\<forall>e\<in>set (ix_entries ix). fst e = replicate 2030 1" "PAGE_SIZE < leaf_size (ix_entries ix)" using i(3) by (simp_all add: leaf_size_def index_consts)
  then obtain rids w' where "ix_find 64 (replicate 2030 1) ix w = Some (rids, w')" "length rids < length (ix_entries ix)"
    using index_find_misses_duplicates [OF i(1,2), of 64 "replicate 2030 1"] by auto
  moreover have "length (ix_entries ix) = 3" using i(3) by simp
  ultimately show ?thesis using i(3) by metis
qed

end
