(* ===== verification/Lock_Manager.thy ===== *)
theory Lock_Manager
  imports Prelude "HOL-Library.AList" "HOL-Library.Multiset"
begin

text \<open>
  Table locks, from \<^verbatim>\<open>src/src/concurrency/lock_manager.cpp\<close>: threads lock tables by name through \<^verbatim>\<open>TableLock\<close> objects, with a
  \<^verbatim>\<open>thread_local\<close> count of the locks a thread has on each table. The table of mutexes holds weak pointers: a mutex lives while a
  \<^verbatim>\<open>TableLock\<close>, or a thread that waits in its constructor, refers to it. Threads interleave at the calls that can block: an
  event is one call, or one half of a constructor, before and after the wait.
\<close>

section \<open>State\<close>

type_synonym thread = nat

datatype TableLockMode = shared | exclusive

text \<open>A \<^verbatim>\<open>std::shared_timed_mutex\<close>: the number of shared owners, or one exclusive owner.\<close>

datatype mutex_state = Unlocked | Shared_by nat | Exclusive_owned

record TableLock =
  tl_key :: string
  tl_mutex :: "nat option"
  tl_mode :: TableLockMode
  tl_owns :: bool
  tl_locked :: bool

record waiting =
  wt_key :: string
  wt_mutex :: nat
  wt_mode :: TableLockMode
  wt_timed :: bool

text \<open>\<open>lm_next\<close> is the number of mutexes made so far; \<open>lm_locks\<close> are the \<^verbatim>\<open>TableLock\<close> objects that exist.\<close>

record lock_manager =
  lm_table_locks :: "string \<rightharpoonup> nat"
  lm_mutexes :: "nat \<Rightarrow> mutex_state"
  lm_next :: nat
  lm_held :: "thread \<Rightarrow> string \<rightharpoonup> u16"
  lm_waiting :: "(thread \<times> waiting) list"
  lm_locks :: "(nat \<times> TableLock) list"

definition lm_empty :: lock_manager where
  "lm_empty = \<lparr>lm_table_locks = Map.empty, lm_mutexes = (\<lambda>_. Unlocked), lm_next = 0, lm_held = (\<lambda>_. Map.empty), lm_waiting = [], lm_locks = []\<rparr>"

definition table_lock_default :: TableLock where
  "table_lock_default = \<lparr>tl_key = '''', tl_mutex = None, tl_mode = shared, tl_owns = False, tl_locked = False\<rparr>"

section \<open>Operations\<close>

text \<open>Whether a mutex is still referred to, as \<^verbatim>\<open>weak_ptr::lock\<close> tells.\<close>

definition mutex_alive :: "nat \<Rightarrow> lock_manager \<Rightarrow> bool" where
  "mutex_alive m s \<longleftrightarrow> list_ex (\<lambda>(h, l). tl_mutex l = Some m) (lm_locks s) \<or> list_ex (\<lambda>(t, w). wt_mutex w = m) (lm_waiting s)"

definition new_table_mutex :: "string \<Rightarrow> lock_manager \<Rightarrow> nat \<times> lock_manager" where
  "new_table_mutex table_key s =
     (lm_next s, s\<lparr>lm_table_locks := (lm_table_locks s)(table_key \<mapsto> lm_next s),
                   lm_mutexes := (lm_mutexes s)(lm_next s := Unlocked), lm_next := lm_next s + 1\<rparr>)"

definition mutex_for_table :: "string \<Rightarrow> lock_manager \<Rightarrow> nat \<times> lock_manager" where
  "mutex_for_table table_key s =
     (case lm_table_locks s table_key of
        None \<Rightarrow> new_table_mutex table_key s
      | Some m \<Rightarrow> if mutex_alive m s then (m, s) else new_table_mutex table_key s)"

definition can_lock :: "TableLockMode \<Rightarrow> mutex_state \<Rightarrow> bool" where
  "can_lock mode st = (case mode of shared \<Rightarrow> st \<noteq> Exclusive_owned | exclusive \<Rightarrow> st = Unlocked)"

definition mutex_lock :: "TableLockMode \<Rightarrow> mutex_state \<Rightarrow> mutex_state" where
  "mutex_lock mode st =
     (case mode of
        shared \<Rightarrow> (case st of Shared_by n \<Rightarrow> Shared_by (n + 1) | _ \<Rightarrow> Shared_by 1)
      | exclusive \<Rightarrow> Exclusive_owned)"

definition mutex_unlock :: "TableLockMode \<Rightarrow> mutex_state \<Rightarrow> mutex_state" where
  "mutex_unlock mode st =
     (case mode of
        shared \<Rightarrow> (case st of Shared_by n \<Rightarrow> if n \<le> 1 then Unlocked else Shared_by (n - 1) | _ \<Rightarrow> st)
      | exclusive \<Rightarrow> Unlocked)"

definition held_count :: "thread \<Rightarrow> string \<Rightarrow> lock_manager \<Rightarrow> u16" where
  "held_count t key s = (case lm_held s t key of None \<Rightarrow> 0 | Some n \<Rightarrow> n)"

text \<open>
  \<^verbatim>\<open>lock_table_shared\<close>, \<^verbatim>\<open>lock_table_exclusive\<close> and the two timed variants, up to the wait in the constructor of
  \<^verbatim>\<open>TableLock\<close>.
\<close>

definition begin_lock :: "thread \<Rightarrow> string \<Rightarrow> TableLockMode \<Rightarrow> bool \<Rightarrow> lock_manager \<Rightarrow> lock_manager option" where
  "begin_lock t table_key mode timed s =
     (if map_of (lm_waiting s) t \<noteq> None then None
      else case mutex_for_table table_key s of (m, s) \<Rightarrow>
        Some (s\<lparr>lm_waiting := (t, \<lparr>wt_key = table_key, wt_mutex = m, wt_mode = mode, wt_timed = timed\<rparr>) # lm_waiting s\<rparr>))"

text \<open>The blocking constructor; the result \<open>None\<close> is a thread that has to wait.\<close>

definition table_lock_new :: "thread \<Rightarrow> nat \<Rightarrow> waiting \<Rightarrow> lock_manager \<Rightarrow> lock_manager option" where
  "table_lock_new t h w s =
     (let n = held_count t (wt_key w) s; s = s\<lparr>lm_waiting := AList.delete t (lm_waiting s)\<rparr>;
          l = \<lparr>tl_key = wt_key w, tl_mutex = Some (wt_mutex w), tl_mode = wt_mode w, tl_owns = True, tl_locked = (n = 0)\<rparr>;
          s' = s\<lparr>lm_held := (lm_held s)(t := (lm_held s t)(wt_key w \<mapsto> n + 1)), lm_locks := (h, l) # lm_locks s\<rparr>
      in if n \<noteq> 0 then Some s'
         else if \<not> can_lock (wt_mode w) (lm_mutexes s (wt_mutex w)) then None
         else Some (s'\<lparr>lm_mutexes := (lm_mutexes s)(wt_mutex w := mutex_lock (wt_mode w) (lm_mutexes s (wt_mutex w)))\<rparr>))"

text \<open>The constructor with a timeout; \<open>got\<close> is the result of \<^verbatim>\<open>try_lock_for\<close>, which can be true only when the mutex is free.\<close>

definition table_lock_new_timed :: "thread \<Rightarrow> nat \<Rightarrow> bool \<Rightarrow> waiting \<Rightarrow> lock_manager \<Rightarrow> lock_manager option" where
  "table_lock_new_timed t h got w s =
     (if held_count t (wt_key w) s \<noteq> 0 \<or> got then table_lock_new t h w s
      else let s = s\<lparr>lm_waiting := AList.delete t (lm_waiting s)\<rparr>;
               l = \<lparr>tl_key = wt_key w, tl_mutex = Some (wt_mutex w), tl_mode = wt_mode w, tl_owns = False, tl_locked = False\<rparr>
           in Some (s\<lparr>lm_held := (lm_held s)(t := (lm_held s t)(wt_key w := None)), lm_locks := (h, l) # lm_locks s\<rparr>))"

definition tl_unlock :: "thread \<Rightarrow> TableLock \<Rightarrow> lock_manager \<Rightarrow> TableLock \<times> lock_manager" where
  "tl_unlock t l s =
     (case tl_mutex l of
        None \<Rightarrow> (l, s)
      | Some m \<Rightarrow>
          if \<not> tl_owns l then (l, s)
          else (l\<lparr>tl_owns := False, tl_locked := False\<rparr>,
            case lm_held s t (tl_key l) of
              None \<Rightarrow> s
            | Some n \<Rightarrow>
                if n - 1 = 0 then
                  let s = s\<lparr>lm_held := (lm_held s)(t := (lm_held s t)(tl_key l := None))\<rparr>
                  in if tl_locked l then s\<lparr>lm_mutexes := (lm_mutexes s)(m := mutex_unlock (tl_mode l) (lm_mutexes s m))\<rparr> else s
                else s\<lparr>lm_held := (lm_held s)(t := (lm_held s t)(tl_key l \<mapsto> n - 1))\<rparr>))"

text \<open>What moving out of a \<^verbatim>\<open>TableLock\<close> leaves in it: no mutex and an empty key.\<close>

definition moved_from :: "TableLock \<Rightarrow> TableLock" where
  "moved_from l = l\<lparr>tl_key := '''', tl_mutex := None, tl_owns := False, tl_locked := False\<rparr>"

section \<open>Events\<close>

datatype lock_event =
    Begin_lock thread string TableLockMode bool
  | End_lock thread nat
  | End_timed_lock thread nat bool
  | Default_lock nat
  | Destroy_lock thread nat
  | Move_lock nat nat
  | Assign_lock thread nat nat

fun lock_step :: "lock_event \<Rightarrow> lock_manager \<Rightarrow> lock_manager option" where
  "lock_step (Begin_lock t table_key mode timed) s = begin_lock t table_key mode timed s"
| "lock_step (End_lock t h) s =
     (case map_of (lm_waiting s) t of
        Some w \<Rightarrow> if wt_timed w \<or> map_of (lm_locks s) h \<noteq> None then None else table_lock_new t h w s
      | None \<Rightarrow> None)"
| "lock_step (End_timed_lock t h got) s =
     (case map_of (lm_waiting s) t of
        Some w \<Rightarrow> if \<not> wt_timed w \<or> map_of (lm_locks s) h \<noteq> None then None else table_lock_new_timed t h got w s
      | None \<Rightarrow> None)"
| "lock_step (Default_lock h) s =
     (if map_of (lm_locks s) h \<noteq> None then None else Some (s\<lparr>lm_locks := (h, table_lock_default) # lm_locks s\<rparr>))"
| "lock_step (Destroy_lock t h) s =
     (case map_of (lm_locks s) h of
        None \<Rightarrow> None
      | Some l \<Rightarrow> case tl_unlock t l s of (l, s) \<Rightarrow> Some (s\<lparr>lm_locks := AList.delete h (lm_locks s)\<rparr>))"
| "lock_step (Move_lock h other) s =
     (case map_of (lm_locks s) other of
        None \<Rightarrow> None
      | Some l \<Rightarrow> if map_of (lm_locks s) h \<noteq> None then None
                  else Some (s\<lparr>lm_locks := (h, l) # AList.update other (moved_from l) (lm_locks s)\<rparr>))"
| "lock_step (Assign_lock t h other) s =
     (case (map_of (lm_locks s) h, map_of (lm_locks s) other) of
        (Some l, Some l') \<Rightarrow>
          if h = other then Some s
          else (case tl_unlock t l s of (l, s) \<Rightarrow>
            Some (s\<lparr>lm_locks := AList.update h l' (AList.update other (moved_from l') (lm_locks s))\<rparr>))
      | _ \<Rightarrow> None)"

inductive lock_reachable :: "lock_manager \<Rightarrow> bool" where
  Empty: "lock_reachable lm_empty"
| Step: "lock_reachable s \<Longrightarrow> lock_step ev s = Some s' \<Longrightarrow> lock_reachable s'"

inductive_cases lock_reachable_cases: "lock_reachable s"

section \<open>Exclusion\<close>

text \<open>The \<^verbatim>\<open>TableLock\<close> objects that have locked a mutex, as a multiset.\<close>

abbreviation table_locks :: "lock_manager \<Rightarrow> TableLock multiset" where
  "table_locks s \<equiv> mset (map snd (lm_locks s))"

definition locks_on :: "nat \<Rightarrow> TableLock \<Rightarrow> bool" where
  "locks_on m l \<longleftrightarrow> tl_owns l \<and> tl_locked l \<and> tl_mutex l = Some m"

definition locked_on :: "nat \<Rightarrow> TableLock multiset \<Rightarrow> TableLock multiset" where
  "locked_on m F = filter_mset (locks_on m) F"

definition mutex_fits :: "mutex_state \<Rightarrow> TableLock multiset \<Rightarrow> bool" where
  "mutex_fits st F =
     (case st of
        Unlocked \<Rightarrow> F = {#}
      | Shared_by n \<Rightarrow> size F \<le> n \<and> (\<forall>l. l \<in># F \<longrightarrow> tl_mode l = shared)
      | Exclusive_owned \<Rightarrow> size F \<le> 1 \<and> (\<forall>l. l \<in># F \<longrightarrow> tl_mode l = exclusive))"

definition lock_inv :: "lock_manager \<Rightarrow> bool" where
  "lock_inv s \<longleftrightarrow> distinct (map fst (lm_locks s)) \<and>
     (\<forall>m. mutex_fits (lm_mutexes s m) (locked_on m (table_locks s))) \<and>
     (\<forall>l m. l \<in># table_locks s \<longrightarrow> tl_mutex l = Some m \<longrightarrow> lm_table_locks s (tl_key l) = Some m) \<and>
     (\<forall>w. w \<in> snd ` set (lm_waiting s) \<longrightarrow> lm_table_locks s (wt_key w) = Some (wt_mutex w)) \<and>
     (\<forall>k m. lm_table_locks s k = Some m \<longrightarrow> m < lm_next s) \<and>
     (\<forall>k k' m. lm_table_locks s k = Some m \<longrightarrow> lm_table_locks s k' = Some m \<longrightarrow> k = k')"

lemma lock_invD:
  assumes "lock_inv s"
  shows "distinct (map fst (lm_locks s))" "mutex_fits (lm_mutexes s m) (locked_on m (table_locks s))"
    "l \<in># table_locks s \<Longrightarrow> tl_mutex l = Some m \<Longrightarrow> lm_table_locks s (tl_key l) = Some m"
    "w \<in> snd ` set (lm_waiting s) \<Longrightarrow> lm_table_locks s (wt_key w) = Some (wt_mutex w)"
    "lm_table_locks s k = Some m \<Longrightarrow> m < lm_next s"
    "lm_table_locks s k = Some m \<Longrightarrow> lm_table_locks s k' = Some m \<Longrightarrow> k = k'"
  using assms unfolding lock_inv_def by blast+

lemma locked_on_simps [simp]:
  "locked_on m {#} = {#}" "locked_on m (F + G) = locked_on m F + locked_on m G" "locked_on m (F - G) = locked_on m F - locked_on m G"
  "locked_on m (add_mset l F) = (if locks_on m l then add_mset l (locked_on m F) else locked_on m F)"
  by (simp_all add: locked_on_def)

lemma mutex_fits_sub: "mutex_fits st F \<Longrightarrow> G \<subseteq># F \<Longrightarrow> mutex_fits st G"
  unfolding mutex_fits_def by (cases st) (auto dest: size_mset_mono mset_subset_eqD)

lemma mutex_fits_lock: "mutex_fits st F \<Longrightarrow> can_lock (tl_mode l) st \<Longrightarrow> mutex_fits (mutex_lock (tl_mode l) st) (add_mset l F)"
  unfolding mutex_fits_def can_lock_def mutex_lock_def by (cases st; cases "tl_mode l") auto

lemma mutex_fits_two: "mutex_fits st {#a, b#} \<Longrightarrow> tl_mode a = shared \<and> tl_mode b = shared"
proof -
  assume f: "mutex_fits st {#a, b#}"
  have m: "a \<in># {#a, b#}" "b \<in># {#a, b#}" "size {#a, b#} = 2" by simp_all
  show ?thesis
  proof (cases st)
    case Unlocked
    then have "{#a, b#} = {#}" using f unfolding mutex_fits_def by (simp only: mutex_state.case)
    then show ?thesis by simp
  next
    case (Shared_by n)
    then have "\<forall>l. l \<in># {#a, b#} \<longrightarrow> tl_mode l = shared" using f unfolding mutex_fits_def Shared_by mutex_state.case by blast
    then show ?thesis using m(1,2) by blast
  next
    case Exclusive_owned
    then have "size {#a, b#} \<le> 1" using f unfolding mutex_fits_def Exclusive_owned mutex_state.case by blast
    then show ?thesis using m(3) by simp
  qed
qed

lemma mutex_fits_unlock: "mutex_fits st F \<Longrightarrow> l \<in># F \<Longrightarrow> mutex_fits (mutex_unlock (tl_mode l) st) (F - {#l#})"
proof -
  assume f: "mutex_fits st F" and l: "l \<in># F"
  then obtain G where F: "F = add_mset l G" by (metis insert_DiffM)
  show ?thesis using f unfolding F mutex_fits_def mutex_unlock_def by (cases st; cases "tl_mode l") (auto simp flip: size_eq_0_iff_empty split: if_splits)
qed

lemma alist_split:
  assumes "distinct (map fst xs)" "map_of xs k = Some v"
  obtains as bs where "xs = as @ (k, v) # bs" "k \<notin> fst ` set as" "k \<notin> fst ` set bs"
proof -
  have "(k, v) \<in> set xs" using assms(2) by (rule map_of_SomeD)
  then obtain as bs where s: "xs = as @ (k, v) # bs" by (metis split_list)
  then show ?thesis using that [OF s] assms(1) by auto
qed

lemma alist_delete_mset:
  assumes "distinct (map fst xs)" "map_of xs k = Some v"
  shows "mset (map snd (AList.delete k xs)) = mset (map snd xs) - {#v#}" "distinct (map fst (AList.delete k xs))"
proof -
  obtain as bs where s: "xs = as @ (k, v) # bs" "k \<notin> fst ` set as" "k \<notin> fst ` set bs" using alist_split [OF assms] .
  have d: "AList.delete k ys = ys" if "k \<notin> fst ` set ys" for ys :: "('a \<times> 'b) list" using that by (induction ys) auto
  have "AList.delete k xs = as @ bs" using d [OF s(2)] d [OF s(3)] by (simp add: s(1) AList.delete_eq)
  then show "mset (map snd (AList.delete k xs)) = mset (map snd xs) - {#v#}" "distinct (map fst (AList.delete k xs))" using assms(1) s(1) by auto
qed

lemma alist_update_mset:
  assumes "distinct (map fst xs)" "map_of xs k = Some v"
  shows "mset (map snd (AList.update k v' xs)) = add_mset v' (mset (map snd xs) - {#v#})" "distinct (map fst (AList.update k v' xs))"
proof -
  obtain as bs where s: "xs = as @ (k, v) # bs" "k \<notin> fst ` set as" using alist_split [OF assms] by metis
  have u: "AList.update k v' (ys @ (k, v) # bs) = ys @ (k, v') # bs" if "k \<notin> fst ` set ys" for ys using that by (induction ys) auto
  have e: "AList.update k v' xs = as @ (k, v') # bs" unfolding s(1) by (rule u [OF s(2)])
  show "mset (map snd (AList.update k v' xs)) = add_mset v' (mset (map snd xs) - {#v#})" unfolding e by (simp add: s(1))
  show "distinct (map fst (AList.update k v' xs))" using assms(1) unfolding e by (simp add: s(1))
qed

lemma map_of_snd: "map_of xs k = Some v \<Longrightarrow> v \<in># mset (map snd xs)"
  by (force dest: map_of_SomeD)

lemma two_locks:
  assumes "map_of xs h = Some a" "map_of xs k = Some b" "h \<noteq> k" "distinct (map fst xs)"
  shows "{#a, b#} \<subseteq># mset (map snd xs)"
proof -
  have "map_of (AList.delete h xs) k = Some b" using assms(2,3) by (simp add: AList.delete_conv)
  then have "b \<in># mset (map snd xs) - {#a#}" using map_of_snd alist_delete_mset(1) [OF assms(4,1)] by metis
  then show ?thesis using map_of_snd [OF assms(1)] by (simp add: insert_subset_eq_iff)
qed

text \<open>Releasing a lock and taking it out of the multiset of locks keeps the mutexes consistent.\<close>

lemma tl_unlock_result:
  assumes "tl_unlock t l s = (l', s')" "lock_inv s" "l \<in># table_locks s"
  shows "lm_table_locks s' = lm_table_locks s" "lm_next s' = lm_next s" "lm_waiting s' = lm_waiting s" "lm_locks s' = lm_locks s"
    "mutex_fits (lm_mutexes s' m) (locked_on m (table_locks s - {#l#}))"
proof -
  show "lm_table_locks s' = lm_table_locks s" "lm_next s' = lm_next s" "lm_waiting s' = lm_waiting s" "lm_locks s' = lm_locks s"
    using assms(1) by (auto simp: tl_unlock_def Let_def split: option.splits if_splits)
  note f = lock_invD(2) [OF assms(2), of m]
  have same: "mutex_fits (lm_mutexes s m) (locked_on m (table_locks s - {#l#}))" by (rule mutex_fits_sub [OF f]) simp
  consider "lm_mutexes s' = lm_mutexes s"
    | n where "tl_mutex l = Some n" "tl_owns l" "tl_locked l" "lm_mutexes s' = (lm_mutexes s)(n := mutex_unlock (tl_mode l) (lm_mutexes s n))"
    using assms(1) by (auto simp: tl_unlock_def Let_def split: option.splits if_splits)
  then show "mutex_fits (lm_mutexes s' m) (locked_on m (table_locks s - {#l#}))"
  proof cases
    case 2
    show ?thesis
    proof (cases "n = m")
      case True
      then have lo: "locks_on m l" using 2 by (simp add: locks_on_def)
      then have "l \<in># locked_on m (table_locks s)" using assms(3) by (simp add: locked_on_def)
      from mutex_fits_unlock [OF f this] show ?thesis using 2 True lo by simp
    next
      case False then show ?thesis using 2 same by simp
    qed
  qed (use same in simp)
qed

lemma lock_invI:
  assumes "lock_inv s" "lm_table_locks s' = lm_table_locks s" "lm_next s' = lm_next s" "set (lm_waiting s') \<subseteq> set (lm_waiting s)"
    and "distinct (map fst (lm_locks s'))" "\<And>m. mutex_fits (lm_mutexes s' m) (locked_on m (table_locks s'))"
    and "\<And>l. l \<in># table_locks s' \<Longrightarrow> tl_mutex l \<noteq> None \<Longrightarrow> l \<in># table_locks s \<or> lm_table_locks s (tl_key l) = tl_mutex l"
  shows "lock_inv s'"
  unfolding lock_inv_def
proof (intro conjI allI impI)
  show "lm_table_locks s' (tl_key l) = Some m" if "l \<in># table_locks s'" "tl_mutex l = Some m" for l m
    using assms(7) [OF that(1)] that(2) lock_invD(3) [OF assms(1), of l m] assms(2) by auto
  show "lm_table_locks s' (wt_key w) = Some (wt_mutex w)" if "w \<in> snd ` set (lm_waiting s')" for w
    using lock_invD(4) [OF assms(1), of w] assms(2,4) that by auto
qed (use assms lock_invD(5,6) [OF assms(1)] in auto)

lemma not_in_keys: "map_of xs k = None \<Longrightarrow> k \<notin> fst ` set xs"
  by (simp add: map_of_eq_None_iff)

lemma waiting_mutex: "lock_inv s \<Longrightarrow> map_of (lm_waiting s) t = Some w \<Longrightarrow> lm_table_locks s (wt_key w) = Some (wt_mutex w)"
  using lock_invD(4) by (force dest: map_of_SomeD)

lemma table_lock_new_inv:
  assumes "lock_inv s" "map_of (lm_waiting s) t = Some w" "map_of (lm_locks s) h = None" "table_lock_new t h w s = Some s'"
  shows "lock_inv s'"
proof -
  let ?l = "\<lparr>tl_key = wt_key w, tl_mutex = Some (wt_mutex w), tl_mode = wt_mode w, tl_owns = True, tl_locked = (held_count t (wt_key w) s = 0)\<rparr>"
  have e: "lm_table_locks s' = lm_table_locks s" "lm_next s' = lm_next s" "lm_waiting s' = AList.delete t (lm_waiting s)" "lm_locks s' = (h, ?l) # lm_locks s"
    using assms(4) by (auto simp: table_lock_new_def Let_def split: if_splits)
  have fit: "mutex_fits (lm_mutexes s' m) (locked_on m (table_locks s'))" for m
  proof -
    note f = lock_invD(2) [OF assms(1), of m]
    show ?thesis
    proof (cases "locks_on m ?l")
      case False
      have "lm_mutexes s' m = lm_mutexes s m" using assms(4) False by (auto simp: table_lock_new_def Let_def locks_on_def split: if_splits)
      then show ?thesis using f False by (simp add: e(4))
    next
      case True
      then have "can_lock (wt_mode w) (lm_mutexes s m)" "lm_mutexes s' m = mutex_lock (wt_mode w) (lm_mutexes s m)"
        using assms(4) by (auto simp: table_lock_new_def Let_def locks_on_def split: if_splits)
      then show ?thesis using mutex_fits_lock [OF f, of ?l] True by (simp add: e(4))
    qed
  qed
  show ?thesis
    by (rule lock_invI [OF assms(1) e(1,2)])
      (use lock_invD(1) [OF assms(1)] not_in_keys [OF assms(3)] fit waiting_mutex [OF assms(1,2)] in \<open>auto simp: e(3,4) AList.delete_eq\<close>)
qed

lemma begin_lock_inv:
  assumes "lock_inv s" "begin_lock t k mode timed s = Some s'"
  shows "lock_inv s'"
proof -
  obtain m s1 where mt: "mutex_for_table k s = (m, s1)" by (cases "mutex_for_table k s")
  let ?w = "\<lparr>wt_key = k, wt_mutex = m, wt_mode = mode, wt_timed = timed\<rparr>"
  have s': "s' = s1\<lparr>lm_waiting := (t, ?w) # lm_waiting s1\<rparr>" using assms(2) mt by (auto simp: begin_lock_def split: if_splits)
  show ?thesis
  proof (cases "lm_table_locks s k = Some m \<and> s1 = s")
    case True
    then show ?thesis using assms(1) unfolding s' lock_inv_def by auto
  next
    case False
    have new: "new_table_mutex k s = (m, s1)" and dead: "\<And>n. lm_table_locks s k = Some n \<Longrightarrow> \<not> mutex_alive n s"
      using mt False by (auto simp: mutex_for_table_def split: option.splits if_splits)
    have e: "lm_locks s1 = lm_locks s" "lm_mutexes s1 = (lm_mutexes s)(lm_next s := Unlocked)" "m = lm_next s" "lm_next s1 = lm_next s + 1"
      "lm_table_locks s1 = (lm_table_locks s)(k \<mapsto> lm_next s)" "lm_waiting s1 = lm_waiting s"
      using new by (auto simp: new_table_mutex_def)
    have dk: "tl_key l \<noteq> k" if "l \<in># table_locks s" "tl_mutex l = Some n" for l n
    proof
      assume "tl_key l = k"
      then have "lm_table_locks s k = Some n" using lock_invD(3) [OF assms(1) that] by simp
      from dead [OF this] show False using that by (auto simp: mutex_alive_def list_ex_iff)
    qed
    have dw: "wt_key w \<noteq> k" if "w \<in> snd ` set (lm_waiting s)" for w
    proof
      assume "wt_key w = k"
      then have "lm_table_locks s k = Some (wt_mutex w)" using lock_invD(4) [OF assms(1) that] by simp
      from dead [OF this] show False using that by (auto simp: mutex_alive_def list_ex_iff)
    qed
    have lo: "locked_on (lm_next s) (table_locks s) = {#}"
    proof -
      have "\<not> locks_on (lm_next s) l" if "l \<in># table_locks s" for l
        using lock_invD(3) [OF assms(1) that, of "lm_next s"] lock_invD(5) [OF assms(1)] by (auto simp: locks_on_def)
      then show ?thesis by (auto simp: locked_on_def filter_mset_eq_conv)
    qed
    have fit: "mutex_fits (lm_mutexes s1 n) (locked_on n (table_locks s))" for n
      using lo lock_invD(2) [OF assms(1), of n] by (cases "n = lm_next s") (simp_all add: e(2) mutex_fits_def)
    have old: "n < lm_next s" if "lm_table_locks s x = Some n" for x n by (rule lock_invD(5) [OF assms(1) that])
    show ?thesis unfolding lock_inv_def
    proof (intro conjI allI impI)
      show "distinct (map fst (lm_locks s'))" using lock_invD(1) [OF assms(1)] by (simp add: s' e(1))
      show "mutex_fits (lm_mutexes s' n) (locked_on n (table_locks s'))" for n using fit by (simp add: s' e(1))
      show "lm_table_locks s' (tl_key l) = Some n" if "l \<in># table_locks s'" "tl_mutex l = Some n" for l n
        using lock_invD(3) [OF assms(1), of l n] dk [of l n] that by (simp add: s' e(1,5))
      show "lm_table_locks s' (wt_key w) = Some (wt_mutex w)" if "w \<in> snd ` set (lm_waiting s')" for w
      proof -
        have "w = ?w \<or> w \<in> snd ` set (lm_waiting s)" using that by (simp add: s' e(6))
        then show ?thesis using lock_invD(4) [OF assms(1), of w] dw [of w] by (auto simp: s' e(3,5))
      qed
      show "n < lm_next s'" if "lm_table_locks s' x = Some n" for x n using that old [of x n] by (auto simp: s' e(4,5) split: if_splits)
      show "x = y" if "lm_table_locks s' x = Some n" "lm_table_locks s' y = Some n" for x y n
        using that old [of x n] old [of y n] lock_invD(6) [OF assms(1), of x n y] by (auto simp: s' e(5) split: if_splits)
    qed
  qed
qed

lemma lock_step_inv:
  assumes "lock_inv s" "lock_step ev s = Some s'"
  shows "lock_inv s'"
proof (cases ev)
  case (Begin_lock t k mode timed)
  then show ?thesis using assms begin_lock_inv [OF assms(1)] by simp
next
  case (End_lock t h)
  then show ?thesis using assms table_lock_new_inv [OF assms(1)] by (auto split: option.splits if_splits)
next
  case (End_timed_lock t h got)
  then obtain w where w: "map_of (lm_waiting s) t = Some w" "map_of (lm_locks s) h = None" "table_lock_new_timed t h got w s = Some s'"
    using assms(2) by (auto split: option.splits if_splits)
  show ?thesis
  proof (cases "held_count t (wt_key w) s \<noteq> 0 \<or> got")
    case True
    then show ?thesis using w table_lock_new_inv [OF assms(1) w(1,2)] by (simp add: table_lock_new_timed_def)
  next
    case False
    let ?l = "\<lparr>tl_key = wt_key w, tl_mutex = Some (wt_mutex w), tl_mode = wt_mode w, tl_owns = False, tl_locked = False\<rparr>"
    have e: "lm_table_locks s' = lm_table_locks s" "lm_next s' = lm_next s" "lm_waiting s' = AList.delete t (lm_waiting s)" "lm_locks s' = (h, ?l) # lm_locks s" "lm_mutexes s' = lm_mutexes s"
      using w(3) False by (auto simp: table_lock_new_timed_def Let_def)
    show ?thesis
      by (rule lock_invI [OF assms(1) e(1,2)])
        (use lock_invD(1,2) [OF assms(1)] not_in_keys [OF w(2)] waiting_mutex [OF assms(1) w(1)] in \<open>auto simp: e(3-5) AList.delete_eq locks_on_def\<close>)
  qed
next
  case (Default_lock h)
  then have n: "map_of (lm_locks s) h = None" "s' = s\<lparr>lm_locks := (h, table_lock_default) # lm_locks s\<rparr>" using assms(2) by (auto split: if_splits)
  show ?thesis
    by (rule lock_invI [OF assms(1)]) (use lock_invD(1,2) [OF assms(1)] not_in_keys [OF n(1)] in \<open>auto simp: n(2) table_lock_default_def locks_on_def\<close>)
next
  case (Destroy_lock t h)
  then obtain l where l: "map_of (lm_locks s) h = Some l" using assms(2) by (auto split: option.splits)
  obtain l' s1 where u: "tl_unlock t l s = (l', s1)" by (cases "tl_unlock t l s")
  note r = tl_unlock_result [OF u assms(1) map_of_snd [OF l]] and d = alist_delete_mset [OF lock_invD(1) [OF assms(1)] l]
  have s': "s' = s1\<lparr>lm_locks := AList.delete h (lm_locks s1)\<rparr>" using assms(2) Destroy_lock l u by simp
  have tl: "table_locks s' = table_locks s - {#l#}" using d(1) r(4) by (simp add: s')
  show ?thesis
  proof (rule lock_invI [OF assms(1)])
    show "mutex_fits (lm_mutexes s' m) (locked_on m (table_locks s'))" for m unfolding tl using r(5) by (simp add: s')
    show "x \<in># table_locks s \<or> lm_table_locks s (tl_key x) = tl_mutex x" if "x \<in># table_locks s'" for x
      using that unfolding tl by (blast dest: in_diffD)
  qed (use r d(2) in \<open>simp_all add: s'\<close>)
next
  case (Move_lock h h2)
  then obtain l where l: "map_of (lm_locks s) h2 = Some l" "map_of (lm_locks s) h = None" using assms(2) by (auto split: option.splits if_splits)
  note d = alist_update_mset [OF lock_invD(1) [OF assms(1)] l(1), of "moved_from l"]
  have s': "s' = s\<lparr>lm_locks := (h, l) # AList.update h2 (moved_from l) (lm_locks s)\<rparr>" using assms(2) Move_lock l by simp
  have ne: "h \<noteq> h2" using l by auto
  have "add_mset l (table_locks s - {#l#}) = table_locks s" using map_of_snd [OF l(1)] by simp
  then have tl: "table_locks s' = add_mset (moved_from l) (table_locks s)" using d(1) by (simp add: s' add_mset_commute)
  have lo: "locked_on m (table_locks s') = locked_on m (table_locks s)" for m
    unfolding tl by (simp add: locks_on_def moved_from_def)
  show ?thesis
  proof (rule lock_invI [OF assms(1)])
    show "distinct (map fst (lm_locks s'))" using d(2) not_in_keys [OF l(2)] ne by (simp add: s' dom_update)
    show "mutex_fits (lm_mutexes s' m) (locked_on m (table_locks s'))" for m unfolding lo using lock_invD(2) [OF assms(1), of m] by (simp add: s')
    show "x \<in># table_locks s \<or> lm_table_locks s (tl_key x) = tl_mutex x" if "x \<in># table_locks s'" "tl_mutex x \<noteq> None" for x
      using that unfolding tl by (auto simp: moved_from_def)
  qed (simp_all add: s')
next
  case (Assign_lock t h h2)
  then obtain l l2 where l: "map_of (lm_locks s) h = Some l" "map_of (lm_locks s) h2 = Some l2" using assms(2) by (auto split: option.splits)
  show ?thesis
  proof (cases "h = h2")
    case True then show ?thesis using assms Assign_lock l by simp
  next
    case ne: False
    obtain l' s1 where u: "tl_unlock t l s = (l', s1)" by (cases "tl_unlock t l s")
    note r = tl_unlock_result [OF u assms(1) map_of_snd [OF l(1)]]
    have s': "s' = s1\<lparr>lm_locks := AList.update h l2 (AList.update h2 (moved_from l2) (lm_locks s))\<rparr>"
      using assms(2) Assign_lock l u ne r(4) by simp
    note d2 = alist_update_mset [OF lock_invD(1) [OF assms(1)] l(2), of "moved_from l2"]
    have lh: "map_of (AList.update h2 (moved_from l2) (lm_locks s)) h = Some l" using l(1) ne by (simp add: AList.update_conv)
    note d1 = alist_update_mset [OF d2(2) lh, of l2]
    obtain G where G: "table_locks s = {#l, l2#} + G"
      using two_locks [OF l ne lock_invD(1) [OF assms(1)]] unfolding mset_subset_eq_exists_conv by blast
    have "table_locks s' = add_mset l2 (add_mset (moved_from l2) (table_locks s - {#l2#}) - {#l#})" using d1(1) d2(1) by (simp add: s')
    then have tl: "table_locks s' = add_mset (moved_from l2) (table_locks s - {#l#})" unfolding G by (simp add: add_mset_commute)
    have lo: "locked_on m (table_locks s') = locked_on m (table_locks s - {#l#})" for m unfolding tl by (simp add: locks_on_def moved_from_def)
    show ?thesis
    proof (rule lock_invI [OF assms(1)])
      show "mutex_fits (lm_mutexes s' m) (locked_on m (table_locks s'))" for m unfolding lo using r(5) by (simp add: s')
      show "x \<in># table_locks s \<or> lm_table_locks s (tl_key x) = tl_mutex x" if "x \<in># table_locks s'" "tl_mutex x \<noteq> None" for x
        using that unfolding tl by (auto simp: moved_from_def dest: in_diffD)
    qed (use r d1(2) in \<open>simp_all add: s'\<close>)
  qed
qed

lemma lock_reachable_inv: "lock_reachable s \<Longrightarrow> lock_inv s"
proof (induction rule: lock_reachable.induct)
  case Empty
  show ?case by (simp add: lock_inv_def lm_empty_def mutex_fits_def)
next
  case (Step s ev s')
  then show ?case by (blast intro: lock_step_inv)
qed

section \<open>Runs\<close>

fun lock_run :: "lock_event list \<Rightarrow> lock_manager \<Rightarrow> lock_manager option" where
  "lock_run [] s = Some s"
| "lock_run (ev # evs) s = (case lock_step ev s of None \<Rightarrow> None | Some s \<Rightarrow> lock_run evs s)"

lemma lock_run_reachable: "lock_reachable s \<Longrightarrow> lock_run evs s = Some s' \<Longrightarrow> lock_reachable s'"
  by (induction evs arbitrary: s) (auto split: option.splits intro: lock_reachable.Step)

text \<open>
  C33. Table locks exclude each other: in every state that the threads can reach, however their calls interleave, two lock objects that have
  locked the mutex of the same table are both shared. In particular all of them use the same mutex, although the table of
  mutexes forgets the ones that no lock object refers to.
\<close>

theorem table_lock_exclusion:
  assumes "lock_reachable s" "map_of (lm_locks s) h = Some l" "map_of (lm_locks s) k = Some l'" "h \<noteq> k"
    "tl_owns l" "tl_locked l" "tl_mutex l \<noteq> None" "tl_owns l'" "tl_locked l'" "tl_mutex l' \<noteq> None" "tl_key l = tl_key l'"
  shows "tl_mode l = shared \<and> tl_mode l' = shared \<and> tl_mutex l = tl_mutex l'"
proof -
  have inv: "lock_inv s" by (rule lock_reachable_inv [OF assms(1)])
  obtain m where m: "tl_mutex l = Some m" using assms(7) by auto
  obtain m2 where m2: "tl_mutex l' = Some m2" using assms(10) by auto
  have m': "tl_mutex l' = Some m"
    using lock_invD(3) [OF inv map_of_snd [OF assms(2)] m] lock_invD(3) [OF inv map_of_snd [OF assms(3)] m2] assms(11) m2 by simp
  have "{#l, l'#} \<subseteq># table_locks s" by (rule two_locks [OF assms(2-4) lock_invD(1) [OF inv]])
  then have "locked_on m {#l, l'#} \<subseteq># locked_on m (table_locks s)" unfolding locked_on_def by (rule multiset_filter_mono)
  moreover have "locked_on m {#l, l'#} = {#l, l'#}" using assms m m' by (simp add: locks_on_def)
  ultimately have "{#l, l'#} \<subseteq># locked_on m (table_locks s)" by simp
  then have "mutex_fits (lm_mutexes s m) {#l, l'#}" by (rule mutex_fits_sub [OF lock_invD(2) [OF inv]])
  from mutex_fits_two [OF this] show ?thesis using m m' by simp
qed

abbreviation two_readers :: "lock_event list" where
  "two_readers \<equiv> [Begin_lock 1 ''t'' shared False, End_lock 1 0, Begin_lock 2 ''t'' shared False, End_lock 2 1]"

lemmas lock_eval = lm_empty_def begin_lock_def mutex_for_table_def new_table_mutex_def mutex_alive_def table_lock_new_def table_lock_new_timed_def
  held_count_def can_lock_def mutex_lock_def mutex_unlock_def tl_unlock_def Let_def

theorem table_lock_exclusion_witness:
  "\<exists>s l l'. lock_run two_readers lm_empty = Some s \<and> map_of (lm_locks s) 0 = Some l \<and> map_of (lm_locks s) 1 = Some l' \<and>
     tl_owns l \<and> tl_owns l' \<and> tl_mode l = shared \<and> tl_mode l' = shared \<and> tl_mutex l = tl_mutex l'"
proof -
  obtain s where r: "lock_run two_readers lm_empty = Some s" by (simp add: lock_eval)
  have l: "map_of (lm_locks s) 0 = Some \<lparr>tl_key = ''t'', tl_mutex = Some 0, tl_mode = shared, tl_owns = True, tl_locked = True\<rparr>"
    "map_of (lm_locks s) 1 = Some \<lparr>tl_key = ''t'', tl_mutex = Some 0, tl_mode = shared, tl_owns = True, tl_locked = True\<rparr>"
    using r by (auto simp: lock_eval)
  have "lock_reachable s" using lock_run_reachable [OF lock_reachable.Empty r] .
  from table_lock_exclusion [OF this l] show ?thesis using r l by auto
qed

text \<open>
  A nested lock of a thread that has the table already only counts: two threads that each hold the shared lock both get
  the exclusive one.
\<close>

lemma nested_exclusive_not_exclusive:
  "\<exists>s l l'. lock_run (two_readers @ [Begin_lock 1 ''t'' exclusive False, End_lock 1 2, Begin_lock 2 ''t'' exclusive False, End_lock 2 3]) lm_empty = Some s \<and>
     map_of (lm_locks s) 2 = Some l \<and> map_of (lm_locks s) 3 = Some l' \<and>
     tl_owns l \<and> tl_owns l' \<and> tl_key l = tl_key l' \<and> tl_mode l = exclusive \<and> tl_mode l' = exclusive"
  by (simp add: lock_eval)

section \<open>Locks that are never released\<close>

text \<open>
  A mutex that is owned exclusively although no lock object will unlock it, while a thread waits for it.
\<close>

definition lost_lock :: "string \<Rightarrow> nat \<Rightarrow> thread \<Rightarrow> lock_manager \<Rightarrow> bool" where
  "lost_lock key m t s \<longleftrightarrow> lock_inv s \<and> lm_mutexes s m = Exclusive_owned \<and> lm_table_locks s key = Some m \<and>
     (\<forall>u. held_count u key s = 0) \<and> (\<forall>l. l \<in># table_locks s \<longrightarrow> tl_mutex l = Some m \<longrightarrow> \<not> tl_owns l) \<and>
     (\<exists>w. map_of (lm_waiting s) t = Some w \<and> wt_mutex w = m \<and> wt_key w = key \<and> \<not> wt_timed w)"

lemma lost_lockD:
  assumes "lost_lock key m t s"
  shows "lock_inv s" "lm_mutexes s m = Exclusive_owned" "lm_table_locks s key = Some m" "held_count u key s = 0"
    "l \<in># table_locks s \<Longrightarrow> tl_mutex l = Some m \<Longrightarrow> \<not> tl_owns l"
    "\<exists>w. map_of (lm_waiting s) t = Some w \<and> wt_mutex w = m \<and> wt_key w = key \<and> \<not> wt_timed w"
  using assms unfolding lost_lock_def by blast+

lemma lost_mutex_key: "lost_lock key m t s \<Longrightarrow> lm_table_locks s k = Some m \<Longrightarrow> k = key"
  using lock_invD(6) lost_lockD(1,3) by blast

lemma tl_unlock_lost:
  assumes "lost_lock key m t s" "tl_unlock u l s = (l', s')" "l \<in># table_locks s"
  shows "lm_mutexes s' m = Exclusive_owned" "held_count v key s' = 0"
proof -
  show "lm_mutexes s' m = Exclusive_owned"
    using assms(2) lost_lockD(2) [OF assms(1)] lost_lockD(5) [OF assms(1,3)] by (auto simp: tl_unlock_def Let_def split: option.splits if_splits)
  have nk: "tl_key l \<noteq> key" if "tl_mutex l = Some n" "tl_owns l" for n
    using lock_invD(3) [OF lost_lockD(1) [OF assms(1)] assms(3) that(1)] lost_lockD(3) [OF assms(1)] lost_lockD(5) [OF assms(1,3)] that by auto
  show "held_count v key s' = 0"
    using assms(2) nk lost_lockD(4) [OF assms(1), of v] by (auto simp: tl_unlock_def Let_def held_count_def split: option.splits if_splits)
qed

lemma lost_lockI:
  assumes "lost_lock key m t s" "lock_inv s'" "lm_mutexes s' m = lm_mutexes s m" "lm_table_locks s' key = Some m"
    "\<And>u. held_count u key s' = 0" "\<And>l. l \<in># table_locks s' \<Longrightarrow> tl_mutex l = Some m \<Longrightarrow> tl_owns l \<Longrightarrow> l \<in># table_locks s"
    "map_of (lm_waiting s') t = map_of (lm_waiting s) t"
  shows "lost_lock key m t s'"
  unfolding lost_lock_def
proof (intro conjI allI impI)
  show "\<not> tl_owns l" if "l \<in># table_locks s'" "tl_mutex l = Some m" for l using that assms(6) [OF that] lost_lockD(5) [OF assms(1)] by blast
qed (use assms lost_lockD(2,6) [OF assms(1)] in auto)

lemma snd_memI: "(a, b) \<in> set xs \<Longrightarrow> b \<in> snd ` set xs"
  by force

lemma table_lock_new_lost:
  assumes "lost_lock key m t s" "map_of (lm_waiting s) u = Some w" "table_lock_new u h w s = Some s'" "lock_inv s'"
  shows "lost_lock key m t s'"
proof -
  have wk: "lm_table_locks s (wt_key w) = Some (wt_mutex w)" by (rule waiting_mutex [OF lost_lockD(1) [OF assms(1)] assms(2)])
  have nk: "wt_key w \<noteq> key"
  proof
    assume k: "wt_key w = key"
    then have "wt_mutex w = m" using wk lost_lockD(3) [OF assms(1)] by simp
    then show False using assms(3) k lost_lockD(2) [OF assms(1)] lost_lockD(4) [OF assms(1), of u]
      by (auto simp: table_lock_new_def Let_def can_lock_def split: TableLockMode.splits)
  qed
  then have nm: "wt_mutex w \<noteq> m" using wk lost_mutex_key [OF assms(1)] by auto
  have ut: "u \<noteq> t" using nk lost_lockD(6) [OF assms(1)] assms(2) by auto
  show ?thesis
    by (rule lost_lockI [OF assms(1,4)])
      (use assms(3) nk nm ut lost_lockD(3,4) [OF assms(1)] in \<open>auto simp: table_lock_new_def Let_def held_count_def AList.delete_conv split: if_splits intro: snd_memI\<close>)
qed

lemma lost_lock_step:
  assumes "lost_lock key m t s" "lock_step ev s = Some s'"
  shows "lost_lock key m t s'"
proof -
  have inv: "lock_inv s'" by (rule lock_step_inv [OF lost_lockD(1) [OF assms(1)] assms(2)])
  note D = lost_lockD [OF assms(1)]
  show ?thesis
  proof (cases ev)
    case (Begin_lock u k mode timed)
    obtain n s1 where mt: "mutex_for_table k s = (n, s1)" by (cases "mutex_for_table k s")
    have s': "map_of (lm_waiting s) u = None" "s' = s1\<lparr>lm_waiting := (u, \<lparr>wt_key = k, wt_mutex = n, wt_mode = mode, wt_timed = timed\<rparr>) # lm_waiting s1\<rparr>"
      using assms(2) Begin_lock mt by (auto simp: begin_lock_def split: if_splits)
    have ut: "u \<noteq> t" using s'(1) D(6) by auto
    have "mutex_alive m s" using D(6) by (force simp: mutex_alive_def list_ex_iff dest: map_of_SomeD)
    then have "lm_locks s1 = lm_locks s \<and> lm_waiting s1 = lm_waiting s \<and> lm_held s1 = lm_held s \<and> lm_mutexes s1 m = lm_mutexes s m \<and> lm_table_locks s1 key = Some m"
      using mt D(3) lock_invD(5) [OF D(1,3)] by (auto simp: mutex_for_table_def new_table_mutex_def split: option.splits if_splits)
    then show ?thesis using ut D(4) by (intro lost_lockI [OF assms(1) inv]) (auto simp: s'(2) held_count_def intro: snd_memI)
  next
    case (End_lock u h)
    then show ?thesis using assms(2) table_lock_new_lost [OF assms(1) _ _ inv] by (auto split: option.splits if_splits)
  next
    case (End_timed_lock u h got)
    then obtain w where w: "map_of (lm_waiting s) u = Some w" "wt_timed w" "table_lock_new_timed u h got w s = Some s'"
      using assms(2) by (auto split: option.splits if_splits)
    have ut: "u \<noteq> t" using w(1,2) D(6) by auto
    show ?thesis
    proof (cases "held_count u (wt_key w) s \<noteq> 0 \<or> got")
      case True
      then show ?thesis using w table_lock_new_lost [OF assms(1) w(1) _ inv] by (simp add: table_lock_new_timed_def)
    next
      case False
      then show ?thesis
        by (intro lost_lockI [OF assms(1) inv]) (use w(3) ut D(3,4) in \<open>auto simp: table_lock_new_timed_def Let_def held_count_def AList.delete_conv intro: snd_memI\<close>)
    qed
  next
    case (Default_lock h)
    then have "s' = s\<lparr>lm_locks := (h, table_lock_default) # lm_locks s\<rparr>" using assms(2) by (auto split: if_splits)
    then show ?thesis using D(3,4) by (intro lost_lockI [OF assms(1) inv]) (auto simp: held_count_def table_lock_default_def intro: snd_memI)
  next
    case (Destroy_lock u h)
    then obtain l where l: "map_of (lm_locks s) h = Some l" using assms(2) by (auto split: option.splits)
    obtain l' s1 where u: "tl_unlock u l s = (l', s1)" by (cases "tl_unlock u l s")
    note r = tl_unlock_result [OF u D(1) map_of_snd [OF l]] and q = tl_unlock_lost [OF assms(1) u map_of_snd [OF l]]
    have s': "s' = s1\<lparr>lm_locks := AList.delete h (lm_locks s)\<rparr>" using assms(2) Destroy_lock l u r(4) by simp
    have eq: "table_locks s' = table_locks s - {#l#}" using alist_delete_mset(1) [OF lock_invD(1) [OF D(1)] l] by (simp add: s')
    have "x \<in># table_locks s" if "x \<in># table_locks s'" for x using that unfolding eq by (rule in_diffD)
    then show ?thesis using r q D(2,3) by (intro lost_lockI [OF assms(1) inv]) (auto simp: s' held_count_def)
  next
    case (Move_lock h h2)
    then obtain l where l: "map_of (lm_locks s) h2 = Some l" "s' = s\<lparr>lm_locks := (h, l) # AList.update h2 (moved_from l) (lm_locks s)\<rparr>"
      using assms(2) by (auto split: option.splits if_splits)
    have eq: "table_locks s' = add_mset l (add_mset (moved_from l) (table_locks s - {#l#}))"
      using alist_update_mset(1) [OF lock_invD(1) [OF D(1)] l(1), of "moved_from l"] by (simp add: l(2))
    have "x \<in># table_locks s" if "x \<in># table_locks s'" "tl_mutex x = Some m" for x
    proof -
      have "x = l \<or> x = moved_from l \<or> x \<in># table_locks s" using that(1) unfolding eq by (auto dest: in_diffD)
      then show ?thesis using that(2) map_of_snd [OF l(1)] by (auto simp: moved_from_def)
    qed
    then show ?thesis using D(3,4) by (intro lost_lockI [OF assms(1) inv]) (auto simp: l(2) held_count_def)
  next
    case (Assign_lock u h h2)
    then obtain l l2 where l: "map_of (lm_locks s) h = Some l" "map_of (lm_locks s) h2 = Some l2" using assms(2) by (auto split: option.splits)
    show ?thesis
    proof (cases "h = h2")
      case True then show ?thesis using assms Assign_lock l by simp
    next
      case ne: False
      obtain l' s1 where u: "tl_unlock u l s = (l', s1)" by (cases "tl_unlock u l s")
      note r = tl_unlock_result [OF u D(1) map_of_snd [OF l(1)]] and q = tl_unlock_lost [OF assms(1) u map_of_snd [OF l(1)]]
      have s': "s' = s1\<lparr>lm_locks := AList.update h l2 (AList.update h2 (moved_from l2) (lm_locks s))\<rparr>"
        using assms(2) Assign_lock l u ne r(4) by simp
      note d2 = alist_update_mset [OF lock_invD(1) [OF D(1)] l(2), of "moved_from l2"]
      have lh: "map_of (AList.update h2 (moved_from l2) (lm_locks s)) h = Some l" using l(1) ne by (simp add: AList.update_conv)
      have tl: "table_locks s' = add_mset l2 (add_mset (moved_from l2) (table_locks s - {#l2#}) - {#l#})"
        using alist_update_mset(1) [OF d2(2) lh, of l2] d2(1) by (simp add: s')
      have "x \<in># table_locks s" if "x \<in># table_locks s'" "tl_mutex x = Some m" for x
      proof -
        have "x = l2 \<or> x \<in># add_mset (moved_from l2) (table_locks s - {#l2#}) - {#l#}" using that(1) unfolding tl by (simp only: set_mset_add_mset_insert insert_iff)
        then have "x = l2 \<or> x \<in># add_mset (moved_from l2) (table_locks s - {#l2#})" using in_diffD [of x "add_mset (moved_from l2) (table_locks s - {#l2#})" "{#l#}"] by argo
        then have "x = l2 \<or> x = moved_from l2 \<or> x \<in># table_locks s" by (auto dest: in_diffD)
        then show ?thesis using that(2) map_of_snd [OF l(2)] by (auto simp: moved_from_def)
      qed
      then show ?thesis using r q D(2,3) by (intro lost_lockI [OF assms(1) inv]) (auto simp: s' held_count_def)
    qed
  qed
qed

abbreviation outer_released_first :: "string \<Rightarrow> lock_event list" where
  "outer_released_first key \<equiv> [Begin_lock 1 key exclusive False, End_lock 1 0, Begin_lock 1 key exclusive False, End_lock 1 1,
     Begin_lock 2 key shared False, Destroy_lock 1 0, Destroy_lock 1 1]"

lemma outer_released_state:
  assumes "lock_run (outer_released_first key) lm_empty = Some s"
  shows "lost_lock key 0 2 s \<and> lm_locks s = []"
proof -
  have "lock_inv s" using lock_reachable_inv [OF lock_run_reachable [OF lock_reachable.Empty assms]] .
  then show ?thesis using assms by (auto simp: lost_lock_def lock_eval)
qed

lemma lost_lock_run: "lost_lock key m t s \<Longrightarrow> lock_run evs s = Some s' \<Longrightarrow> lost_lock key m t s'"
  by (induction evs arbitrary: s) (auto split: option.splits dest: lost_lock_step)

text \<open>
  C34. A lock that is released in the wrong order is lost: when a thread releases the lock object that locked the mutex before a
  nested one, nobody unlocks the mutex. A thread that waits for the table at that time waits for ever, whatever the threads do
  afterwards, although no lock object of the table is left.
\<close>
theorem release_order_loses_lock:
  assumes "lock_run (outer_released_first key) lm_empty = Some s" "lock_run evs s = Some s'"
  shows "lm_locks s = [] \<and> (\<exists>w. map_of (lm_waiting s') 2 = Some w \<and> wt_key w = key) \<and> lock_step (End_lock 2 h) s' = None"
proof -
  have l: "lost_lock key 0 2 s'" using lost_lock_run [OF conjunct1 [OF outer_released_state [OF assms(1)]] assms(2)] .
  then obtain w where w: "map_of (lm_waiting s') 2 = Some w" "wt_mutex w = 0" "wt_key w = key" using lost_lockD(6) by blast
  then have "lock_step (End_lock 2 h) s' = None"
    using lost_lockD(2) [OF l] lost_lockD(4) [OF l, of 2] by (auto simp: table_lock_new_def Let_def can_lock_def split: TableLockMode.splits)
  then show ?thesis using outer_released_state [OF assms(1)] w by auto
qed

theorem release_order_loses_lock_witness:
  "\<exists>s. lock_run (outer_released_first ''t'') lm_empty = Some s \<and> lm_locks s = [] \<and> lock_step (End_lock 2 5) s = None"
proof -
  obtain s where s: "lock_run (outer_released_first ''t'') lm_empty = Some s" by (simp add: lock_eval)
  show ?thesis using release_order_loses_lock [OF s, of "[]" s 5] s by auto
qed

end
