(* ===== verification/Value_Parser.thy ===== *)
theory Value_Parser
  imports Value
begin

text \<open>
  Literals and rows of literals, from \<^verbatim>\<open>src/src/query/value_parser.cpp\<close>: the text between the parentheses of
  \<^verbatim>\<open>VALUES (...)\<close> is split at the commas outside strings and parentheses, and each part is read for the type of its
  column. An error carries the text and the position of the part it is about. A \<^verbatim>\<open>ValueParseResult\<close> is the record
  of its three optional fields; positions and sizes are natural numbers.

  The lemmas show that a parsed row fits its schema, what the readers of numbers accept and that their arithmetic is
  exact, that printed values are read back, and that an error names the text at its position.
\<close>

section \<open>Data\<close>

record TextPart =
  tp_text :: string
  tp_position :: nat

record ValueParseError =
  vpe_message :: string
  vpe_token :: string
  vpe_position :: nat

record ValueParseResult =
  vp_value :: "Value option"
  vp_row :: "Row option"
  vp_error :: "ValueParseError option"

definition vp_default :: ValueParseResult where
  "vp_default = \<lparr>vp_value = None, vp_row = None, vp_error = None\<rparr>"

definition value_result :: "Value \<Rightarrow> ValueParseResult" where
  "value_result v = vp_default\<lparr>vp_value := Some v\<rparr>"

definition row_result :: "Row \<Rightarrow> ValueParseResult" where
  "row_result row = vp_default\<lparr>vp_row := Some row\<rparr>"

definition value_error :: "string \<Rightarrow> string \<Rightarrow> nat \<Rightarrow> ValueParseResult" where
  "value_error message token position =
     vp_default\<lparr>vp_error := Some \<lparr>vpe_message = message, vpe_token = token, vpe_position = position\<rparr>\<rparr>"

definition vp_ok :: "ValueParseResult \<Rightarrow> bool" where
  "vp_ok r \<longleftrightarrow> vp_error r = None"

section \<open>Splitting\<close>

text \<open>The loop over the white space at the start of a text.\<close>

definition leading_spaces :: "string \<Rightarrow> nat" where
  "leading_spaces s = length (takeWhile isspace s)"

definition trim :: "string \<Rightarrow> string" where
  "trim s =
     (let start = leading_spaces s;
          stop = length s - length (takeWhile isspace (rev (drop start s)))
      in substr s start (stop - start))"

text \<open>
  The loop over the text, with the index of the next character and the rest of the text; the result is what the
  variables hold after it.
\<close>

fun split_loop ::
  "nat \<Rightarrow> nat \<Rightarrow> TextPart list \<Rightarrow> string \<Rightarrow> nat \<Rightarrow> bool \<Rightarrow> u16 \<Rightarrow> string \<Rightarrow> TextPart list \<times> string \<times> nat" where
  "split_loop base_position i parts current current_position in_string paren_depth [] = (parts, current, current_position)"
| "split_loop base_position i parts current current_position in_string paren_depth (ch # rest) =
     (if ch = CHR 0x27 then
        split_loop base_position (i + 1) parts (current @ [ch]) current_position (\<not> in_string) paren_depth rest
      else if ch = CHR ''('' \<and> \<not> in_string then
        split_loop base_position (i + 1) parts (current @ [ch]) current_position in_string (paren_depth + 1) rest
      else if ch = CHR '')'' \<and> \<not> in_string \<and> paren_depth > 0 then
        split_loop base_position (i + 1) parts (current @ [ch]) current_position in_string (paren_depth - 1) rest
      else if ch = CHR '','' \<and> \<not> in_string \<and> paren_depth = 0 then
        split_loop base_position (i + 1)
          (parts @ [\<lparr>tp_text = trim current, tp_position = current_position + leading_spaces current\<rparr>])
          [] (base_position + i + 1) in_string paren_depth rest
      else split_loop base_position (i + 1) parts (current @ [ch]) current_position in_string paren_depth rest)"

definition split_csv_with_positions :: "string \<Rightarrow> nat \<Rightarrow> TextPart list" where
  "split_csv_with_positions s base_position =
     (case split_loop base_position 0 [] [] base_position False 0 s of
        (parts, current, current_position) \<Rightarrow>
          if current \<noteq> [] \<or> s \<noteq> []
          then parts @ [\<lparr>tp_text = trim current, tp_position = current_position + leading_spaces current\<rparr>]
          else parts)"

section \<open>Numbers\<close>

text \<open>
  \<^verbatim>\<open>std::stoll(text, &used)\<close>: white space and a sign are skipped, the longest run of digits is read; \<open>used\<close> is the number of
  characters read. A value outside of \<^verbatim>\<open>long long\<close> throws.
\<close>

definition stoll :: "string \<Rightarrow> exn + (int \<times> nat)" where
  "stoll s =
     (let spaces = leading_spaces s; rest = drop spaces s;
          signed = rest \<noteq> [] \<and> (hd rest = CHR ''-'' \<or> hd rest = CHR ''+'');
          ds = takeWhile isdigit (if signed then tl rest else rest);
          v = (if signed \<and> hd rest = CHR ''-'' then - int (read_digits 0 ds) else int (read_digits 0 ds))
      in if ds = [] then Inl (Invalid_argument ''stoll'')
         else if v < - (2 ^ 63) \<or> v \<ge> 2 ^ 63 then Inl (Out_of_range ''stoll'')
         else Inr (v, spaces + (if signed then 1 else 0) + length ds))"

definition parse_integer :: "string \<Rightarrow> 64 word option" where
  "parse_integer s =
     (case stoll s of
        Inl _ \<Rightarrow> None
      | Inr (parsed, used) \<Rightarrow> if used \<noteq> length s then None else Some (word_of_int parsed))"

definition power_of_10 :: "u8 \<Rightarrow> 64 word" where
  "power_of_10 exponent = ((\<lambda>v. v * 10) ^^ unat exponent) 1"

text \<open>The loop over the characters: the whole digits and the digits of the fraction.\<close>

fun number_digits :: "bool \<Rightarrow> string \<Rightarrow> string \<Rightarrow> string \<Rightarrow> (string \<times> string) option" where
  "number_digits after_decimal whole fraction [] = Some (whole, fraction)"
| "number_digits after_decimal whole fraction (ch # rest) =
     (if ch = CHR ''.'' then
        if after_decimal then None else number_digits True whole fraction rest
      else if \<not> isdigit ch then None
      else if after_decimal then number_digits after_decimal whole (fraction @ [ch]) rest
      else number_digits after_decimal (whole @ [ch]) fraction rest)"

fun strip_zeros :: "string \<Rightarrow> string" where
  "strip_zeros [] = []"
| "strip_zeros [c] = [c]"
| "strip_zeros (c # d # cs) = (if c = CHR ''0'' then strip_zeros (d # cs) else c # d # cs)"

text \<open>
  \<^verbatim>\<open>precision - scale\<close> is an \<^verbatim>\<open>int\<close> that is converted to \<^verbatim>\<open>std::size_t\<close> in the comparison; \<open>scaled_value\<close> wraps where the
  source overflows a signed integer, which \<open>number_scaled\<close> below excludes for the columns that exist.
\<close>

definition scaled_value :: "string \<Rightarrow> 64 word" where
  "scaled_value ds = foldl (\<lambda>scaled ch. scaled * 10 + of_nat (digit_val ch)) 0 ds"

definition parse_number_value :: "string \<Rightarrow> u8 \<Rightarrow> u8 \<Rightarrow> 64 word option" where
  "parse_number_value s precision scale =
     (if s = [] then None
      else
        let negative = hd s = CHR ''-''; rest = (if negative then tl s else s) in
        if rest = [] then None
        else case number_digits False [] [] rest of
          None \<Rightarrow> None
        | Some (whole, fraction) \<Rightarrow>
            let whole = strip_zeros whole;
                whole = (if whole = [] then ''0'' else whole) in
            if length fraction > unat scale then None
            else
              let whole_digits = (if whole = ''0'' then 0 else length whole) in
              if whole_digits + length fraction > unat precision \<or>
                 whole_digits > nat ((int (unat precision) - int (unat scale)) mod 2 ^ 64) then None
              else
                let fraction = fraction @ replicate (unat scale - length fraction) (CHR ''0'');
                    scaled = scaled_value (whole @ fraction)
                in Some (if negative then - scaled else scaled))"

definition format_number :: "64 word \<Rightarrow> u8 \<Rightarrow> string" where
  "format_number x scale =
     (let negative = sint x < 0;
          v = (if negative then - (x + 1) + 1 else x) :: u64;
          factor = power_of_10 scale;
          whole = (if scale = 0 then v else v div factor);
          fraction = (if scale = 0 then 0 else v mod factor)
      in (if negative then ''-'' else '''') @ show_nat (unat whole) @
         (if scale > 0 then ''.'' @ setw0 (unat scale) (show_nat (unat fraction)) else ''''))"

section \<open>Values and rows\<close>

definition parse_quoted :: "Column \<Rightarrow> string \<Rightarrow> nat \<Rightarrow> ValueParseResult" where
  "parse_quoted c cleaned position =
     (if length cleaned < 2 \<or> hd cleaned \<noteq> CHR 0x27 \<or> last cleaned \<noteq> CHR 0x27
      then value_error (type_to_string (col_type c) @ '' value for column '' @ col_name c @ '' must be quoted'') cleaned position
      else
        let v = substr cleaned 1 (length cleaned - 2) in
        if col_type c = ty_character then
          if length v \<noteq> 1
          then value_error (''CHAR value for column '' @ col_name c @ '' must be exactly one character'') cleaned position
          else value_result (char_value (hd v))
        else if col_type c = ty_string then
          if \<not> matches_column (string_value v) c
          then value_error (''STRING value for column '' @ col_name c @ '' exceeds max size '' @ show_nat (unat (col_max_size c))) cleaned position
          else value_result (string_value v)
        else if col_type c = ty_varstring then
          if \<not> matches_column (varstring_value v) c
          then value_error (''VARSTRING value for column '' @ col_name c @ '' exceeds max size '' @ show_nat (unat (col_max_size c))) cleaned position
          else value_result (varstring_value v)
        else if col_type c = ty_date then
          (case date_from_string v of
             None \<Rightarrow> value_error (''invalid DATE value for column '' @ col_name c) cleaned position
           | Some d \<Rightarrow> value_result (date_value d))
        else if col_type c = ty_time then
          (case time_from_string v of
             None \<Rightarrow> value_error (''invalid TIME value for column '' @ col_name c) cleaned position
           | Some u \<Rightarrow> value_result (time_value u))
        else if col_type c = ty_datetime then
          (case datetime_from_string v of
             None \<Rightarrow> value_error (''invalid DATETIME value for column '' @ col_name c) cleaned position
           | Some t \<Rightarrow> value_result (datetime_value t))
        else if \<not> matches_column (text_value v) c
          then value_error (''TEXT value for column '' @ col_name c @ '' exceeds max size '' @ show_nat (unat (col_max_size c))) cleaned position
          else value_result (text_value v))"

definition parse_value_with_error :: "Column \<Rightarrow> string \<Rightarrow> nat \<Rightarrow> ValueParseResult" where
  "parse_value_with_error c s base_position =
     (let cleaned = trim s; position = base_position + leading_spaces s in
      if cleaned = ''NULL'' then
        if \<not> col_nullable c then value_error (''NULL is not allowed for column '' @ col_name c) cleaned position
        else value_result null_value
      else if col_type c = ty_integer then
        (case parse_integer cleaned of
           None \<Rightarrow> value_error (''invalid INTEGER value for column '' @ col_name c) cleaned position
         | Some x \<Rightarrow> value_result (integer_value x))
      else if col_type c = ty_number then
        (case parse_number_value cleaned (col_precision c) (col_scale c) of
           None \<Rightarrow> value_error (''invalid NUMBER value for column '' @ col_name c) cleaned position
         | Some x \<Rightarrow> value_result (number_value x))
      else if col_type c \<in> {ty_character, ty_string, ty_varstring, ty_date, ty_time, ty_datetime, ty_text} then
        parse_quoted c cleaned position
      else value_error (''unsupported value type for column '' @ col_name c) cleaned position)"

definition parse_value :: "Column \<Rightarrow> string \<Rightarrow> Value option" where
  "parse_value c s = vp_value (parse_value_with_error c s 0)"

text \<open>The loop over the columns, with the column numbers that are left.\<close>

fun parse_row_loop :: "Schema \<Rightarrow> TextPart list \<Rightarrow> nat \<Rightarrow> nat list \<Rightarrow> Row \<Rightarrow> ValueParseResult" where
  "parse_row_loop schema parts base_position [] vals = row_result vals"
| "parse_row_loop schema parts base_position (i # is) vals =
     (case schema_column schema (of_nat i) of
        None \<Rightarrow> value_error ''invalid schema column'' '''' base_position
      | Some column \<Rightarrow>
          let r = parse_value_with_error column (tp_text (parts ! i)) (tp_position (parts ! i)) in
          if \<not> vp_ok r then r
          else case vp_value r of
            None \<Rightarrow> r
          | Some v \<Rightarrow>
              if \<not> matches_column v column
              then value_error (''value does not match column '' @ col_name column) (tp_text (parts ! i)) (tp_position (parts ! i))
              else parse_row_loop schema parts base_position is (vals @ [v]))"

definition parse_row_with_error :: "Schema \<Rightarrow> string \<Rightarrow> nat \<Rightarrow> ValueParseResult" where
  "parse_row_with_error schema values_text base_position =
     (let parts = split_csv_with_positions values_text base_position; n = unat (column_count schema) in
      if length parts \<noteq> n
      then value_error (''wrong value count: expected '' @ show_nat n @ '', got '' @ show_nat (length parts)) values_text base_position
      else parse_row_loop schema parts base_position [0..<n] [])"

definition parse_row :: "Schema \<Rightarrow> string \<Rightarrow> Row option" where
  "parse_row schema values_text = vp_row (parse_row_with_error schema values_text 0)"

definition format_value :: "Column \<Rightarrow> Value \<Rightarrow> string" where
  "format_value c v =
     (if v_is_null v then ''NULL''
      else if v_type v = ty_integer then show_int (sint (v_integer v))
      else if v_type v = ty_number then format_number (v_number v) (col_scale c)
      else if v_type v = ty_date then date_to_string (v_date v)
      else if v_type v = ty_time then time_to_string (v_time v)
      else if v_type v = ty_datetime then datetime_to_string (v_datetime v)
      else v_string v)"

lemmas result_defs = vp_default_def value_result_def row_result_def value_error_def

lemma result_sel [simp]:
  "vp_value (value_result v) = Some v" "vp_row (value_result v) = None" "vp_error (value_result v) = None"
  "vp_value (row_result r) = None" "vp_row (row_result r) = Some r" "vp_error (row_result r) = None"
  "vp_value (value_error m t p) = None" "vp_row (value_error m t p) = None"
  "vp_error (value_error m t p) = Some \<lparr>vpe_message = m, vpe_token = t, vpe_position = p\<rparr>"
  by (simp_all add: result_defs)

section \<open>Positions\<close>

lemma trim_at: "substr s (leading_spaces s) (length (trim s)) = trim s"
  by (simp add: trim_def substr_def Let_def)

lemma trim_eq: "trim s = rev (dropWhile isspace (rev (dropWhile isspace s)))"
proof -
  have d: "drop (leading_spaces s) s = dropWhile isspace s" by (simp add: leading_spaces_def dropWhile_eq_drop)
  have l: "length (dropWhile isspace s) = length s - leading_spaces s" by (simp flip: d)
  define r where "r = dropWhile isspace s"
  have k: "length (takeWhile isspace (rev r)) \<le> length r" using length_takeWhile_le [of isspace "rev r"] by simp
  have "rev (dropWhile isspace (rev r)) = take (length r - length (takeWhile isspace (rev r))) r"
    by (simp add: dropWhile_eq_drop rev_drop)
  then show ?thesis using l k unfolding trim_def substr_def Let_def d r_def [symmetric] by (simp add: add.commute)
qed

lemma leading_spaces_trim [simp]: "leading_spaces (trim s) = 0"
proof (cases "trim s")
  case (Cons c cs)
  define r where "r = dropWhile isspace s"
  have "r \<noteq> []" using Cons unfolding trim_eq r_def [symmetric] by auto
  then have h: "\<not> isspace (hd r)" unfolding r_def by (rule hd_dropWhile)
  have "r = rev (dropWhile isspace (rev r)) @ rev (takeWhile isspace (rev r))"
    by (metis rev_append rev_rev_ident takeWhile_dropWhile_id)
  then have "hd r = c" using Cons unfolding trim_eq r_def [symmetric] by (metis hd_append2 list.sel(1) list.distinct(1))
  then show ?thesis using h Cons by (simp add: leading_spaces_def)
qed (simp add: leading_spaces_def)

lemma trim_trim [simp]: "trim (trim s) = trim s"
proof -
  have "dropWhile isspace (trim s) = trim s"
    using dropWhile_eq_drop [of isspace "trim s"] leading_spaces_trim [of s] unfolding leading_spaces_def by (simp del: leading_spaces_trim)
  then show ?thesis unfolding trim_eq [of "trim s"] by (simp add: trim_eq)
qed

text \<open>A part of a text: it has no outer white space and stands at its position.\<close>

definition part_of :: "string \<Rightarrow> nat \<Rightarrow> TextPart \<Rightarrow> bool" where
  "part_of s base p \<longleftrightarrow> base \<le> tp_position p \<and> substr s (tp_position p - base) (length (tp_text p)) = tp_text p \<and> trim (tp_text p) = tp_text p"

lemma part_of_trim:
  assumes "s = pre @ cur @ post"
  shows "part_of s base \<lparr>tp_text = trim cur, tp_position = base + length pre + leading_spaces cur\<rparr>"
proof -
  have "length (trim cur) \<le> length cur - leading_spaces cur" by (simp add: trim_def substr_def Let_def)
  then have "substr s (length pre + leading_spaces cur) (length (trim cur)) = substr cur (leading_spaces cur) (length (trim cur))"
    by (simp add: assms substr_def)
  then show ?thesis by (simp add: part_of_def trim_at)
qed

lemma split_loop_parts:
  assumes "split_loop base i parts cur cp q d rest = (parts', cur', cp')" "s = pre @ cur @ rest" "cp = base + length pre" "i = length (pre @ cur)"
    "list_all (part_of s base) parts"
  shows "list_all (part_of s base) parts' \<and> (\<exists>pre'. s = pre' @ cur' \<and> cp' = base + length pre')"
  using assms
proof (induction base i parts cur cp q d rest arbitrary: pre rule: split_loop.induct)
  case (2 base i parts cur cp q d ch rest)
  have push: "s = pre @ (cur @ [ch]) @ rest" "i + 1 = length (pre @ (cur @ [ch]))" using 2 by simp_all
  consider "ch = CHR 0x27" | "ch \<noteq> CHR 0x27" "ch = CHR ''('' \<and> \<not> q" | "ch \<noteq> CHR 0x27" "\<not> (ch = CHR ''('' \<and> \<not> q)" "ch = CHR '')'' \<and> \<not> q \<and> d > 0"
    | "ch \<noteq> CHR 0x27" "\<not> (ch = CHR ''('' \<and> \<not> q)" "\<not> (ch = CHR '')'' \<and> \<not> q \<and> d > 0)" "ch = CHR '','' \<and> \<not> q \<and> d = 0"
    | "ch \<noteq> CHR 0x27" "\<not> (ch = CHR ''('' \<and> \<not> q)" "\<not> (ch = CHR '')'' \<and> \<not> q \<and> d > 0)" "\<not> (ch = CHR '','' \<and> \<not> q \<and> d = 0)"
    by blast
  then show ?case
  proof cases
    case 1
    then show ?thesis using "2.prems" push by (intro "2.IH"(1) [OF 1]) simp_all
  next
    case h: 2
    have "split_loop base (i + 1) parts (cur @ [ch]) cp q (d + 1) rest = (parts', cur', cp')" using "2.prems"(1) h by simp
    from "2.IH"(2) [OF h this push(1) "2.prems"(3) push(2) "2.prems"(5)] show ?thesis .
  next
    case h: 3
    have "split_loop base (i + 1) parts (cur @ [ch]) cp q (d - 1) rest = (parts', cur', cp')" using "2.prems"(1) h by simp
    from "2.IH"(3) [OF h this push(1) "2.prems"(3) push(2) "2.prems"(5)] show ?thesis .
  next
    case h: 4
    let ?p = "\<lparr>tp_text = trim cur, tp_position = cp + leading_spaces cur\<rparr>"
    have "split_loop base (i + 1) (parts @ [?p]) [] (base + i + 1) q d rest = (parts', cur', cp')"
      using "2.prems"(1) h by simp
    moreover have "list_all (part_of s base) (parts @ [?p])"
      using "2.prems"(5) part_of_trim [OF "2.prems"(2), of base] "2.prems"(3) by simp
    moreover have "s = (pre @ cur @ [ch]) @ [] @ rest" "base + i + 1 = base + length (pre @ cur @ [ch])" "i + 1 = length ((pre @ cur @ [ch]) @ [])"
      using 2 by simp_all
    ultimately show ?thesis using "2.IH"(4) [OF h] by blast
  next
    case h: 5
    have "split_loop base (i + 1) parts (cur @ [ch]) cp q d rest = (parts', cur', cp')" using "2.prems"(1) h by auto
    from "2.IH"(5) [OF h this push(1) "2.prems"(3) push(2) "2.prems"(5)] show ?thesis .
  qed
qed auto

lemma split_parts: "list_all (part_of s base) (split_csv_with_positions s base)"
proof -
  obtain parts cur cp where r: "split_loop base 0 [] [] base False 0 s = (parts, cur, cp)" by (metis prod_cases3)
  from split_loop_parts [OF this, of s "[]"] obtain pre where "list_all (part_of s base) parts" "s = pre @ cur" "cp = base + length pre" by auto
  then show ?thesis using r part_of_trim [of s pre cur "[]" base] by (auto simp: split_csv_with_positions_def)
qed

lemma parse_quoted_error: "vp_error (parse_quoted c t p) = Some e \<Longrightarrow> vpe_token e = t \<and> vpe_position e = p"
  by (auto simp: parse_quoted_def Let_def split: if_splits option.splits)

lemma parse_value_error:
  "vp_error (parse_value_with_error c t p) = Some e \<Longrightarrow> vpe_token e = trim t \<and> vpe_position e = p + leading_spaces t"
  by (auto simp: parse_value_with_error_def Let_def split: if_splits option.splits dest: parse_quoted_error)

section \<open>Reading numbers\<close>

lemma scaled_value_read: "scaled_value ds = of_nat (read_digits 0 ds)"
proof -
  have "foldl (\<lambda>scaled ch. scaled * 10 + of_nat (digit_val ch)) (of_nat a) ds = (of_nat (read_digits a ds) :: 64 word)" for a
  proof (induction ds arbitrary: a)
    case (Cons c cs)
    have "of_nat a * 10 + of_nat (digit_val c) = (of_nat (a * 10 + digit_val c) :: 64 word)" by simp
    then show ?case using Cons [of "a * 10 + digit_val c"] by (simp only: foldl.simps read_digits_simps)
  qed simp
  from this [of 0] show ?thesis by (simp add: scaled_value_def)
qed

lemma number_digits_after: "number_digits True w f cs = (if list_all isdigit cs then Some (w, f @ cs) else None)"
  by (induction cs arbitrary: f) (auto simp: isdigit_def)

text \<open>The texts of numbers: a sign, digits, and a decimal point with digits, all of which may be left out.\<close>

definition number_text :: "bool \<Rightarrow> string \<Rightarrow> string \<Rightarrow> string \<Rightarrow> bool" where
  "number_text negative whole fraction s \<longleftrightarrow> list_all isdigit whole \<and> list_all isdigit fraction \<and>
     (s = (if negative then ''-'' else '''') @ whole \<and> whole \<noteq> [] \<and> fraction = [] \<or>
      s = (if negative then ''-'' else '''') @ whole @ ''.'' @ fraction)"

lemma number_digits_iff:
  "number_digits False w f cs = Some (w', f') \<longleftrightarrow>
     (\<exists>a b. list_all isdigit a \<and> list_all isdigit b \<and> w' = w @ a \<and> f' = f @ b \<and> (cs = a \<and> b = [] \<or> cs = a @ ''.'' @ b))"
proof (induction cs arbitrary: w)
  case (Cons ch cs)
  show ?case
  proof (cases "ch = CHR ''.''")
    case True
    have nd: "\<not> isdigit (CHR ''.'')" by code_simp
    have "list_all isdigit a \<and> (ch # cs = a \<and> b = [] \<or> ch # cs = a @ ''.'' @ b) \<longleftrightarrow> a = [] \<and> b = cs" for a b :: string
      using nd True by (cases a) auto
    then have "(\<exists>a b. list_all isdigit a \<and> list_all isdigit b \<and> w' = w @ a \<and> f' = f @ b \<and> (ch # cs = a \<and> b = [] \<or> ch # cs = a @ ''.'' @ b)) \<longleftrightarrow>
      list_all isdigit cs \<and> w' = w \<and> f' = f @ cs" by (metis append_Nil2)
    then show ?thesis using True by (auto simp: number_digits_after)
  next
    case ne: False
    show ?thesis
    proof (cases "isdigit ch")
      case True
      have "(\<exists>a b. list_all isdigit a \<and> list_all isdigit b \<and> w' = (w @ [ch]) @ a \<and> f' = f @ b \<and> (cs = a \<and> b = [] \<or> cs = a @ ''.'' @ b)) \<longleftrightarrow>
        (\<exists>a b. list_all isdigit a \<and> list_all isdigit b \<and> w' = w @ a \<and> f' = f @ b \<and> (ch # cs = a \<and> b = [] \<or> ch # cs = a @ ''.'' @ b))" (is "?l = ?r")
      proof
        assume ?l
        then obtain a b where "list_all isdigit a" "list_all isdigit b" "w' = (w @ [ch]) @ a" "f' = f @ b" "cs = a \<and> b = [] \<or> cs = a @ ''.'' @ b" by blast
        then show ?r using True by (intro exI [of _ "ch # a"] exI [of _ b]) auto
      next
        assume ?r
        then obtain a b where ab: "list_all isdigit a" "list_all isdigit b" "w' = w @ a" "f' = f @ b" "ch # cs = a \<and> b = [] \<or> ch # cs = a @ ''.'' @ b" by blast
        then obtain a' where "a = ch # a'" using ne by (cases a) auto
        then show ?l using ab by (intro exI [of _ a'] exI [of _ b]) auto
      qed
      then show ?thesis using True ne Cons [of "w @ [ch]"] by simp
    next
      case False
      have "\<not> (list_all isdigit a \<and> (ch # cs = a \<or> ch # cs = a @ ''.'' @ b))" for a b :: string
        using False ne by (cases a) auto
      then show ?thesis using False ne by auto
    qed
  qed
qed auto

lemma strip_zeros_show: "list_all isdigit ds \<Longrightarrow> ds \<noteq> [] \<Longrightarrow> strip_zeros ds = show_nat (read_digits 0 ds)"
proof (induction ds rule: strip_zeros.induct)
  case (2 c)
  then show ?case using digit_val_lt [of c] digit_val_char [of c] by (subst show_nat.simps) simp
next
  case (3 c d cs)
  show ?case
  proof (cases "c = CHR ''0''")
    case True
    then show ?thesis using 3 by (simp add: digit_val_def)
  next
    case False
    let ?ds = "c # d # cs" and ?n = "read_digits 0 (c # d # cs)"
    have "setw0 (length ?ds) (show_nat ?n) = ?ds" using "3.prems"(1) by (rule setw0_read) simp
    moreover have "hd (setw0 (length ?ds) (show_nat ?n)) = CHR ''0''" if "length (show_nat ?n) < length ?ds"
      using that by (simp add: setw0_def)
    ultimately have "length ?ds \<le> length (show_nat ?n)" using False by (metis list.sel(1) not_le)
    then have "setw0 (length ?ds) (show_nat ?n) = show_nat ?n" by (simp add: setw0_def)
    then show ?thesis using False \<open>setw0 (length ?ds) (show_nat ?n) = ?ds\<close> by simp
  qed
qed simp

lemma show_nat_0: "show_nat n = ''0'' \<longleftrightarrow> n = 0"
proof
  assume "show_nat n = ''0''"
  from arg_cong [OF this, of "read_digits 0"] show "n = 0" by (simp add: digit_val_def)
qed (simp add: show_nat.simps digit_char_0)

lemma show_nat_digits_le: "(if show_nat n = ''0'' then 0 else length (show_nat n)) \<le> k \<longleftrightarrow> n < 10 ^ k"
proof (cases "n = 0")
  case False
  then show ?thesis
    by (cases k) (use length_show_nat_iff [of k n] in \<open>auto simp: show_nat_0\<close>)
qed (simp add: show_nat_0)

lemma read_digits_pad: "read_digits a (ds @ replicate k (CHR ''0'')) = read_digits a ds * 10 ^ k"
proof -
  have "read_digits b (replicate k (CHR ''0'')) = b * 10 ^ k" for b by (induction k arbitrary: b) (simp_all add: digit_val_def)
  then show ?thesis by simp
qed

lemma read_digits_split: "list_all isdigit b \<Longrightarrow> read_digits a b = a * 10 ^ length b + read_digits 0 b"
proof (induction b arbitrary: a)
  case (Cons c cs)
  have ih: "read_digits x cs = x * 10 ^ length cs + read_digits 0 cs" for x by (rule Cons.IH) (use Cons.prems in simp)
  show ?case using ih [of "a * 10 + digit_val c"] ih [of "digit_val c"] by (simp add: algebra_simps)
qed simp

lemma number_text_iff:
  "number_text neg a b t \<longleftrightarrow> t \<noteq> [] \<and> neg = (hd t = CHR ''-'') \<and> (if neg then tl t else t) \<noteq> [] \<and>
     number_digits False [] [] (if neg then tl t else t) = Some (a, b)" (is "?l \<longleftrightarrow> ?r")
proof
  assume l: ?l
  have "\<not> isdigit (CHR ''-'')" by code_simp
  then have "hd (a @ u) \<noteq> CHR ''-''" if "u = [] \<and> a \<noteq> [] \<or> u \<noteq> [] \<and> hd u \<noteq> CHR ''-''" for u
    using l that by (cases a) (auto simp: number_text_def)
  from this [of "[]"] this [of "CHR ''.'' # b"] show ?r
    using l by (auto simp: number_text_def number_digits_iff)
next
  assume ?r
  then show ?l by (cases t) (auto simp: number_text_def number_digits_iff split: if_splits)
qed

lemma whole_show:
  assumes "list_all isdigit a"
  shows "(if strip_zeros a = [] then ''0'' else strip_zeros a) = show_nat (read_digits 0 a)"
proof (cases "a = []")
  case True
  then show ?thesis by (simp add: show_nat.simps digit_char_0)
qed (simp add: strip_zeros_show [OF assms])

definition number_int :: "bool \<Rightarrow> string \<Rightarrow> string \<Rightarrow> nat \<Rightarrow> int" where
  "number_int negative whole fraction scale =
     (if negative then -1 else 1) * int (read_digits 0 (whole @ fraction) * 10 ^ (scale - length fraction))"

lemma size_t_diff: "s \<le> p \<Longrightarrow> p < 256 \<Longrightarrow> nat ((int p - int s) mod 2 ^ 64) = p - s"
  by (subst mod_pos_pos_trivial) auto

lemma parse_number_value_text:
  assumes "scale \<le> precision" "number_text neg a b t"
  shows "parse_number_value t precision scale =
    (if length b \<le> unat scale \<and> read_digits 0 a < 10 ^ (unat precision - unat scale)
     then Some (word_of_int (number_int neg a b (unat scale))) else None)"
proof -
  let ?n = "read_digits 0 a" and ?p = "unat precision" and ?s = "unat scale"
  have d: "list_all isdigit a" "list_all isdigit b" using assms(2) by (simp_all add: number_text_def)
  have sp: "?s \<le> ?p" using assms(1) by (simp add: word_le_nat_alt)
  have "?p < 256" using unsigned_less [of precision] by simp
  then have mod: "nat ((int ?p - int ?s) mod 2 ^ 64) = ?p - ?s" by (rule size_t_diff [OF sp])
  define w where "w = show_nat ?n"
  have le: "(if w = ''0'' then 0 else length w) \<le> k \<longleftrightarrow> ?n < 10 ^ k" for k unfolding w_def by (rule show_nat_digits_le)
  have guard: "(let digits = (if w = ''0'' then 0 else length w) in digits + length b > ?p \<or> digits > ?p - ?s) \<longleftrightarrow> \<not> ?n < 10 ^ (?p - ?s)"
    if "length b \<le> ?s" using le [of "?p - ?s"] that sp unfolding Let_def by linarith
  have "scaled_value (w @ b @ replicate (?s - length b) (CHR ''0'')) = of_nat (read_digits 0 (a @ b) * 10 ^ (?s - length b))"
    unfolding scaled_value_read append_assoc [symmetric] read_digits_pad by (simp add: w_def)
  then have sv: "(if neg then - scaled_value (w @ b @ replicate (?s - length b) (CHR ''0'')) else scaled_value (w @ b @ replicate (?s - length b) (CHR ''0''))) =
    word_of_int (number_int neg a b ?s)" by (simp add: number_int_def)
  have t: "(t = []) = False" "(hd t = CHR ''-'') = neg" "((if neg then tl t else t) = []) = False" "number_digits False [] [] (if neg then tl t else t) = Some (a, b)"
    using assms(2) unfolding number_text_iff by blast+
  have "parse_number_value t precision scale =
    (if length b > ?s then None
     else if (let digits = (if w = ''0'' then 0 else length w) in digits + length b > ?p \<or> digits > ?p - ?s) then None
     else Some (if neg then - scaled_value (w @ b @ replicate (?s - length b) (CHR ''0'')) else scaled_value (w @ b @ replicate (?s - length b) (CHR ''0''))))"
    unfolding parse_number_value_def Let_def
    by (simp only: t if_False option.case prod.case whole_show [OF d(1)] mod append_assoc flip: w_def)
  then show ?thesis using guard sv by (simp add: not_le)
qed

lemma number_int_bound:
  assumes "number_text neg a b t" "length b \<le> s" "read_digits 0 a < 10 ^ (p - s)" "s \<le> p"
  shows "\<bar>number_int neg a b s\<bar> < 10 ^ p"
proof -
  have d: "list_all isdigit b" using assms(1) by (simp add: number_text_def)
  have "read_digits 0 (a @ b) < (read_digits 0 a + 1) * 10 ^ length b" using read_digits_bound [OF d, of "read_digits 0 a"] by simp
  also have "\<dots> \<le> 10 ^ (p - s) * 10 ^ length b" using assms(3) by (intro mult_right_mono) auto
  finally have "read_digits 0 (a @ b) * 10 ^ (s - length b) < (10 ^ (p - s) * 10 ^ length b) * 10 ^ (s - length b)" by simp
  also have "\<dots> = 10 ^ p" using assms(2,4) by (simp flip: power_add)
  finally have "int (read_digits 0 (a @ b) * 10 ^ (s - length b)) < 10 ^ p" by (metis of_nat_less_iff of_nat_power of_nat_numeral)
  then show ?thesis by (simp add: number_int_def abs_mult)
qed

lemma sint_number:
  assumes "\<bar>i\<bar> < 10 ^ p" "p \<le> 18"
  shows "sint (word_of_int i :: 64 word) = i"
proof -
  have "(10 :: int) ^ p \<le> 10 ^ 18" using assms(2) by (intro power_increasing) auto
  then have "\<bar>i\<bar> < 10 ^ 18" using assms(1) by linarith
  then show ?thesis by (intro sint_word_of_int_64) (auto simp: abs_less_iff)
qed

lemma parse_number_value_exact:
  assumes "scale \<le> precision" "precision \<le> MAX_NUMBER_PRECISION"
  shows "parse_number_value t precision scale = Some x \<longleftrightarrow>
    (\<exists>neg a b. number_text neg a b t \<and> length b \<le> unat scale \<and> read_digits 0 a < 10 ^ (unat precision - unat scale) \<and>
       sint x = number_int neg a b (unat scale) \<and> \<bar>sint x\<bar> < 10 ^ unat precision)" (is "?l \<longleftrightarrow> ?r")
proof
  assume l: ?l
  obtain a b where nt: "number_text (hd t = CHR ''-'') a b t"
    using l unfolding number_text_iff parse_number_value_def by (auto simp: Let_def split: if_splits option.splits)
  have sp: "unat scale \<le> unat precision" "unat precision \<le> 18" using assms by (simp_all add: word_le_nat_alt MAX_NUMBER_PRECISION_def)
  have c: "length b \<le> unat scale" "read_digits 0 a < 10 ^ (unat precision - unat scale)" "x = word_of_int (number_int (hd t = CHR ''-'') a b (unat scale))"
    using l parse_number_value_text [OF assms(1) nt] by (auto split: if_splits)
  note bd = number_int_bound [OF nt c(1,2) sp(1)]
  show ?r using nt c bd sint_number [OF bd sp(2)] by auto
next
  assume ?r
  then obtain neg a b where r: "number_text neg a b t" "length b \<le> unat scale" "read_digits 0 a < 10 ^ (unat precision - unat scale)"
    "sint x = number_int neg a b (unat scale)" by blast
  have "x = word_of_int (sint x)" by simp
  then show ?l using parse_number_value_text [OF assms(1) r(1)] r(2-4) by simp
qed

section \<open>Rows\<close>

lemma number_column_format:
  assumes "column_is_valid c" "col_type c = ty_number"
  shows "col_scale c \<le> col_precision c" "col_precision c \<le> MAX_NUMBER_PRECISION" "0 < col_precision c"
  using assms by (auto simp: column_is_valid_def split: if_splits)

lemma parse_quoted_typed:
  assumes "vp_value (parse_quoted c t p) = Some v" "col_type c \<in> {ty_character, ty_string, ty_varstring, ty_date, ty_time, ty_datetime, ty_text}"
  shows "matches_column v c \<and> value_wf v \<and> (v_type v = ty_time \<longrightarrow> unat (v_time v) < 86400)"
proof -
  have q: "matches_column (char_value x) c" if "col_type c = ty_character" for x
    using that by (simp add: matches_column_def char_value_def null_value_def CHAR_SIZE_def)
  have d: "matches_column (date_value d) c" if "col_type c = ty_date" for d
    using that by (simp add: matches_column_def date_value_def null_value_def)
  have u: "matches_column (time_value d) c" if "col_type c = ty_time" for d
    using that by (simp add: matches_column_def time_value_def null_value_def)
  have e: "matches_column (datetime_value d) c" if "col_type c = ty_datetime" for d
    using that by (simp add: matches_column_def datetime_value_def null_value_def)
  have ty: "v_type (char_value x) = ty_character" "v_type (string_value s) = ty_string" "v_type (varstring_value s) = ty_varstring"
    "v_type (date_value d) = ty_date" "v_type (datetime_value e) = ty_datetime" "v_type (text_value s) = ty_text"
    "v_time (time_value w) = w" for x s d e w by (simp_all add: value_defs)
  have tm: "unat w < 86400" if "time_from_string s = Some w" for s w using time_string_parsed [OF that] by simp
  show ?thesis using assms by (auto simp: parse_quoted_def Let_def q d u e ty tm split: if_splits option.splits)
qed

lemma parse_value_typed:
  assumes "column_is_valid c" "vp_value (parse_value_with_error c t p) = Some v"
  shows "matches_column v c" "value_wf v" "v_type v = ty_time \<Longrightarrow> unat (v_time v) < 86400"
proof -
  have n: "matches_column (number_value x) c" if "col_type c = ty_number" "parse_number_value s (col_precision c) (col_scale c) = Some x" for s x
  proof -
    have "\<bar>sint x\<bar> < 10 ^ unat (col_precision c)"
      using that(2) parse_number_value_exact [OF number_column_format(1,2) [OF assms(1) that(1)]] by blast
    then show ?thesis using that(1) number_column_format(3) [OF assms(1) that(1)]
      by (simp add: matches_column_def number_value_def null_value_def digit_count_abs_le)
  qed
  have i: "matches_column (integer_value x) c" if "col_type c = ty_integer" for x
    using that by (simp add: matches_column_def integer_value_def null_value_def is_string_like_def)
  have z: "matches_column null_value c" if "col_nullable c" using that by (simp add: matches_column_def null_value_def)
  have ty: "v_type null_value = ty_null" "v_type (integer_value x) = ty_integer" "v_type (number_value x) = ty_number" for x by (simp_all add: value_defs)
  have "matches_column v c \<and> value_wf v \<and> (v_type v = ty_time \<longrightarrow> unat (v_time v) < 86400)"
    using assms(2) by (auto simp: parse_value_with_error_def Let_def n i z ty split: if_splits option.splits dest: parse_quoted_typed)
  then show "matches_column v c" "value_wf v" "v_type v = ty_time \<Longrightarrow> unat (v_time v) < 86400" by simp_all
qed

lemma parse_quoted_total: "vp_error (parse_quoted c t p) = None \<longleftrightarrow> vp_value (parse_quoted c t p) \<noteq> None"
  by (simp add: parse_quoted_def Let_def split: option.splits)

lemma parse_value_total: "vp_error (parse_value_with_error c t p) = None \<longleftrightarrow> vp_value (parse_value_with_error c t p) \<noteq> None"
  by (simp add: parse_value_with_error_def Let_def parse_quoted_total split: option.splits)

lemma parse_value_row: "vp_row (parse_value_with_error c t p) = None"
proof -
  have "vp_row (parse_quoted c t p) = None" for t p by (simp add: parse_quoted_def Let_def split: option.splits)
  then show ?thesis by (simp add: parse_value_with_error_def Let_def split: option.splits)
qed

text \<open>What the loop does for column \<open>i\<close> of a row text.\<close>

definition parse_at :: "Schema \<Rightarrow> TextPart list \<Rightarrow> nat \<Rightarrow> ValueParseResult" where
  "parse_at s parts i = parse_value_with_error (columns s ! i) (tp_text (parts ! i)) (tp_position (parts ! i))"

lemma parse_row_loop_spec:
  assumes "\<And>c. c \<in> set (columns s) \<Longrightarrow> column_is_valid c" "length (columns s) < 65536" "i + n = length (columns s)"
  shows "(\<forall>j. i \<le> j \<and> j < i + n \<longrightarrow> vp_error (parse_at s parts j) = None) \<and>
      (\<exists>row. parse_row_loop s parts base [i..<i + n] vals = row_result (vals @ row) \<and> length row = n \<and>
        (\<forall>j<n. vp_value (parse_at s parts (i + j)) = Some (row ! j))) \<or>
    (\<exists>j. i \<le> j \<and> j < i + n \<and> vp_error (parse_at s parts j) \<noteq> None \<and> (\<forall>k. i \<le> k \<and> k < j \<longrightarrow> vp_error (parse_at s parts k) = None) \<and>
      parse_row_loop s parts base [i..<i + n] vals = parse_at s parts j)"
  using assms(3)
proof (induction n arbitrary: i vals)
  case (Suc n)
  have i: "i < length (columns s)" using Suc.prems by simp
  have u: "[i..<i + Suc n] = i # [Suc i..<Suc i + n]" by (simp add: upt_conv_Cons)
  have col: "schema_column s (of_nat i) = Some (columns s ! i)" using i assms(2) by (simp add: schema_column_def unat_of_nat_u16)
  show ?case
  proof (cases "vp_error (parse_at s parts i)")
    case (Some e)
    then have "parse_row_loop s parts base [i..<i + Suc n] vals = parse_at s parts i"
      unfolding u by (simp add: col vp_ok_def parse_at_def Let_def)
    then show ?thesis using Some by (intro disjI2 exI [of _ i]) auto
  next
    case None
    then obtain v where v: "vp_value (parse_at s parts i) = Some v" using parse_value_total unfolding parse_at_def by blast
    have m: "matches_column v (columns s ! i)" using parse_value_typed(1) [OF assms(1)] v i unfolding parse_at_def by simp
    have step: "parse_row_loop s parts base [i..<i + Suc n] vals = parse_row_loop s parts base [Suc i..<Suc i + n] (vals @ [v])"
      using None v m unfolding u by (simp add: col vp_ok_def parse_at_def Let_def)
    have split: "(i \<le> j \<and> j < i + Suc n) \<longleftrightarrow> (j = i \<or> (Suc i \<le> j \<and> j < Suc i + n))" "(i \<le> k \<and> k < j) \<longleftrightarrow> (i < j \<and> (k = i \<or> Suc i \<le> k \<and> k < j))" for j k by auto
    have "Suc i + n = length (columns s)" using Suc.prems by simp
    from Suc.IH [of "Suc i" "vals @ [v]", OF this] show ?thesis
    proof (elim disjE)
      assume "(\<forall>j. Suc i \<le> j \<and> j < Suc i + n \<longrightarrow> vp_error (parse_at s parts j) = None) \<and>
        (\<exists>row. parse_row_loop s parts base [Suc i..<Suc i + n] (vals @ [v]) = row_result ((vals @ [v]) @ row) \<and> length row = n \<and>
          (\<forall>j<n. vp_value (parse_at s parts (Suc i + j)) = Some (row ! j)))"
      then obtain row where row: "\<forall>j. Suc i \<le> j \<and> j < Suc i + n \<longrightarrow> vp_error (parse_at s parts j) = None"
        "parse_row_loop s parts base [Suc i..<Suc i + n] (vals @ [v]) = row_result ((vals @ [v]) @ row)" "length row = n"
        "\<forall>j<n. vp_value (parse_at s parts (Suc i + j)) = Some (row ! j)" by blast
      have "vp_value (parse_at s parts (i + j)) = Some ((v # row) ! j)" if "j < Suc n" for j using that v row(4) by (cases j) auto
      then show ?thesis using row None step unfolding split by (intro disjI1 conjI exI [of _ "v # row"]) auto
    next
      assume "\<exists>j. Suc i \<le> j \<and> j < Suc i + n \<and> vp_error (parse_at s parts j) \<noteq> None \<and>
        (\<forall>k. Suc i \<le> k \<and> k < j \<longrightarrow> vp_error (parse_at s parts k) = None) \<and>
        parse_row_loop s parts base [Suc i..<Suc i + n] (vals @ [v]) = parse_at s parts j"
      then obtain j where j: "Suc i \<le> j" "j < Suc i + n" "vp_error (parse_at s parts j) \<noteq> None"
        "\<forall>k. Suc i \<le> k \<and> k < j \<longrightarrow> vp_error (parse_at s parts k) = None"
        "parse_row_loop s parts base [Suc i..<Suc i + n] (vals @ [v]) = parse_at s parts j" by blast
      show ?thesis
      proof (intro disjI2 exI [of _ j] conjI)
        show "\<forall>k. i \<le> k \<and> k < j \<longrightarrow> vp_error (parse_at s parts k) = None" using j(4) None by (metis Suc_leI order_le_less)
      qed (use j step in auto)
    qed
  qed
qed auto

lemma valid_schema_columns:
  assumes "schema_is_valid s"
  shows "\<And>c. c \<in> set (columns s) \<Longrightarrow> column_is_valid c" "length (columns s) < 65536" "unat (column_count s) = length (columns s)"
  using assms by (auto simp: schema_is_valid_def are_valid_columns_iff column_count_def unat_of_nat_u16 split: if_splits)

lemma parse_row_spec:
  assumes "schema_is_valid s"
  shows "let parts = split_csv_with_positions t base; r = parse_row_with_error s t base; n = length (columns s) in
    if length parts \<noteq> n then \<exists>m. r = value_error m t base
    else (\<forall>j<n. vp_error (parse_at s parts j) = None) \<and>
        (\<exists>row. r = row_result row \<and> length row = n \<and> (\<forall>j<n. vp_value (parse_at s parts j) = Some (row ! j))) \<or>
      (\<exists>j<n. vp_error (parse_at s parts j) \<noteq> None \<and> (\<forall>k<j. vp_error (parse_at s parts k) = None) \<and> r = parse_at s parts j)"
  using parse_row_loop_spec [OF valid_schema_columns(1,2) [OF assms], of 0 "length (columns s)" "split_csv_with_positions t base" base "[]"]
  by (simp add: parse_row_with_error_def Let_def valid_schema_columns(3) [OF assms]) auto

lemma parse_at_error:
  assumes "i < length parts" "vp_error (parse_at s parts i) = Some e" "list_all (part_of t base) parts"
  shows "vpe_token e = tp_text (parts ! i)" "vpe_position e = tp_position (parts ! i)"
    "base \<le> vpe_position e \<and> substr t (vpe_position e - base) (length (vpe_token e)) = vpe_token e"
proof -
  have p: "part_of t base (parts ! i)" using assms(1,3) by (simp add: list_all_length)
  then have "leading_spaces (tp_text (parts ! i)) = 0" unfolding part_of_def by (metis leading_spaces_trim)
  then show e: "vpe_token e = tp_text (parts ! i)" "vpe_position e = tp_position (parts ! i)"
    using parse_value_error [OF assms(2) [unfolded parse_at_def]] p by (simp_all add: part_of_def)
  show "base \<le> vpe_position e \<and> substr t (vpe_position e - base) (length (vpe_token e)) = vpe_token e"
    using p by (simp add: e part_of_def)
qed

section \<open>Printed values\<close>

lemma trim_id:
  assumes "t \<noteq> []" "\<not> isspace (hd t)" "\<not> isspace (last t)"
  shows "trim t = t" "leading_spaces t = 0"
proof -
  have d: "dropWhile isspace u = u" if "u \<noteq> []" "\<not> isspace (hd u)" for u using that by (cases u) auto
  have "dropWhile isspace (rev t) = rev t" using assms by (intro d) (simp_all add: hd_rev)
  then show "trim t = t" using d [OF assms(1,2)] by (simp add: trim_eq)
  show "leading_spaces t = 0" using assms by (cases t) (auto simp: leading_spaces_def)
qed

lemma show_nat_ends: "isdigit (hd (show_nat n))" "isdigit (last (show_nat n))"
  using digits_show_nat [of n] by (simp_all add: list_all_iff)

lemma show_nat_takeWhile: "takeWhile isdigit (show_nat n) = show_nat n"
  using digits_show_nat [of n] by (simp add: takeWhile_eq_all_conv list_all_iff)

lemma isdigit_noteq: "isdigit c \<Longrightarrow> c \<noteq> CHR ''-'' \<and> c \<noteq> CHR ''+'' \<and> c \<noteq> CHR ''N'' \<and> c \<noteq> CHR 0x27 \<and> c \<noteq> CHR ''('' \<and> c \<noteq> CHR '')'' \<and> c \<noteq> CHR '','' \<and> \<not> isspace c"
  by (auto simp: isdigit_def isspace_def)

lemma parse_integer_show: "parse_integer (show_int (sint x)) = Some x"
proof -
  have b: "- (2 ^ 63) \<le> sint x" "sint x < 2 ^ 63" using sint_greater_eq [of x] sint_less [of x] by simp_all
  have h: "hd (show_nat n) \<noteq> CHR ''-''" "hd (show_nat n) \<noteq> CHR ''+''" "leading_spaces (show_nat n) = 0" for n
    using isdigit_noteq [OF show_nat_ends(1) [of n]] by (auto simp: leading_spaces_def takeWhile_eq_Nil_iff)
  have "leading_spaces (CHR ''-'' # u) = 0" for u by (simp add: leading_spaces_def isspace_def)
  then show ?thesis using b
    by (cases "sint x < 0") (simp_all add: parse_integer_def stoll_def Let_def show_int_def h show_nat_takeWhile)
qed

lemma power_of_10_eq: "unat e \<le> 18 \<Longrightarrow> unat (power_of_10 e) = 10 ^ unat e"
proof -
  assume e: "unat e \<le> 18"
  have p: "power_of_10 e = of_nat (10 ^ unat e)"
  proof -
    have "((\<lambda>v. v * 10) ^^ k) 1 = (of_nat (10 ^ k) :: 64 word)" for k by (induction k) (simp_all add: mult.commute)
    then show ?thesis by (simp add: power_of_10_def)
  qed
  have "(10 :: nat) ^ unat e \<le> 10 ^ 18" using e by (intro power_increasing) auto
  then have "(10 :: nat) ^ unat e < 2 ^ 64" by simp
  then show ?thesis unfolding p by (simp add: unat_of_nat take_bit_nat_eq_self del: of_nat_power)
qed

lemma format_number_text:
  assumes "unat scale \<le> 18"
  shows "format_number x scale = (if sint x < 0 then ''-'' else '''') @ show_nat (nat \<bar>sint x\<bar> div 10 ^ unat scale) @
    (if unat scale > 0 then ''.'' @ setw0 (unat scale) (show_nat (nat \<bar>sint x\<bar> mod 10 ^ unat scale)) else '''')"
proof -
  have v: "(if sint x < 0 then - (x + 1) + 1 else x) = absolute_value x" by (simp add: absolute_value_def not_less)
  have u: "unat (absolute_value x) = nat \<bar>sint x\<bar>" using absolute_value_abs [of x] by linarith
  show ?thesis
    unfolding format_number_def Let_def v
    by (auto simp: u power_of_10_eq [OF assms] unat_div unat_mod unat_gt_0 word_gt_0 unat_eq_zero simp flip: unat_gt_0)
qed

text \<open>The characters of printed numbers.\<close>

definition plain_char :: "char \<Rightarrow> bool" where
  "plain_char c \<longleftrightarrow> isdigit c \<or> c = CHR ''-'' \<or> c = CHR ''.''"

lemma plain_char_noteq: "plain_char c \<Longrightarrow> c \<noteq> CHR ''N'' \<and> c \<noteq> CHR 0x27 \<and> c \<noteq> CHR ''('' \<and> c \<noteq> CHR '')'' \<and> c \<noteq> CHR '','' \<and> \<not> isspace c"
  by (auto simp: plain_char_def isdigit_def isspace_def)

lemma plain_text:
  assumes "t \<noteq> []" "list_all plain_char t"
  shows "trim t = t" "leading_spaces t = 0" "t \<noteq> ''NULL''"
proof -
  have "plain_char (hd t)" "plain_char (last t)" using assms by (simp_all add: list_all_iff)
  note n = this [THEN plain_char_noteq]
  show "trim t = t" "leading_spaces t = 0" using trim_id [OF assms(1)] n by simp_all
  show "t \<noteq> ''NULL''" using n by auto
qed

lemma plain_show_nat: "list_all plain_char (show_nat n)"
  using digits_show_nat [of n] by (auto simp: list_all_iff plain_char_def)

lemma plain_show_int: "list_all plain_char (show_int i)" "show_int i \<noteq> []"
  using plain_show_nat by (simp_all add: show_int_def) (simp add: plain_char_def)

lemma plain_number_text:
  assumes "number_text neg a b t"
  shows "list_all plain_char t" "t \<noteq> []"
  using assms by (auto simp: number_text_def list_all_iff plain_char_def)

text \<open>The text of a value in a row, and the values that are read back from it.\<close>

definition quoted_type :: "ColumnType \<Rightarrow> bool" where
  "quoted_type ty \<longleftrightarrow> ty \<noteq> ty_integer \<and> ty \<noteq> ty_number \<and> ty \<noteq> ty_null"

definition literal :: "Column \<Rightarrow> Value \<Rightarrow> string" where
  "literal c v = (if \<not> v_is_null v \<and> quoted_type (v_type v) then [CHR 0x27] @ format_value c v @ [CHR 0x27] else format_value c v)"

definition readable :: "Value \<Rightarrow> bool" where
  "readable v \<longleftrightarrow> value_wf v \<and> CHR 0x27 \<notin> set (v_string v) \<and>
     (v_type v = ty_date \<longrightarrow> -719528 \<le> sint (v_date v) \<and> sint (v_date v) \<le> 2932896) \<and>
     (v_type v = ty_time \<longrightarrow> unat (v_time v) < 86400) \<and>
     (v_type v = ty_datetime \<longrightarrow> 0 \<le> sint (v_datetime v) \<and> sint (v_datetime v) div 86400 \<le> 2932896)"

lemma parse_number_format:
  assumes "scale \<le> precision" "precision \<le> MAX_NUMBER_PRECISION" "\<bar>sint x\<bar> < 10 ^ unat precision"
  shows "parse_number_value (format_number x scale) precision scale = Some x"
proof -
  let ?s = "unat scale" and ?p = "unat precision"
  define n where "n = nat \<bar>sint x\<bar>"
  have sp: "?s \<le> ?p" "?p \<le> 18" using assms(1,2) by (simp_all add: word_le_nat_alt MAX_NUMBER_PRECISION_def)
  define b where "b = (if ?s > 0 then setw0 ?s (show_nat (n mod 10 ^ ?s)) else '''')"
  have fm: "format_number x scale = (if sint x < 0 then ''-'' else '''') @ show_nat (n div 10 ^ ?s) @ (if ?s > 0 then ''.'' @ b else '''')"
    using format_number_text [of scale x] sp by (simp add: n_def b_def)
  have lb: "length b = ?s" using length_padded [of "n mod 10 ^ ?s" ?s] by (simp add: b_def)
  have nt: "number_text (sint x < 0) (show_nat (n div 10 ^ ?s)) b (format_number x scale)"
    unfolding number_text_def fm using digits_padded by (auto simp: b_def digits_show_nat)
  have "n < 10 ^ ?p" using assms(3) by (simp add: n_def nat_less_iff)
  then have w: "n div 10 ^ ?s < 10 ^ (?p - ?s)" using sp(1) by (simp add: less_mult_imp_div_less flip: power_add)
  have rb: "read_digits 0 b = n mod 10 ^ ?s" by (simp add: b_def)
  have db: "list_all isdigit b" using digits_padded by (simp add: b_def)
  have "read_digits 0 (show_nat (n div 10 ^ ?s) @ b) = n"
    using read_digits_split [OF db, of "n div 10 ^ ?s"] by (simp only: read_digits_simps read_show_nat rb lb div_mult_mod_eq)
  then have "number_int (sint x < 0) (show_nat (n div 10 ^ ?s)) b ?s = sint x" unfolding number_int_def lb by (simp add: n_def)
  then show ?thesis using parse_number_value_text [OF assms(1) nt] lb w by simp
qed

lemma datetime_string_printed:
  assumes "0 \<le> sint t" "sint t div 86400 \<le> 2932896"
  shows "datetime_from_string (datetime_to_string t) = Some t"
proof -
  define d u where "d = (word_of_int (sint t div 86400) :: date)" and "u = (word_of_int (sint t mod 86400) :: time)"
  have q: "0 \<le> sint t div 86400" using assms(1) by (simp add: pos_imp_zdiv_nonneg_iff)
  have sd: "sint d = sint t div 86400" unfolding d_def using q assms(2) by (intro sint_word_of_int_32) linarith+
  have m: "0 \<le> sint t mod 86400" "sint t mod 86400 < 86400" by simp_all
  then have uu: "int (unat u) = sint t mod 86400" unfolding u_def by (simp add: uint_word_of_int)
  have df: "date_from_string (date_to_string d) = Some d" using sd q assms(2) by (intro date_string_printed) linarith+
  have tf: "time_from_string (time_to_string u) = Some u" using uu m by (intro time_string_printed) linarith
  have tx: "datetime_to_string t = date_to_string d @ '' '' @ time_to_string u"
    unfolding datetime_to_string_printed_day d_def u_def printed_day_def using assms(1) by simp
  have len: "length (date_to_string d) = 10" "length (time_to_string u) = 8"
    using date_text_range(3) [OF df] time_string_parsed [OF tf] by simp_all
  have "sint d * SECONDS_PER_DAY + int (unat u) = sint t" unfolding sd uu SECONDS_PER_DAY_def by simp
  then show ?thesis unfolding datetime_from_string_def tx using len df tf by (simp add: nth_append)
qed

lemma parse_quoted_literal:
  assumes "t = [CHR 0x27] @ u @ [CHR 0x27]"
  shows "length t \<ge> 2" "hd t = CHR 0x27" "last t = CHR 0x27" "substr t 1 (length t - 2) = u" "trim t = t" "leading_spaces t = 0" "t \<noteq> ''NULL''"
proof -
  have "\<not> isspace (CHR 0x27)" by code_simp
  then show "trim t = t" "leading_spaces t = 0" using assms trim_id [of t] by auto
  show "t \<noteq> ''NULL''" using assms by auto
qed (use assms in \<open>simp_all add: substr_def\<close>)

lemma parse_literal:
  assumes c: "column_is_valid c" and m: "matches_column v c" and r: "readable v"
  shows "parse_value_with_error c (literal c v) p = value_result v"
proof (cases "v_is_null v")
  case True
  then have v: "v = null_value" using r value_wf_nullD by (simp add: readable_def)
  then have "col_nullable c" using m by (simp add: matches_column_def null_value_def)
  moreover have "trim ''NULL'' = ''NULL''" by code_simp
  ultimately show ?thesis using v by (simp add: parse_value_with_error_def literal_def format_value_def null_value_def Let_def)
next
  case nn: False
  have ty: "v_type v = col_type c" using m nn by (auto simp: matches_column_def split: if_splits)
  have wf: "v = value_of_type (v_type v) v" using r nn value_wf_typeD by (simp add: readable_def)
  note f = matches_column_iff [OF c nn]
  show ?thesis
  proof (cases "quoted_type (v_type v)")
    case True
    have l: "literal c v = [CHR 0x27] @ format_value c v @ [CHR 0x27]" using True nn by (simp add: literal_def)
    have pq: "parse_value_with_error c (literal c v) p = parse_quoted c (literal c v) p"
      using True parse_quoted_literal [OF l] ty by (cases "col_type c") (simp_all add: parse_value_with_error_def quoted_type_def)
    note q = parse_quoted_literal [OF l]
    show ?thesis
    proof (cases "v_type v = ty_character")
      case ch: True
      then obtain x where "v_string v = [x]" using f m ty by (auto simp: length_Suc_conv)
      then have "v = char_value x" "format_value c v = [x]" using wf ch nn by (auto simp: format_value_def)
      then show ?thesis unfolding pq parse_quoted_def Let_def q(4) using q(1-3) ch ty by simp
    next
      case False
      have fv: "format_value c v = (if v_type v = ty_date then date_to_string (v_date v) else if v_type v = ty_time then time_to_string (v_time v)
        else if v_type v = ty_datetime then datetime_to_string (v_datetime v) else v_string v)"
        using True nn by (simp add: format_value_def quoted_type_def)
      have mt: "matches_column (value_of_type (v_type v) v) c" using m wf by simp
      show ?thesis unfolding pq parse_quoted_def Let_def q(4) fv
        using q(1-3) True False ty r wf mt date_string_printed time_string_printed datetime_string_printed
        by (cases "col_type c") (simp_all add: readable_def quoted_type_def)
    qed
  next
    case False
    then have tyc: "v_type v = ty_integer \<or> v_type v = ty_number \<or> v_type v = ty_null" by (auto simp: quoted_type_def)
    have nnull: "col_type c \<noteq> ty_null" using c by (auto simp: column_is_valid_def split: if_splits)
    have l: "literal c v = format_value c v" using False by (simp add: literal_def)
    show ?thesis
    proof (cases "v_type v = ty_integer")
      case True
      have fv: "literal c v = show_int (sint (v_integer v))" using l nn True by (simp add: format_value_def)
      show ?thesis using True ty wf plain_text [OF plain_show_int(2,1)] unfolding fv
        by (simp add: parse_value_with_error_def Let_def parse_integer_show)
    next
      case nint: False
      then have n: "v_type v = ty_number" using tyc ty nnull by auto
      have cn: "col_type c = ty_number" using n ty by simp
      have fv: "literal c v = format_number (v_number v) (col_scale c)" using l nn n by (simp add: format_value_def)
      have bd: "\<bar>sint (v_number v)\<bar> < 10 ^ unat (col_precision c)" using f m cn by auto
      note pn = parse_number_format [OF number_column_format(1,2) [OF c cn] bd]
      obtain neg a b where "number_text neg a b (literal c v)"
        using pn parse_number_value_exact [OF number_column_format(1,2) [OF c cn]] unfolding fv by blast
      note t = plain_text [OF plain_number_text(2,1) [OF this]]
      then show ?thesis using cn n wf pn unfolding fv by (simp add: parse_value_with_error_def Let_def)
    qed
  qed
qed

text \<open>A literal as the splitting loop sees it: no special character, or a string without a quote inside.\<close>

definition atom_text :: "string \<Rightarrow> bool" where
  "atom_text t \<longleftrightarrow> (\<forall>c\<in>set t. c \<noteq> CHR 0x27 \<and> c \<noteq> CHR ''('' \<and> c \<noteq> CHR '')'' \<and> c \<noteq> CHR '','') \<or>
     (\<exists>u. t = [CHR 0x27] @ u @ [CHR 0x27] \<and> CHR 0x27 \<notin> set u)"

lemma no_quote_padded: "CHR 0x27 \<notin> set (padded w n)"
  using digits_padded [of w n] isdigit_noteq by (auto simp: list_all_iff)

lemma no_quote_date: "date_from_string t = Some d \<Longrightarrow> CHR 0x27 \<notin> set t"
  by (elim date_from_string_SomeD) (simp add: date_text_def no_quote_padded)

lemma no_quote_time: "time_from_string t = Some u \<Longrightarrow> CHR 0x27 \<notin> set t"
  by (elim time_from_string_SomeD) (simp add: time_text_def no_quote_padded)

lemma no_quote_datetime: "datetime_from_string t = Some e \<Longrightarrow> CHR 0x27 \<notin> set t"
  by (elim datetime_from_string_SomeD) (auto dest: no_quote_date no_quote_time [OF time_string_printed])

lemma atom_literal:
  assumes c: "column_is_valid c" and m: "matches_column v c" and r: "readable v"
  shows "atom_text (literal c v)" "trim (literal c v) = literal c v" "literal c v \<noteq> []"
proof -
  have ty: "\<not> v_is_null v \<Longrightarrow> v_type v = col_type c" using m by (auto simp: matches_column_def split: if_splits)
  have tt: "trim ''NULL'' = ''NULL''" by code_simp
  consider "v_is_null v" | "\<not> v_is_null v" "quoted_type (v_type v)" | "\<not> v_is_null v" "v_type v = ty_integer" | "\<not> v_is_null v" "v_type v = ty_number"
    using ty c by (auto simp: quoted_type_def column_is_valid_def split: if_splits)
  then have "atom_text (literal c v) \<and> trim (literal c v) = literal c v \<and> literal c v \<noteq> []"
  proof cases
    case 1
    then show ?thesis using tt by (simp add: literal_def format_value_def atom_text_def)
  next
    case 2
    then have l: "literal c v = [CHR 0x27] @ format_value c v @ [CHR 0x27]" by (simp add: literal_def)
    have "CHR 0x27 \<notin> set (format_value c v)"
      using 2 r date_string_printed [THEN no_quote_date] time_string_printed [THEN no_quote_time] datetime_string_printed [THEN no_quote_datetime]
      by (auto simp: format_value_def quoted_type_def readable_def)
    then show ?thesis using parse_quoted_literal(5) [OF l] l by (auto simp: atom_text_def)
  next
    case 3
    then have l: "literal c v = show_int (sint (v_integer v))" by (simp add: literal_def format_value_def quoted_type_def)
    show ?thesis using plain_show_int plain_text [OF plain_show_int(2,1)] plain_char_noteq unfolding l by (auto simp: atom_text_def list_all_iff)
  next
    case 4
    then have l: "literal c v = format_number (v_number v) (col_scale c)" by (simp add: literal_def format_value_def quoted_type_def)
    have cn: "col_type c = ty_number" using 4 ty by simp
    have "\<bar>sint (v_number v)\<bar> < 10 ^ unat (col_precision c)" using matches_column_iff [OF c 4(1)] m cn by auto
    from parse_number_format [OF number_column_format(1,2) [OF c cn] this] obtain neg a b where "number_text neg a b (literal c v)"
      using parse_number_value_exact [OF number_column_format(1,2) [OF c cn]] unfolding l by blast
    note t = plain_number_text [OF this]
    show ?thesis using t plain_text(1) [OF t(2,1)] plain_char_noteq by (auto simp: atom_text_def list_all_iff)
  qed
  then show "atom_text (literal c v)" "trim (literal c v) = literal c v" "literal c v \<noteq> []" by simp_all
qed

lemma split_loop_plain:
  "\<forall>c\<in>set t. c \<noteq> CHR 0x27 \<and> c \<noteq> CHR ''('' \<and> c \<noteq> CHR '')'' \<and> c \<noteq> CHR '','' \<Longrightarrow>
   split_loop b i parts cur cp q d (t @ rest) = split_loop b (i + length t) parts (cur @ t) cp q d rest"
  by (induction t arbitrary: i cur) simp_all

lemma split_loop_string:
  "CHR 0x27 \<notin> set t \<Longrightarrow> split_loop b i parts cur cp True d (t @ rest) = split_loop b (i + length t) parts (cur @ t) cp True d rest"
  by (induction t arbitrary: i cur) auto

lemma split_loop_atom:
  assumes "atom_text t"
  shows "split_loop b i parts cur cp False d (t @ rest) = split_loop b (i + length t) parts (cur @ t) cp False d rest"
  using assms split_loop_plain unfolding atom_text_def
  by (elim disjE exE conjE) (auto simp: split_loop_string)

fun row_text :: "string list \<Rightarrow> string" where
  "row_text [] = ''''"
| "row_text [t] = t"
| "row_text (t # u # ts) = t @ '', '' @ row_text (u # ts)"

lemma trim_space: "trim t = t \<Longrightarrow> t \<noteq> [] \<Longrightarrow> trim (CHR '' '' # t) = t"
  by (simp add: trim_eq isspace_def)

lemma split_loop_row:
  assumes "list_all atom_text ts" "list_all (\<lambda>t. trim t = t \<and> t \<noteq> []) ts" "ts \<noteq> []" "cur = [] \<or> cur = '' ''"
    "split_loop b i parts cur cp False 0 (row_text ts) = (parts', cur', cp')"
  shows "map tp_text parts' @ [trim cur'] = map tp_text parts @ ts \<and> cur' \<noteq> []"
  using assms
proof (induction ts arbitrary: i parts cur cp rule: row_text.induct)
  case (2 t)
  then show ?case using split_loop_atom [of t b i parts cur cp 0 "[]"] trim_space [of t] by auto
next
  case (3 t u ts)
  let ?p = "\<lparr>tp_text = trim (cur @ t), tp_position = cp + leading_spaces (cur @ t)\<rparr>"
  have "split_loop b (i + length t + 1) (parts @ [?p]) '''' (b + (i + length t) + 1) False 0 ('' '' @ row_text (u # ts)) = (parts', cur', cp')"
    using "3.prems"(1,5) split_loop_atom [of t b i parts cur cp 0 "'', '' @ row_text (u # ts)"] by simp
  then have "split_loop b (i + length t + 2) (parts @ [?p]) '' '' (b + (i + length t) + 1) False 0 (row_text (u # ts)) = (parts', cur', cp')" by simp
  from "3.IH" [OF _ _ _ _ this] "3.prems" have "map tp_text parts' @ [trim cur'] = map tp_text (parts @ [?p]) @ u # ts \<and> cur' \<noteq> []" by simp
  then show ?case using "3.prems"(2,4) trim_space [of t] by auto
qed simp

lemma split_row_text:
  assumes "list_all atom_text ts" "list_all (\<lambda>t. trim t = t \<and> t \<noteq> []) ts" "ts \<noteq> []"
  shows "map tp_text (split_csv_with_positions (row_text ts) base) = ts"
proof -
  obtain parts cur cp where r: "split_loop base 0 [] [] base False 0 (row_text ts) = (parts, cur, cp)" by (metis prod_cases3)
  from split_loop_row [OF assms _ this] show ?thesis using r by (simp add: split_csv_with_positions_def)
qed

lemma parse_row_text:
  assumes "schema_is_valid s" "list_all2 matches_column row (columns s)" "list_all readable row"
  shows "parse_row_with_error s (row_text (map2 literal (columns s) row)) base = row_result row"
proof -
  let ?ts = "map2 literal (columns s) row" and ?n = "length (columns s)"
  let ?parts = "split_csv_with_positions (row_text ?ts) base"
  have len: "length row = ?n" using assms(2) by (simp add: list_all2_lengthD)
  have at: "column_is_valid (columns s ! i)" "matches_column (row ! i) (columns s ! i)" "readable (row ! i)" if "i < ?n" for i
    using that assms(2,3) valid_schema_columns(1) [OF assms(1)] len by (auto simp: list_all2_conv_all_nth list_all_length)
  have "list_all atom_text ?ts" "list_all (\<lambda>t. trim t = t \<and> t \<noteq> []) ?ts" "?ts \<noteq> []"
    using atom_literal [OF at] len assms(1) by (auto simp: list_all_length schema_is_valid_def are_valid_columns_iff split: if_splits)
  then have texts: "map tp_text ?parts = ?ts" by (rule split_row_text)
  have pl: "length ?parts = ?n" using arg_cong [OF texts, of length] len by simp
  have pa: "parse_at s ?parts i = value_result (row ! i)" if "i < ?n" for i
  proof -
    have "tp_text (?parts ! i) = literal (columns s ! i) (row ! i)"
      using arg_cong [OF texts, of "\<lambda>xs. xs ! i"] that pl len by simp
    then show ?thesis unfolding parse_at_def using parse_literal [OF at [OF that]] by simp
  qed
  from parse_row_spec [OF assms(1), of "row_text ?ts" base] obtain row' where
    "parse_row_with_error s (row_text ?ts) base = row_result row'" "length row' = ?n" "\<forall>j<?n. Some (row ! j) = Some (row' ! j)"
    using pl pa by (auto simp: Let_def)
  then show ?thesis using len nth_equalityI [of row' row] by simp
qed

section \<open>Properties\<close>

text \<open>
  C35. The row that \<^verbatim>\<open>parse_row\<close> returns for a valid schema has one value for each column, and each value is of
  the type of its column and within its size and precision, so that the later check against the schema never fails;
  a time is within the day.\<close>

theorem parsed_row_matches_schema:
  assumes "schema_is_valid s" "parse_row s t = Some row"
  shows "list_all2 matches_column row (columns s) \<and>
    list_all (\<lambda>v. value_wf v \<and> (v_type v = ty_time \<longrightarrow> unat (v_time v) < 86400)) row"
proof -
  let ?parts = "split_csv_with_positions t 0" and ?n = "length (columns s)"
  have r: "vp_row (parse_row_with_error s t 0) = Some row" using assms(2) by (simp add: parse_row_def)
  have "vp_row (parse_at s parts i) = None" for parts i by (simp add: parse_at_def parse_value_row)
  then obtain "length row = ?n" "\<forall>j<?n. vp_value (parse_at s ?parts j) = Some (row ! j)"
    using parse_row_spec [OF assms(1), of t 0] r by (auto simp: Let_def split: if_splits)
  moreover from this(2) have "matches_column (row ! i) (columns s ! i) \<and> value_wf (row ! i) \<and> (v_type (row ! i) = ty_time \<longrightarrow> unat (v_time (row ! i)) < 86400)" if "i < ?n" for i
    using that parse_value_typed [OF valid_schema_columns(1) [OF assms(1) nth_mem [OF that]]] unfolding parse_at_def by blast
  ultimately show ?thesis by (simp add: list_all2_conv_all_nth list_all_length)
qed

theorem parsed_row_matches_schema_witness:
  "list_all2 matches_column [integer_value 7, varstring_value ''a,b''] (columns sample_schema)"
proof -
  have v: "schema_is_valid sample_schema" by code_simp
  have p: "parse_row sample_schema (''7, '' @ [CHR 0x27] @ ''a,b'' @ [CHR 0x27]) = Some [integer_value 7, varstring_value ''a,b'']" by code_simp
  show ?thesis using parsed_row_matches_schema [OF v p] by blast
qed

text \<open>
  C37. A row that cannot be parsed is reported with the text and the position of what is wrong. The error of
  \<^verbatim>\<open>parse_row_with_error\<close> is the error of the first column whose literal is not accepted, or about the whole text when
  the number of literals is not the number of columns, and its token stands in the text at its position. Without an
  error every literal is accepted and the row holds their values.\<close>

theorem parse_row_reports_first_error:
  assumes "schema_is_valid s"
  shows "let parts = split_csv_with_positions t base; r = parse_row_with_error s t base; n = length (columns s);
      parsed = (\<lambda>i. parse_value_with_error (columns s ! i) (tp_text (parts ! i)) (tp_position (parts ! i))) in
    case vp_error r of
      None \<Rightarrow> length parts = n \<and> (\<exists>row. r = row_result row \<and> length row = n \<and> (\<forall>i<n. vp_value (parsed i) = Some (row ! i)))
    | Some e \<Rightarrow> vp_row r = None \<and> base \<le> vpe_position e \<and> substr t (vpe_position e - base) (length (vpe_token e)) = vpe_token e \<and>
        (if length parts \<noteq> n then vpe_token e = t
         else \<exists>i<n. vp_error (parsed i) = Some e \<and> vpe_token e = tp_text (parts ! i) \<and> (\<forall>j<i. vp_error (parsed j) = None))"
proof -
  let ?parts = "split_csv_with_positions t base" and ?r = "parse_row_with_error s t base" and ?n = "length (columns s)"
  note spec = parse_row_spec [OF assms, of t base, unfolded Let_def]
  note err = parse_at_error [OF _ _ split_parts]
  consider m where "length ?parts \<noteq> ?n" "?r = value_error m t base"
    | row where "length ?parts = ?n" "?r = row_result row" "length row = ?n" "\<forall>i<?n. vp_value (parse_at s ?parts i) = Some (row ! i)"
    | j e where "length ?parts = ?n" "j < ?n" "vp_error (parse_at s ?parts j) = Some e" "\<forall>k<j. vp_error (parse_at s ?parts k) = None" "?r = parse_at s ?parts j"
    using spec by (auto split: if_splits)
  then show ?thesis
  proof cases
    case 1
    then show ?thesis by (simp add: Let_def substr_def)
  next
    case 2
    then show ?thesis by (auto simp: Let_def parse_at_def intro: exI [of _ row])
  next
    case 3
    then show ?thesis using err [of j t base s e] parse_value_row unfolding Let_def parse_at_def [symmetric]
      by (auto simp: parse_at_def)
  qed
qed

theorem parse_row_reports_first_error_witness:
  "\<exists>e. vp_error (parse_row_with_error sample_schema '' 7 , ada'' 20) = Some e \<and> vpe_token e = ''ada'' \<and> vpe_position e = 25 \<and>
     substr '' 7 , ada'' 5 3 = ''ada''"
proof -
  have v: "schema_is_valid sample_schema" by code_simp
  obtain e where e: "vp_error (parse_row_with_error sample_schema '' 7 , ada'' 20) = Some e" "vpe_token e = ''ada''" "vpe_position e = 25"
  proof -
    have "map_option (\<lambda>e. (vpe_token e, vpe_position e)) (vp_error (parse_row_with_error sample_schema '' 7 , ada'' 20)) = Some (''ada'', 25)" by code_simp
    then show thesis using that by auto
  qed
  show ?thesis using parse_row_reports_first_error [OF v, of "'' 7 , ada''" 20] e by (auto simp: Let_def numeral_3_eq_3)
qed

text \<open>
  C36. \<^verbatim>\<open>parse_number\<close> accepts exactly the texts of an optional minus sign, digits, and optionally a point and at most
  \<^verbatim>\<open>scale\<close> digits, whose whole part is below \<open>10 ^ (precision - scale)\<close>. The value is the number in units of
  \<open>10 ^ - scale\<close>, computed without overflow, and below \<open>10 ^ precision\<close>.\<close>

theorem number_text_exact:
  assumes "scale \<le> precision" "precision \<le> MAX_NUMBER_PRECISION"
  shows "parse_number_value t precision scale = Some x \<longleftrightarrow>
    (\<exists>negative whole fraction. number_text negative whole fraction t \<and> length fraction \<le> unat scale \<and>
       read_digits 0 whole < 10 ^ (unat precision - unat scale) \<and>
       sint x = (if negative then -1 else 1) * int (read_digits 0 (whole @ fraction) * 10 ^ (unat scale - length fraction)) \<and>
       \<bar>sint x\<bar> < 10 ^ unat precision)"
  unfolding parse_number_value_exact [OF assms] number_int_def by (rule refl)

theorem number_text_exact_witness:
  "parse_number_value ''-12.5'' 6 2 = Some (-1250) \<and> parse_number_value ''12345.5'' 6 2 = None"
proof -
  have a: "(2 :: u8) \<le> 6" "(6 :: u8) \<le> MAX_NUMBER_PRECISION" by code_simp+
  have t: "number_text True ''12'' ''5'' ''-12.5''" by code_simp
  have s: "sint (-1250 :: 64 word) = (if True then -1 else 1) * int (read_digits 0 (''12'' @ ''5'') * 10 ^ (unat (2 :: u8) - length ''5''))" by code_simp
  have "read_digits 0 ''12'' < 10 ^ (unat (6 :: u8) - unat (2 :: u8))" "\<bar>sint (-1250 :: 64 word)\<bar> < 10 ^ unat (6 :: u8)" "length ''5'' \<le> unat (2 :: u8)" by code_simp+
  then have "parse_number_value ''-12.5'' 6 2 = Some (-1250)" using t s number_text_exact [OF a, of "''-12.5''" "-1250"] by blast
  moreover have "parse_number_value ''12345.5'' 6 2 = None" by code_simp
  ultimately show ?thesis by blast
qed



end
