(* ===== verification/Query_Syntax.thy ===== *)
theory Query_Syntax
  imports Value_Parser
begin

text \<open>
  The syntax of queries, from \<^verbatim>\<open>src/include/query/query_parser.hpp\<close>, and the tokens of a command, from the first part of
  \<^verbatim>\<open>src/src/query/query_parser.cpp\<close>. A \<^verbatim>\<open>ParsedQuery\<close> owns other queries, conditions and joins through pointers: the fields
  that are no pointers form the record \<open>query_fields\<close>, the pointers are optional arguments of the constructors of mutually
  recursive datatypes, and copying is sharing. \<open>tokenize\<close> returns the tokens read and the error that stopped it, if any.

  The lemmas show that the tokens are the command without its white space: each stands in the command at its position, they
  follow each other, and between them is only white space.
\<close>

section \<open>Queries\<close>

datatype QueryType =
    q_exit | q_help | q_show_databases | q_show_tables | q_show_indexes | q_create_database | q_use_database
  | q_create_table | q_create_index | q_drop_database | q_drop_table | q_drop_index | q_alter_table | q_describe_table
  | q_insert_row | q_select_all | q_delete_row | q_update_row | q_begin_transaction | q_commit_transaction
  | q_rollback_transaction | q_unknown

datatype QueryCompoundOperator = union_op | intersect_op

datatype QuerySetQuantifier = quant_some | quant_all

datatype QueryOperator = op_equal | op_not_equal | op_greater | op_less | op_greater_equal | op_less_equal

datatype QueryJoinType = join_cross | join_inner | join_left | join_right | join_natural

datatype QueryAggregateFunction = agg_none | agg_max | agg_min | agg_avg | agg_sum | agg_count

datatype QueryScalarFunction = fun_none | fun_length | fun_upper | fun_lower

record SelectedColumn =
  sc_table_alias :: string
  sc_column_name :: string
  sc_alias :: string
  sc_aggregate :: QueryAggregateFunction
  sc_scalar_function :: QueryScalarFunction
  sc_position :: nat

record OrderByColumn =
  ob_column :: SelectedColumn
  ob_descending :: bool

datatype QueryExpressionType = ex_column_reference | ex_aggregate | ex_literal | ex_scalar_subquery

datatype QueryConditionNodeType =
  cn_comparison | cn_in_subquery | cn_any_subquery | cn_all_subquery | cn_exists_subquery | cn_not_node | cn_and_node | cn_or_node

record query_fields =
  qf_type :: QueryType
  qf_database_name :: string
  qf_table_name :: string
  qf_table_alias :: string
  qf_columns :: "Column list"
  qf_constraints :: "ConstraintDefinition list"
  qf_storage_mode :: TableStorageMode
  qf_index_name :: string
  qf_index_column :: string
  qf_unique_index :: bool
  qf_if_not_exists :: bool
  qf_drop_constraint_id :: "u64 option"
  qf_insert_columns :: "string list"
  qf_values_text :: string
  qf_insert_value_rows :: "string list"
  qf_update_assignments :: "(string \<times> string) list"
  qf_select_all :: bool
  qf_selected_columns :: "SelectedColumn list"
  qf_group_by_columns :: "SelectedColumn list"
  qf_order_by_columns :: "OrderByColumn list"
  qf_compound_operator :: "QueryCompoundOperator option"
  qf_compound_quantifier :: QuerySetQuantifier
  qf_limit_count :: "u64 option"

datatype ParsedQuery =
    ParsedQuery (q_fields: query_fields) (q_derived_table: "ParsedQuery option") (q_insert_select: "ParsedQuery option")
      (q_condition: "QueryConditionNode option") (q_having_condition: "QueryConditionNode option") (q_join: "QueryJoin option")
      (q_common_table_expressions: "QueryCommonTableExpression list") (q_compound_query: "ParsedQuery option")
and QueryCommonTableExpression =
    QueryCommonTableExpression (cte_name: string) (cte_query: "ParsedQuery option")
and QueryExpression =
    QueryExpression (e_type: QueryExpressionType) (e_table_alias: string) (e_column_name: string) (e_aggregate: QueryAggregateFunction)
      (e_literal_text: string) (e_subquery: "ParsedQuery option") (e_position: nat)
and QueryCondition =
    QueryCondition (c_left_expression: QueryExpression) (c_op: QueryOperator) (c_right_expression: QueryExpression)
      (c_right_values: "string list") (c_exists_result: bool)
and QueryConditionNode =
    QueryConditionNode (n_type: QueryConditionNodeType) (n_condition: QueryCondition) (n_left: "QueryConditionNode option")
      (n_right: "QueryConditionNode option")
and QueryJoin =
    QueryJoin (j_type: QueryJoinType) (j_table_name: string) (j_table_alias: string) (j_condition: "QueryConditionNode option")
      (j_next_join: "QueryJoin option")

text \<open>The default member initialisers.\<close>

definition selected_default :: SelectedColumn where
  "selected_default = \<lparr>sc_table_alias = '''', sc_column_name = '''', sc_alias = '''', sc_aggregate = agg_none,
     sc_scalar_function = fun_none, sc_position = 0\<rparr>"

definition expression_default :: QueryExpression where
  "expression_default = QueryExpression ex_literal '''' '''' agg_none '''' None 0"

definition condition_default :: QueryCondition where
  "condition_default = QueryCondition expression_default op_equal expression_default [] False"

definition fields_default :: query_fields where
  "fields_default = \<lparr>qf_type = q_unknown, qf_database_name = '''', qf_table_name = '''', qf_table_alias = '''', qf_columns = [],
     qf_constraints = [], qf_storage_mode = disk_storage, qf_index_name = '''', qf_index_column = '''', qf_unique_index = False,
     qf_if_not_exists = False, qf_drop_constraint_id = None, qf_insert_columns = [], qf_values_text = '''',
     qf_insert_value_rows = [], qf_update_assignments = [], qf_select_all = True, qf_selected_columns = [],
     qf_group_by_columns = [], qf_order_by_columns = [], qf_compound_operator = None, qf_compound_quantifier = quant_some,
     qf_limit_count = None\<rparr>"

definition plain_query :: "query_fields \<Rightarrow> ParsedQuery" where
  "plain_query f = ParsedQuery f None None None None None [] None"

section \<open>Tokens\<close>

datatype TokenType =
  tok_word | tok_number | tok_string | tok_left_paren | tok_right_paren | tok_comma | tok_dot | tok_star | tok_op

record Token =
  tk_type :: TokenType
  tk_text :: string
  tk_position :: nat

record ParseError =
  pe_message :: string
  pe_token :: string
  pe_position :: nat

definition is_identifier_start :: "char \<Rightarrow> bool" where
  "is_identifier_start ch \<longleftrightarrow> islower ch \<or> ch = CHR ''_''"

definition is_identifier_body :: "char \<Rightarrow> bool" where
  "is_identifier_body ch \<longleftrightarrow> islower ch \<or> isdigit ch \<or> ch = CHR ''_''"

definition is_identifier :: "string \<Rightarrow> bool" where
  "is_identifier s = (case s of [] \<Rightarrow> False | c # _ \<Rightarrow> if \<not> is_identifier_start c then False else list_all is_identifier_body s)"

definition is_lowercase_keyword :: "string \<Rightarrow> bool" where
  "is_lowercase_keyword s \<longleftrightarrow> s \<in> set [
     ''exit'', ''quit'', ''help'', ''show'', ''databases'', ''tables'', ''create'', ''database'', ''table'',
     ''use'', ''describe'', ''desc'', ''insert'', ''into'', ''values'', ''select'', ''from'', ''delete'',
     ''where'', ''and'', ''or'', ''group'', ''by'', ''having'', ''order'', ''asc'', ''desc'', ''limit'',
     ''with'', ''update'', ''set'', ''null'', ''not'', ''in'', ''exists'',
     ''union'', ''intersect'', ''all'', ''some'', ''as'', ''join'', ''left'', ''right'', ''natural'', ''on'',
     ''max'', ''min'', ''avg'', ''sum'', ''count'']"

text \<open>
  \<^verbatim>\<open>std::stoul(text, &used)\<close> and \<^verbatim>\<open>std::stoull(text, &used)\<close>, which are the same on the 64-bit target: the value, modulo
  \<open>2 ^ 64\<close> after a minus sign, and the number of characters read.
\<close>

definition stoull_used :: "string \<Rightarrow> exn + (u64 \<times> nat)" where
  "stoull_used s =
     (let spaces = leading_spaces s; rest = drop spaces s;
          signed = rest \<noteq> [] \<and> (hd rest = CHR ''-'' \<or> hd rest = CHR ''+'');
          ds = takeWhile isdigit (if signed then tl rest else rest)
      in if ds = [] then Inl (Invalid_argument ''stoull'')
         else if read_digits 0 ds \<ge> 2 ^ 64 then Inl (Out_of_range ''stoull'')
         else Inr (if signed \<and> hd rest = CHR ''-'' then - of_nat (read_digits 0 ds) else of_nat (read_digits 0 ds),
                   spaces + (if signed then 1 else 0) + length ds))"

definition parse_uint16 :: "string \<Rightarrow> u16 option" where
  "parse_uint16 s =
     (case stoull_used s of
        Inl _ \<Rightarrow> None
      | Inr (parsed, used) \<Rightarrow> if used \<noteq> length s \<or> parsed > 65535 then None else Some (ucast parsed))"

definition parse_uint8 :: "string \<Rightarrow> u8 option" where
  "parse_uint8 s = (case parse_uint16 s of None \<Rightarrow> None | Some parsed \<Rightarrow> if parsed > 255 then None else Some (ucast parsed))"

text \<open>The loop over the characters of a number after the first one: how many belong to it.\<close>

fun number_end :: "bool \<Rightarrow> string \<Rightarrow> nat" where
  "number_end seen_dot [] = 0"
| "number_end seen_dot (c # cs) =
     (if isdigit c then Suc (number_end seen_dot cs)
      else if c = CHR ''.'' \<and> \<not> seen_dot \<and> cs \<noteq> [] \<and> isdigit (hd cs) then Suc (number_end True cs)
      else if c = CHR ''-'' \<and> cs \<noteq> [] \<and> isdigit (hd cs) then Suc (number_end seen_dot cs)
      else 0)"

definition word_char :: "char \<Rightarrow> bool" where
  "word_char c \<longleftrightarrow> \<not> isspace c \<and> c \<notin> set ''().,*=!><''"

text \<open>The token at the start of the rest of the command; parentheses are counted by the loop.\<close>

definition next_token :: "nat \<Rightarrow> string \<Rightarrow> ParseError + Token" where
  "next_token i s =
     (let ch = hd s; token = (\<lambda>ty n. \<lparr>tk_type = ty, tk_text = take n s, tk_position = i\<rparr>) in
      if ch = CHR ''.'' then Inr (token tok_dot 1)
      else if ch = CHR ''('' then Inr (token tok_left_paren 1)
      else if ch = CHR '')'' then Inr (token tok_right_paren 1)
      else if ch = CHR '','' then Inr (token tok_comma 1)
      else if ch = CHR ''*'' then Inr (token tok_star 1)
      else if ch = CHR 0x27 \<or> ch = CHR 0x22 then
        let n = length (takeWhile (\<lambda>c. c \<noteq> ch) (tl s)) in
        if Suc n = length s then Inl \<lparr>pe_message = ''unterminated string literal'', pe_token = [ch], pe_position = i\<rparr>
        else Inr (token tok_string (n + 2))
      else if ch \<in> set ''=!><'' then
        if length s > 1 \<and> s ! 1 = CHR ''='' then Inr (token tok_op 2)
        else if ch = CHR ''!'' then Inl \<lparr>pe_message = ''expected !='', pe_token = ''!'', pe_position = i\<rparr>
        else Inr (token tok_op 1)
      else if isdigit ch \<or> (ch = CHR ''-'' \<and> length s > 1 \<and> isdigit (s ! 1)) then Inr (token tok_number (Suc (number_end False (tl s))))
      else Inr (token tok_word (length (takeWhile word_char s))))"

lemma if_InrE: "(if b then x else y) = Inr t \<Longrightarrow> (b \<Longrightarrow> x = Inr t \<Longrightarrow> P) \<Longrightarrow> (\<not> b \<Longrightarrow> y = Inr t \<Longrightarrow> P) \<Longrightarrow> P"
  by (simp split: if_splits)

lemma next_token_take:
  assumes "next_token i s = Inr t" "s \<noteq> []" "\<not> isspace (hd s)"
  shows "\<exists>ty n. n > 0 \<and> t = \<lparr>tk_type = ty, tk_text = take n s, tk_position = i\<rparr>"
proof -
  have leaf: "Inr \<lparr>tk_type = ty, tk_text = take n s, tk_position = i\<rparr> = Inr t \<Longrightarrow> n > 0 \<Longrightarrow> ?thesis" for ty n by blast
  have w: "0 < length (takeWhile word_char s)" if "hd s \<notin> set ''().,*=!><''"
    using assms(2,3) that by (cases s) (auto simp: word_char_def)
  show ?thesis
    using assms(1) unfolding next_token_def Let_def
    by (elim if_InrE) (erule leaf, rule w, simp | erule leaf, simp | simp)+
qed

lemma next_token_result:
  assumes "next_token i s = Inr t" "s \<noteq> []" "\<not> isspace (hd s)"
  shows "tk_text t \<noteq> []" "tk_position t = i" "tk_text t = take (length (tk_text t)) s" "length (tk_text t) \<le> length s"
proof -
  obtain ty n where "n > 0" "t = \<lparr>tk_type = ty, tk_text = take n s, tk_position = i\<rparr>" using next_token_take [OF assms] by blast
  then show "tk_text t \<noteq> []" "tk_position t = i" "tk_text t = take (length (tk_text t)) s" "length (tk_text t) \<le> length s"
    using assms(2) by (simp_all add: min_def)
qed

text \<open>The loop of \<^verbatim>\<open>tokenize\<close>, with the position and the rest of the command, the positions of open parentheses and the tokens so far.\<close>

function token_loop :: "nat \<Rightarrow> string \<Rightarrow> nat list \<Rightarrow> Token list \<Rightarrow> Token list \<times> ParseError option" where
  "token_loop i s parens tokens =
     (let i = i + leading_spaces s; s = dropWhile isspace s in
      if s = [] then
        (tokens, if parens \<noteq> [] then Some \<lparr>pe_message = ''missing closing parenthesis'', pe_token = ''('', pe_position = last parens\<rparr> else None)
      else if hd s = CHR '')'' \<and> parens = [] then
        (tokens, Some \<lparr>pe_message = ''unexpected closing parenthesis'', pe_token = '')'', pe_position = i\<rparr>)
      else case next_token i s of
        Inl e \<Rightarrow> (tokens, Some e)
      | Inr t \<Rightarrow>
          token_loop (i + length (tk_text t)) (drop (length (tk_text t)) s)
            (if tk_type t = tok_left_paren then parens @ [i] else if tk_type t = tok_right_paren then butlast parens else parens)
            (tokens @ [t]))"
  by pat_completeness auto
termination
proof (relation "measure (\<lambda>(i, s, parens, tokens). length s)", goal_cases)
  case (2 i s parens tokens i' s' t)
  then have "s' \<noteq> []" "tk_text t \<noteq> []" "length s' \<le> length s"
    using next_token_result(1) [of i' s' t] hd_dropWhile [of isspace s] length_dropWhile_le [of isspace s] by auto
  then show ?case by (simp add: diff_less_mono2) (metis diff_less length_greater_0_conv less_le_trans)
qed simp

declare token_loop.simps [simp del]

definition tokenize :: "string \<Rightarrow> Token list \<times> ParseError option" where
  "tokenize command = token_loop 0 command [] []"

section \<open>Tokens and the command\<close>

text \<open>The tokens are the text from position \<open>i\<close> on, without the white space between them.\<close>

fun tiled :: "nat \<Rightarrow> string \<Rightarrow> Token list \<Rightarrow> bool" where
  "tiled i s [] \<longleftrightarrow> list_all isspace s"
| "tiled i s (t # ts) \<longleftrightarrow>
     (let w = leading_spaces s; r = dropWhile isspace s; n = length (tk_text t) in
      tk_position t = i + w \<and> 0 < n \<and> take n r = tk_text t \<and> tiled (i + w + n) (drop n r) ts)"

fun balanced :: "nat \<Rightarrow> Token list \<Rightarrow> bool" where
  "balanced d [] \<longleftrightarrow> d = 0"
| "balanced d (t # ts) \<longleftrightarrow>
     (if tk_type t = tok_left_paren then balanced (Suc d) ts
      else if tk_type t = tok_right_paren then 0 < d \<and> balanced (d - 1) ts
      else balanced d ts)"

definition paren_text :: "Token \<Rightarrow> bool" where
  "paren_text t \<longleftrightarrow> (tk_type t = tok_left_paren \<longrightarrow> tk_text t = ''('') \<and> (tk_type t = tok_right_paren \<longrightarrow> tk_text t = '')'')"

lemma next_token_paren:
  assumes "next_token i s = Inr t" "s \<noteq> []"
  shows "paren_text t" "tk_type t = tok_right_paren \<longleftrightarrow> hd s = CHR '')''"
proof -
  obtain c cs where s: "s = c # cs" using assms(2) by (cases s) auto
  have leaf: "Inr \<lparr>tk_type = ty, tk_text = x, tk_position = i\<rparr> = Inr t \<Longrightarrow>
      (ty = tok_left_paren \<longrightarrow> x = ''('') \<and> (ty = tok_right_paren \<longrightarrow> x = '')'') \<and> (ty = tok_right_paren \<longleftrightarrow> c = CHR '')'') \<Longrightarrow>
      paren_text t \<and> (tk_type t = tok_right_paren \<longleftrightarrow> hd s = CHR '')'')" for ty x
    by (auto simp: paren_text_def s)
  have "paren_text t \<and> (tk_type t = tok_right_paren \<longleftrightarrow> hd s = CHR '')'')"
    using assms(1) unfolding next_token_def Let_def by (elim if_InrE) (erule leaf, simp add: s | simp)+
  then show "paren_text t" "tk_type t = tok_right_paren \<longleftrightarrow> hd s = CHR '')''" by simp_all
qed

lemma token_loop_rules:
  assumes "j = i + leading_spaces s" "r = dropWhile isspace s"
  shows "r = [] \<Longrightarrow> token_loop i s parens toks =
      (toks, if parens \<noteq> [] then Some \<lparr>pe_message = ''missing closing parenthesis'', pe_token = ''('', pe_position = last parens\<rparr> else None)"
    "r \<noteq> [] \<Longrightarrow> hd r = CHR '')'' \<and> parens = [] \<Longrightarrow> token_loop i s parens toks =
      (toks, Some \<lparr>pe_message = ''unexpected closing parenthesis'', pe_token = '')'', pe_position = j\<rparr>)"
    "r \<noteq> [] \<Longrightarrow> \<not> (hd r = CHR '')'' \<and> parens = []) \<Longrightarrow> next_token j r = Inl e \<Longrightarrow> token_loop i s parens toks = (toks, Some e)"
    "r \<noteq> [] \<Longrightarrow> \<not> (hd r = CHR '')'' \<and> parens = []) \<Longrightarrow> next_token j r = Inr t \<Longrightarrow> token_loop i s parens toks =
      token_loop (j + length (tk_text t)) (drop (length (tk_text t)) r)
        (if tk_type t = tok_left_paren then parens @ [j] else if tk_type t = tok_right_paren then butlast parens else parens) (toks @ [t])"
  unfolding token_loop.simps [of i s parens toks] Let_def assms [symmetric] by auto

lemma token_loop_tiled:
  assumes "token_loop i s parens toks = (toks', None)"
  shows "\<exists>ts. toks' = toks @ ts \<and> tiled i s ts \<and> balanced (length parens) ts \<and> list_all paren_text ts"
  using assms
proof (induction i s parens toks arbitrary: toks' rule: token_loop.induct)
  case (1 i s parens toks)
  let ?i = "i + leading_spaces s" and ?s = "dropWhile isspace s"
  note unf = token_loop_rules [where parens = parens and toks = toks, OF refl refl]
  show ?case
  proof (cases "?s = []")
    case True
    then have "toks' = toks" "parens = []" using "1.prems" unf(1) [OF True] by (auto split: if_splits)
    then show ?thesis using True by (simp add: list_all_iff)
  next
    case ne: False
    have nr: "\<not> (hd ?s = CHR '')'' \<and> parens = [])" using "1.prems" unf(2) [OF ne] by auto
    then obtain t where t: "next_token ?i ?s = Inr t" using "1.prems" unf(3) [OF ne nr] by (cases "next_token ?i ?s") auto
    let ?n = "length (tk_text t)"
    let ?parens = "if tk_type t = tok_left_paren then parens @ [?i] else if tk_type t = tok_right_paren then butlast parens else parens"
    have run: "token_loop (?i + ?n) (drop ?n ?s) ?parens (toks @ [t]) = (toks', None)" using "1.prems" unf(4) [OF ne nr t] by simp
    from "1.IH" [OF refl refl ne nr t run] obtain ts where
      ts: "toks' = (toks @ [t]) @ ts" "tiled (?i + ?n) (drop ?n ?s) ts" "balanced (length ?parens) ts" "list_all paren_text ts" by blast
    note r = next_token_result [OF t ne hd_dropWhile [OF ne]] and q = next_token_paren [OF t ne]
    have "tiled i s (t # ts)" using ts(2) r by (simp add: Let_def)
    moreover have "balanced (length parens) (t # ts)"
    proof (cases "tk_type t = tok_right_paren")
      case True
      then have "parens \<noteq> []" using nr q(2) by simp
      then show ?thesis using ts(3) True by simp
    qed (use ts(3) in \<open>auto split: if_splits\<close>)
    ultimately show ?thesis using ts(1,4) q(1) by (intro exI [of _ "t # ts"]) simp
  qed
qed

text \<open>Errors that name a part of the command: their token stands at their position.\<close>

definition located :: "string \<Rightarrow> ParseError \<Rightarrow> bool" where
  "located command e \<longleftrightarrow> pe_position e \<le> length command \<and> substr command (pe_position e) (length (pe_token e)) = pe_token e"

lemma next_token_error:
  assumes "next_token i s = Inl e" "s \<noteq> []"
  shows "pe_position e = i" "pe_token e = [hd s]"
proof -
  have "pe_position e = i \<and> pe_token e = [hd s]"
    using assms unfolding next_token_def Let_def by (auto split: if_splits)
  then show "pe_position e = i" "pe_token e = [hd s]" by simp_all
qed

lemma located_char: "command = pre @ c # post \<Longrightarrow> pe_position e = length pre \<Longrightarrow> pe_token e = [c] \<Longrightarrow> located command e"
  by (simp add: located_def substr_def)

lemma token_loop_error:
  assumes "token_loop i s parens toks = (toks', Some e)" "command = pre @ s" "i = length pre"
    "\<forall>k\<in>set parens. k < length command \<and> command ! k = CHR ''(''"
  shows "located command e"
  using assms
proof (induction i s parens toks arbitrary: toks' pre rule: token_loop.induct)
  case (1 i s parens toks)
  let ?w = "takeWhile isspace s" and ?s = "dropWhile isspace s"
  have i: "i + leading_spaces s = length (pre @ ?w)" and cmd: "command = (pre @ ?w) @ ?s"
    using "1.prems" by (simp_all add: leading_spaces_def)
  note unf = token_loop_rules [where parens = parens and toks = toks, OF i [symmetric] refl]
  show ?case
  proof (cases "?s = []")
    case True
    then have p: "parens \<noteq> []" "pe_token e = ''(''" "pe_position e = last parens" using "1.prems"(1) unf(1) [OF True] by (auto split: if_splits)
    then have "last parens < length command" "command ! last parens = CHR ''(''" using "1.prems"(4) by (simp_all add: last_in_set)
    then show ?thesis using p located_char [OF id_take_nth_drop [of "last parens" command], of e] by simp
  next
    case ne: False
    then obtain c cs where c: "?s = c # cs" by (cases ?s) auto
    show ?thesis
    proof (cases "hd ?s = CHR '')'' \<and> parens = []")
      case True
      then have "pe_position e = length (pre @ ?w)" "pe_token e = [c]" using "1.prems"(1) unf(2) [OF ne True] c True by auto
      then show ?thesis using located_char [of command "pre @ ?w" c cs e] cmd c by simp
    next
      case nr: False
      show ?thesis
      proof (cases "next_token (length (pre @ ?w)) ?s")
        case (Inl e')
        then have "e' = e" using "1.prems"(1) unf(3) [OF ne nr Inl] by simp
        then have "pe_position e = length (pre @ ?w)" "pe_token e = [c]" using next_token_error [OF Inl ne] c by simp_all
        then show ?thesis using located_char [of command "pre @ ?w" c cs e] cmd c by simp
      next
        case (Inr t)
        let ?n = "length (tk_text t)"
        let ?parens = "if tk_type t = tok_left_paren then parens @ [length (pre @ ?w)] else if tk_type t = tok_right_paren then butlast parens else parens"
        have run: "token_loop (length (pre @ ?w) + ?n) (drop ?n ?s) ?parens (toks @ [t]) = (toks', Some e)"
          using "1.prems"(1) unf(4) [OF ne nr Inr] by simp
        note r = next_token_result [OF Inr ne hd_dropWhile [OF ne]] and q = next_token_paren [OF Inr ne]
        have cmd2: "command = (pre @ ?w @ tk_text t) @ drop ?n ?s" using cmd r(3) by (metis append_assoc append_take_drop_id)
        have "c = CHR ''(''" if "tk_type t = tok_left_paren"
          using that q(1) r(1,3) c by (cases "tk_text t") (auto simp: paren_text_def)
        moreover have "length (pre @ ?w) < length command \<and> command ! length (pre @ ?w) = c" using cmd c by (metis append_is_Nil_conv length_append less_add_same_cancel1 length_greater_0_conv list.distinct(1) nth_append_length)
        moreover have "set ?parens \<subseteq> set parens \<union> (if tk_type t = tok_left_paren then {length (pre @ ?w)} else {})" by (auto dest: in_set_butlastD)
        ultimately have "\<forall>k\<in>set ?parens. k < length command \<and> command ! k = CHR ''(''"
          using "1.prems"(4) by (auto split: if_splits dest!: subsetD)
        from "1.IH" [OF i [symmetric] refl ne nr Inr run cmd2 _ this] show ?thesis by simp
      qed
    qed
  qed
qed

lemma tokenize_ok:
  assumes "tokenize command = (ts, None)"
  shows "tiled 0 command ts" "balanced 0 ts" "list_all paren_text ts"
  using token_loop_tiled [of 0 command "[]" "[]" ts] assms by (auto simp: tokenize_def)

lemma tokenize_error: "tokenize command = (ts, Some e) \<Longrightarrow> located command e"
  by (rule token_loop_error [of 0 command "[]" "[]" ts e command "[]"]) (simp_all add: tokenize_def)

text \<open>Every token stands in the command at its position.\<close>

lemma tiled_at:
  assumes "tiled i s ts" "command = pre @ s" "i = length pre" "t \<in> set ts"
  shows "tk_position t < length command" "substr command (tk_position t) (length (tk_text t)) = tk_text t"
proof -
  have "tk_position t < length command \<and> substr command (tk_position t) (length (tk_text t)) = tk_text t"
    using assms
  proof (induction i s ts arbitrary: pre rule: tiled.induct)
    case (2 i s u us)
    let ?w = "takeWhile isspace s" and ?r = "dropWhile isspace s" and ?n = "length (tk_text u)"
    have u: "tk_position u = length (pre @ ?w)" "0 < ?n" "take ?n ?r = tk_text u" "tiled (i + leading_spaces s + ?n) (drop ?n ?r) us"
      using "2.prems" by (simp_all add: Let_def leading_spaces_def)
    have cmd: "command = (pre @ ?w) @ ?r" using "2.prems"(2) by simp
    then have cmd2: "command = (pre @ ?w @ tk_text u) @ drop ?n ?r" using u(3) by (metis append_assoc append_take_drop_id)
    show ?case
    proof (cases "t = u")
      case True
      have "?r \<noteq> []" using u(2,3) by (metis length_greater_0_conv take_Nil)
      moreover have "drop (length (pre @ ?w)) command = ?r" using cmd by (metis append_eq_conv_conj)
      ultimately have "length (pre @ ?w) < length command" by (metis drop_eq_Nil not_le)
      then show ?thesis using True u(1,3) \<open>drop (length (pre @ ?w)) command = ?r\<close> by (simp add: substr_def)
    next
      case False
      then show ?thesis using "2.prems" u(4) cmd2 by (intro "2.IH" [OF refl refl refl _ cmd2]) (simp_all add: leading_spaces_def)
    qed
  qed simp
  then show "tk_position t < length command" "substr command (tk_position t) (length (tk_text t)) = tk_text t" by simp_all
qed

end
