(* ===== verification/Query_Parser.thy ===== *)
theory Query_Parser
  imports Query_Syntax
begin

text \<open>
  The parser of queries, from the class \<^verbatim>\<open>Parser\<close> of \<^verbatim>\<open>src/src/query/query_parser.cpp\<close>. The object holds the command, its tokens and
  the index of the next token. A function of the class takes the index and returns what it reads with the new index, or the
  reason it stops: a parse error, an exception of the standard library or of \<^verbatim>\<open>Column\<close>, or a read past the last token.
  Functions that fill a reference argument return its value.

  A subquery is parsed by a call of \<^verbatim>\<open>QueryParser::parse_with_error\<close> on its text; this call is an argument, and
  \<open>parse_with_error\<close> ties the knot with fuel for the depth of the nesting. The loops and the recursion through
  parentheses and \<^verbatim>\<open>NOT\<close> in conditions carry fuel too; the definitions fix it to a multiple of the number of tokens.
\<close>

section \<open>The parser object\<close>

record parser =
  p_command :: string
  p_tokens :: "Token list"

datatype stop = Failed ParseError | Thrown exn | Past_end | No_fuel

type_synonym 'a parse = "nat \<Rightarrow> stop + 'a \<times> nat"
type_synonym subparser = "string \<Rightarrow> stop + ParsedQuery"

definition return_p :: "'a \<Rightarrow> 'a parse" where
  "return_p x i = Inr (x, i)"

definition bind_p :: "'a parse \<Rightarrow> ('a \<Rightarrow> 'b parse) \<Rightarrow> 'b parse" where
  "bind_p m f i =
     (case m i of Inl e \<Rightarrow> Inl e | Inr (x, j) \<Rightarrow> f x j)"

definition fail_p :: "string \<Rightarrow> string \<Rightarrow> nat \<Rightarrow> 'a parse" where
  "fail_p message token position i = Inl (Failed \<lparr>pe_message = message, pe_token = token, pe_position = position\<rparr>)"

definition throw_p :: "exn + 'a \<Rightarrow> 'a parse" where
  "throw_p r i =
     (case r of Inl e \<Rightarrow> Inl (Thrown e) | Inr x \<Rightarrow> Inr (x, i))"

text \<open>\<^verbatim>\<open>if (match(text)) A else B\<close> and \<^verbatim>\<open>if (match_type(type)) A else B\<close>.\<close>

definition if_match :: "parser \<Rightarrow> string \<Rightarrow> 'a parse \<Rightarrow> 'a parse \<Rightarrow> 'a parse" where
  "if_match p s A B i =
     (if i < length (p_tokens p) \<and> tk_text (p_tokens p ! i) = s then A (Suc i) else B i)"

definition if_type :: "parser \<Rightarrow> TokenType \<Rightarrow> 'a parse \<Rightarrow> 'a parse \<Rightarrow> 'a parse" where
  "if_type p ty A B i =
     (if i < length (p_tokens p) \<and> tk_type (p_tokens p ! i) = ty then A (Suc i) else B i)"

definition if_end :: "parser \<Rightarrow> 'a parse \<Rightarrow> 'a parse \<Rightarrow> 'a parse" where
  "if_end p A B i =
     (if i \<ge> length (p_tokens p) then A i else B i)"

text \<open>The next token, which is consumed: \<^verbatim>\<open>tokens_[index_++]\<close>; and the position of the next and of the previous token.\<close>

definition next_p :: "parser \<Rightarrow> Token parse" where
  "next_p p i =
     (if i < length (p_tokens p) then Inr (p_tokens p ! i, Suc i) else Inl Past_end)"

definition peek_position :: "parser \<Rightarrow> nat parse" where
  "peek_position p i = Inr (if i \<ge> length (p_tokens p) then length (p_command p) else tk_position (p_tokens p ! i), i)"

definition previous_position :: "parser \<Rightarrow> nat \<Rightarrow> nat parse" where
  "previous_position p position i = Inr (if i = 0 then position else tk_position (p_tokens p ! (i - 1)), i)"

definition expected :: "parser \<Rightarrow> string \<Rightarrow> 'a parse" where
  "expected p s i =
     (if i \<ge> length (p_tokens p) then fail_p (''expected '' @ s) '''' (length (p_command p)) i
     else fail_p (''expected '' @ s) (tk_text (p_tokens p ! i)) (tk_position (p_tokens p ! i)) i)"

text \<open>\<^verbatim>\<open>if (!match(text)) return expected(text)\<close>, and the same for a type of token.\<close>

definition require :: "parser \<Rightarrow> string \<Rightarrow> 'a parse \<Rightarrow> 'a parse" where
  "require p s A i = if_match p s A (expected p s) i"

definition require_type :: "parser \<Rightarrow> TokenType \<Rightarrow> string \<Rightarrow> 'a parse \<Rightarrow> 'a parse" where
  "require_type p ty s A i = if_type p ty A (expected p s) i"

definition lowercase_keyword :: "Token \<Rightarrow> bool" where
  "lowercase_keyword t \<longleftrightarrow> tk_type t = tok_word \<and> is_lowercase_keyword (tk_text t)"

definition read_identifier :: "parser \<Rightarrow> string \<Rightarrow> string parse" where
  "read_identifier p label i =
     if_end p (fail_p (''expected '' @ label) '''' (length (p_command p)))
      (bind_p (next_p p) (\<lambda>t.
        if lowercase_keyword t then fail_p ''keyword must be uppercase'' (tk_text t) (tk_position t)
        else if \<not> is_identifier (tk_text t) then fail_p (label @ '' must be lowercase identifier'') (tk_text t) (tk_position t)
        else return_p (tk_text t))) i"

definition end_or_error :: "parser \<Rightarrow> ParsedQuery \<Rightarrow> ParsedQuery parse" where
  "end_or_error p query i =
     if_end p (return_p query) (bind_p (next_p p) (\<lambda>t. fail_p ''unexpected token'' (tk_text t) (tk_position t))) i"

definition tokens_fuel :: "parser \<Rightarrow> nat" where
  "tokens_fuel p = Suc (length (p_tokens p))"

section \<open>Statements without conditions\<close>

definition simple_query :: "parser \<Rightarrow> QueryType \<Rightarrow> ParsedQuery parse" where
  "simple_query p ty i = end_or_error p (plain_query (fields_default\<lparr>qf_type := ty\<rparr>)) i"

definition parse_show :: "parser \<Rightarrow> ParsedQuery parse" where
  "parse_show p i =
     if_match p ''DATABASES'' (simple_query p q_show_databases)
      (if_match p ''TABLES'' (simple_query p q_show_tables)
        (if_match p ''INDEXES''
          (require p ''FROM''
            (bind_p (read_identifier p ''table name'') (\<lambda>t.
              end_or_error p (plain_query (fields_default\<lparr>qf_type := q_show_indexes, qf_table_name := t\<rparr>)))))
          (expected p ''DATABASES, TABLES, or INDEXES''))) i"

definition parse_create_index :: "parser \<Rightarrow> bool \<Rightarrow> ParsedQuery parse" where
  "parse_create_index p uniq i =
     bind_p (read_identifier p ''index name'') (\<lambda>index_name.
     require p ''ON'' (bind_p (read_identifier p ''table name'') (\<lambda>t.
     require_type p tok_left_paren ''('' (bind_p (read_identifier p ''column name'') (\<lambda>column.
     require_type p tok_right_paren '')''
       (end_or_error p (plain_query (fields_default\<lparr>qf_type := q_create_index, qf_table_name := t, qf_index_name := index_name,
          qf_index_column := column, qf_unique_index := uniq\<rparr>)))))))) i"

definition parse_drop :: "parser \<Rightarrow> ParsedQuery parse" where
  "parse_drop p i =
     if_match p ''DATABASE''
      (bind_p (read_identifier p ''database name'') (\<lambda>d.
        end_or_error p (plain_query (fields_default\<lparr>qf_type := q_drop_database, qf_database_name := d\<rparr>))))
      (if_match p ''TABLE''
        (bind_p (read_identifier p ''table name'') (\<lambda>t.
          end_or_error p (plain_query (fields_default\<lparr>qf_type := q_drop_table, qf_table_name := t\<rparr>))))
        (if_match p ''INDEX''
          (bind_p (read_identifier p ''index name'') (\<lambda>index_name.
           require p ''ON'' (bind_p (read_identifier p ''table name'') (\<lambda>t.
             end_or_error p (plain_query (fields_default\<lparr>qf_type := q_drop_index, qf_table_name := t, qf_index_name := index_name\<rparr>))))))
          (expected p ''DATABASE, TABLE, or INDEX''))) i"

definition parse_use :: "parser \<Rightarrow> ParsedQuery parse" where
  "parse_use p i =
     bind_p (read_identifier p ''database name'') (\<lambda>d.
       end_or_error p (plain_query (fields_default\<lparr>qf_type := q_use_database, qf_database_name := d\<rparr>))) i"

definition parse_describe :: "parser \<Rightarrow> ParsedQuery parse" where
  "parse_describe p i =
     bind_p (read_identifier p ''table name'') (\<lambda>t.
       end_or_error p (plain_query (fields_default\<lparr>qf_type := q_describe_table, qf_table_name := t\<rparr>))) i"

text \<open>The loop over the names of a list; also the loop over the columns of an \<^verbatim>\<open>INSERT\<close>.\<close>

fun name_loop :: "nat \<Rightarrow> parser \<Rightarrow> string \<Rightarrow> string list \<Rightarrow> string list parse" where
  "name_loop 0 p label names i = Inl No_fuel"
| "name_loop (Suc n) p label names i =
     bind_p (read_identifier p label) (\<lambda>name.
       if_type p tok_comma (name_loop n p label (names @ [name])) (return_p (names @ [name]))) i"

definition read_column_list :: "parser \<Rightarrow> string \<Rightarrow> string list parse" where
  "read_column_list p label i =
     require_type p tok_left_paren ''('' (bind_p (name_loop (tokens_fuel p) p label []) (\<lambda>cols.
       require_type p tok_right_paren '')'' (return_p cols))) i"

text \<open>
  The loop over the tokens of a \<^verbatim>\<open>CHECK\<close> up to the first closing parenthesis: the texts that are kept and the number of tokens
  passed. A table constraint drops parentheses, a column constraint keeps opening ones.
\<close>

fun check_tokens :: "bool \<Rightarrow> Token list \<Rightarrow> string list \<times> nat" where
  "check_tokens keep_parens [] = ([], 0)"
| "check_tokens keep_parens (t # ts) =
     (if tk_type t = tok_right_paren then ([], 0)
      else case check_tokens keep_parens ts of (parts, n) \<Rightarrow>
        (if tk_type t \<in> {tok_word, tok_number, tok_string, tok_op, tok_star} \<or> keep_parens \<and> tk_type t = tok_left_paren
         then tk_text t # parts else parts, Suc n))"

definition check_parts :: "parser \<Rightarrow> bool \<Rightarrow> string list parse" where
  "check_parts p keep_parens i =
     require_type p tok_left_paren ''('' (bind_p
       (\<lambda>i. case check_tokens keep_parens (drop i (p_tokens p)) of (parts, n) \<Rightarrow> Inr (parts, i + n)) (\<lambda>parts.
       require_type p tok_right_paren '')'' (return_p parts))) i"

definition parse_table_constraint :: "parser \<Rightarrow> u64 \<Rightarrow> ConstraintDefinition parse" where
  "parse_table_constraint p cid i =
     if_match p ''PRIMARY''
      (require p ''KEY'' (bind_p (read_column_list p ''primary key column name'') (\<lambda>cols. return_p (make_primary_key cid cols))))
      (if_match p ''UNIQUE''
        (bind_p (read_column_list p ''unique column name'') (\<lambda>cols. return_p (make_unique cid cols)))
        (if_match p ''FOREIGN''
          (require p ''KEY'' (bind_p (read_column_list p ''foreign key column name'') (\<lambda>cols.
            if length cols \<noteq> 1 then
              bind_p (previous_position p (length (p_command p))) (\<lambda>position.
                fail_p ''foreign key requires one column'' (if cols = [] then '''' else hd cols) position)
            else
              require p ''REFERENCES'' (bind_p (read_identifier p ''referenced table name'') (\<lambda>ref_table.
                bind_p (read_column_list p ''referenced column name'') (\<lambda>ref_cols.
                  if length ref_cols \<noteq> 1 then
                    bind_p (previous_position p (length (p_command p))) (\<lambda>position.
                      fail_p ''foreign key reference requires one column'' (if ref_cols = [] then '''' else hd ref_cols) position)
                  else return_p (make_foreign_key cid [hd cols] ref_table (hd ref_cols))))))))
          (if_match p ''CHECK''
            (bind_p (check_parts p False) (\<lambda>parts. return_p (make_check cid parts)))
            (expected p ''constraint'')))) i"

definition parse_alter :: "parser \<Rightarrow> ParsedQuery parse" where
  "parse_alter p i =
     require p ''TABLE'' (bind_p (read_identifier p ''table name'') (\<lambda>t.
       if_match p ''ADD''
        (bind_p (parse_table_constraint p 1) (\<lambda>c.
          end_or_error p (plain_query (fields_default\<lparr>qf_type := q_alter_table, qf_table_name := t, qf_constraints := [c]\<rparr>))))
        (if_match p ''DROP''
          (require p ''CONSTRAINT''
            (\<lambda>i. if i \<ge> length (p_tokens p) \<or> tk_type (p_tokens p ! i) \<noteq> tok_number then expected p ''constraint id'' i
                 else bind_p (next_p p) (\<lambda>token. bind_p (throw_p (stoull (tk_text token))) (\<lambda>cid.
                   end_or_error p (plain_query (fields_default\<lparr>qf_type := q_alter_table, qf_table_name := t,
                     qf_drop_constraint_id := Some cid\<rparr>)))) i))
          (expected p ''ADD or DROP'')))) i"

section \<open>Tables\<close>

definition parse_storage_engine :: "parser \<Rightarrow> TableStorageMode parse" where
  "parse_storage_engine p i =
     if_match p ''ENGINE''
      (if_type p tok_op
        (\<lambda>i. if tk_text (p_tokens p ! (i - 1)) \<noteq> ''='' then expected p ''='' i
             else if_match p ''MEMORY'' (return_p memory_storage)
               (if_match p ''DISK'' (return_p disk_storage) (expected p ''MEMORY or DISK'')) i)
        (expected p ''=''))
      (return_p disk_storage) i"

definition parse_one_size :: "parser \<Rightarrow> string \<Rightarrow> Token \<Rightarrow> u16 parse" where
  "parse_one_size p type_name type_token i =
     if_type p tok_left_paren
      (if_end p (fail_p ''expected size'' '''' (length (p_command p)))
        (bind_p (next_p p) (\<lambda>t.
          case (if tk_type t \<noteq> tok_number then None else parse_uint16 (tk_text t)) of
            None \<Rightarrow> fail_p (''invalid '' @ type_name @ '' size'') (tk_text t) (tk_position t)
          | Some n \<Rightarrow> require_type p tok_right_paren '')'' (return_p n))))
      (fail_p (type_name @ '' requires a size, use '' @ type_name @ ''(n)'') (tk_text type_token) (tk_position type_token)) i"

definition parse_number_format :: "parser \<Rightarrow> Token \<Rightarrow> (u8 \<times> u8) parse" where
  "parse_number_format p type_token i =
     if_type p tok_left_paren
      (if_end p (fail_p ''expected precision'' '''' (length (p_command p)))
        (bind_p (next_p p) (\<lambda>precision_token.
          case (if tk_type precision_token \<noteq> tok_number then None else parse_uint8 (tk_text precision_token)) of
            None \<Rightarrow> fail_p ''invalid NUMBER precision'' (tk_text precision_token) (tk_position precision_token)
          | Some precision \<Rightarrow>
              require_type p tok_comma '',''
               (if_end p (fail_p ''expected scale'' '''' (length (p_command p)))
                 (bind_p (next_p p) (\<lambda>scale_token.
                   case (if tk_type scale_token \<noteq> tok_number then None else parse_uint8 (tk_text scale_token)) of
                     None \<Rightarrow> fail_p ''invalid NUMBER scale'' (tk_text scale_token) (tk_position scale_token)
                   | Some scale \<Rightarrow>
                       require_type p tok_right_paren '')''
                        (if precision > MAX_NUMBER_PRECISION
                         then fail_p (''NUMBER precision exceeds maximum '' @ show_nat (unat MAX_NUMBER_PRECISION)) (tk_text precision_token) (tk_position precision_token)
                         else if scale > precision
                         then fail_p ''NUMBER scale cannot exceed precision'' (tk_text scale_token) (tk_position scale_token)
                         else return_p (precision, scale))))))))
      (fail_p ''NUMBER requires precision and scale, use NUMBER(p, s)'' (tk_text type_token) (tk_position type_token)) i"

definition parse_nullability :: "parser \<Rightarrow> bool \<Rightarrow> bool parse" where
  "parse_nullability p nullable i =
     if_match p ''NULL'' (return_p True)
      (if_match p ''NOT'' (require p ''NULL'' (return_p False)) (return_p nullable)) i"

definition parse_column_type :: "parser \<Rightarrow> string \<Rightarrow> bool \<Rightarrow> Token \<Rightarrow> Column parse" where
  "parse_column_type p name nullable t i =
     (if tk_text t = ''INTEGER'' then throw_p (integer_column name nullable)
      else if tk_text t = ''CHAR'' then throw_p (char_column name nullable)
      else if tk_text t = ''DATE'' then throw_p (date_column name nullable)
      else if tk_text t = ''TIME'' then throw_p (time_column name nullable)
      else if tk_text t = ''DATETIME'' then throw_p (datetime_column name nullable)
      else if tk_text t = ''TEXT'' then throw_p (text_column name nullable)
      else if tk_text t = ''STRING'' then
        bind_p (parse_one_size p ''STRING'' t) (\<lambda>n. throw_p (string_column name nullable n))
      else if tk_text t = ''VARSTRING'' then
        bind_p (parse_one_size p ''VARSTRING'' t) (\<lambda>n. throw_p (varstring_column name nullable n))
      else if tk_text t = ''NUMBER'' then
        bind_p (parse_number_format p t) (\<lambda>(precision, scale). throw_p (number_column name nullable precision scale))
      else fail_p ''unknown column type'' (tk_text t) (tk_position t)) i"

definition parse_column :: "parser \<Rightarrow> Column parse" where
  "parse_column p i =
     bind_p (read_identifier p ''column name'') (\<lambda>name.
       if_end p (fail_p ''expected column type'' '''' (length (p_command p)))
        (bind_p (next_p p) (\<lambda>t.
          if lowercase_keyword t then fail_p ''keyword must be uppercase'' (tk_text t) (tk_position t)
          else bind_p (parse_column_type p name True t) (\<lambda>column.
            bind_p (parse_nullability p True) (\<lambda>nullable. return_p (set_nullable nullable column)))))) i"

text \<open>The loop over the constraints written after a column.\<close>

fun column_constraints :: "nat \<Rightarrow> parser \<Rightarrow> Column \<Rightarrow> ConstraintDefinition list \<Rightarrow> u64 \<Rightarrow> (ConstraintDefinition list \<times> u64) parse" where
  "column_constraints 0 p column cons cid i = Inl No_fuel"
| "column_constraints (Suc n) p column cons cid i =
     if_match p ''PRIMARY''
      (require p ''KEY'' (column_constraints n p column (cons @ [make_primary_key cid [col_name column]]) (cid + 1)))
      (if_match p ''UNIQUE''
        (column_constraints n p column (cons @ [make_unique cid [col_name column]]) (cid + 1))
        (if_match p ''REFERENCES''
          (bind_p (read_identifier p ''referenced table name'') (\<lambda>ref_table.
           require_type p tok_left_paren ''('' (bind_p (read_identifier p ''referenced column name'') (\<lambda>ref_column.
           require_type p tok_right_paren '')''
            (column_constraints n p column (cons @ [make_foreign_key cid [col_name column] ref_table ref_column]) (cid + 1))))))
          (if_match p ''CHECK''
            (bind_p (check_parts p True) (\<lambda>parts. column_constraints n p column (cons @ [make_check cid parts]) (cid + 1)))
            (return_p (cons, cid))))) i"

fun column_loop :: "nat \<Rightarrow> parser \<Rightarrow> Column list \<Rightarrow> ConstraintDefinition list \<Rightarrow> u64 \<Rightarrow> (Column list \<times> ConstraintDefinition list) parse" where
  "column_loop 0 p cols cons cid i = Inl No_fuel"
| "column_loop (Suc n) p cols cons cid i =
     if_type p tok_right_paren (return_p (cols, cons))
      (bind_p (parse_column p) (\<lambda>column.
       bind_p (column_constraints (tokens_fuel p) p column cons cid) (\<lambda>(cons, cid).
         if_type p tok_comma (column_loop n p (cols @ [column]) cons cid)
          (if_type p tok_right_paren (return_p (cols @ [column], cons))
            (\<lambda>i. if i < length (p_tokens p) \<and> tk_text (p_tokens p ! i) \<in> {''PRIMARY'', ''UNIQUE'', ''FOREIGN'', ''CHECK''} then
                bind_p (parse_table_constraint p cid) (\<lambda>constraint.
                  if_type p tok_comma (column_loop n p (cols @ [column]) (cons @ [constraint]) (cid + 1))
                   (if_type p tok_right_paren (return_p (cols @ [column], cons @ [constraint])) (expected p '', or )''))) i
              else expected p '', or )'' i))))) i"

definition parse_create_table :: "parser \<Rightarrow> ParsedQuery parse" where
  "parse_create_table p i =
     bind_p (if_match p ''IF'' (require p ''NOT'' (require p ''EXISTS'' (return_p True))) (return_p False)) (\<lambda>if_not_exists.
     bind_p (read_identifier p ''table name'') (\<lambda>t.
     require_type p tok_left_paren ''(''
      (if_type p tok_right_paren
        (bind_p (previous_position p 0) (\<lambda>position. fail_p ''expected column definition'' '')'' position))
        (bind_p (column_loop (tokens_fuel p) p [] [] 1) (\<lambda>(cols, cons).
         bind_p (parse_storage_engine p) (\<lambda>storage.
           end_or_error p (plain_query (fields_default\<lparr>qf_type := q_create_table, qf_table_name := t, qf_columns := cols,
             qf_constraints := cons, qf_storage_mode := storage, qf_if_not_exists := if_not_exists\<rparr>)))))))) i"

definition parse_create :: "parser \<Rightarrow> ParsedQuery parse" where
  "parse_create p i =
     if_match p ''UNIQUE'' (require p ''INDEX'' (parse_create_index p True))
      (if_match p ''DATABASE''
        (bind_p (read_identifier p ''database name'') (\<lambda>d.
          end_or_error p (plain_query (fields_default\<lparr>qf_type := q_create_database, qf_database_name := d\<rparr>))))
        (if_match p ''TABLE'' (parse_create_table p)
          (if_match p ''INDEX'' (parse_create_index p False) (expected p ''DATABASE, TABLE, or INDEX'')))) i"

section \<open>Parentheses and subqueries\<close>

text \<open>The scan for the closing parenthesis: the number of tokens passed, with it, and the parenthesis.\<close>

fun closing_paren :: "nat \<Rightarrow> Token list \<Rightarrow> (nat \<times> Token) option" where
  "closing_paren depth [] = None"
| "closing_paren depth (t # ts) =
     (if tk_type t = tok_left_paren then map_option (apfst Suc) (closing_paren (Suc depth) ts)
      else if tk_type t = tok_right_paren then
        if depth = 1 then Some (1, t) else map_option (apfst Suc) (closing_paren (depth - 1) ts)
      else map_option (apfst Suc) (closing_paren depth ts))"

text \<open>
  From the opening parenthesis, which is the previous token, to its closing one: the position after the opening parenthesis and the
  text between them.
\<close>

definition paren_body :: "parser \<Rightarrow> (nat \<times> string) parse" where
  "paren_body p i =
     (let open_position = tk_position (p_tokens p ! (i - 1)) in
     case closing_paren 1 (drop i (p_tokens p)) of
       None \<Rightarrow> fail_p ''missing closing parenthesis'' ''('' open_position i
     | Some (n, t) \<Rightarrow>
         let start = open_position + 1 in Inr ((start, substr (p_command p) start (tk_position t - start)), i + n))"

definition parse_parenthesized_body :: "parser \<Rightarrow> string parse" where
  "parse_parenthesized_body p i = require_type p tok_left_paren ''('' (bind_p (paren_body p) (\<lambda>(start, body). return_p body)) i"

text \<open>The call of \<^verbatim>\<open>QueryParser::parse_with_error\<close> on the text of a subquery.\<close>

definition run_subparser :: "subparser \<Rightarrow> string \<Rightarrow> nat \<Rightarrow> string \<Rightarrow> ParsedQuery parse" where
  "run_subparser sub what start body i =
     (case sub body of
       Inl (Failed e) \<Rightarrow> Inl (Failed (e\<lparr>pe_position := pe_position e + start\<rparr>))
     | Inl stop \<Rightarrow> Inl stop
     | Inr q \<Rightarrow>
         if qf_type (q_fields q) \<noteq> q_select_all then fail_p (what @ '' must be SELECT'') body start i else Inr (q, i))"

definition parse_subquery_expression :: "parser \<Rightarrow> subparser \<Rightarrow> QueryExpression parse" where
  "parse_subquery_expression p sub i =
     require_type p tok_left_paren ''('' (bind_p (paren_body p) (\<lambda>(start, body).
       bind_p (run_subparser sub ''subquery'' start body) (\<lambda>q.
         return_p (QueryExpression ex_scalar_subquery '''' '''' agg_none body (Some q) (start - 1))))) i"

definition parse_table_reference :: "parser \<Rightarrow> (string \<times> string) parse" where
  "parse_table_reference p i =
     if_type p tok_left_paren
      (bind_p (previous_position p 0) (\<lambda>position. fail_p ''derived table is only allowed after FROM'' ''('' position))
      (bind_p (read_identifier p ''table name'') (\<lambda>t.
        if_match p ''AS'' (bind_p (read_identifier p ''table alias'') (\<lambda>a. return_p (t, a))) (return_p (t, '''')))) i"

definition parse_from_source :: "parser \<Rightarrow> subparser \<Rightarrow> (ParsedQuery option \<times> string \<times> string) parse" where
  "parse_from_source p sub i =
     if_type p tok_left_paren
      (bind_p (paren_body p) (\<lambda>(start, body).
        bind_p (run_subparser sub ''derived table'' start body) (\<lambda>q.
          if_match p ''AS''
            (bind_p (read_identifier p ''table alias'') (\<lambda>a. return_p (Some q, '''', a)))
            (bind_p (read_identifier p ''table alias'') (\<lambda>a. return_p (Some q, '''', a))))))
      (bind_p (parse_table_reference p) (\<lambda>(t, a). return_p (None, t, a))) i"

section \<open>Columns of a query\<close>

definition parse_column_reference :: "parser \<Rightarrow> string \<Rightarrow> (string \<times> string) parse" where
  "parse_column_reference p label i =
     bind_p (read_identifier p label) (\<lambda>first_name.
       if_type p tok_dot (bind_p (read_identifier p label) (\<lambda>column_name. return_p (first_name, column_name)))
        (return_p ('''', first_name))) i"

definition aggregate_from_text :: "string \<Rightarrow> QueryAggregateFunction option" where
  "aggregate_from_text s =
     (if s = ''MAX'' then Some agg_max else if s = ''MIN'' then Some agg_min else if s = ''AVG'' then Some agg_avg
      else if s = ''SUM'' then Some agg_sum else if s = ''COUNT'' then Some agg_count else None)"

definition scalar_from_text :: "string \<Rightarrow> QueryScalarFunction option" where
  "scalar_from_text s =
     (if s = ''LENGTH'' then Some fun_length else if s = ''UPPER'' then Some fun_upper else if s = ''LOWER'' then Some fun_lower else None)"

text \<open>Whether the next token names an aggregate or a scalar function.\<close>

definition peek_text :: "parser \<Rightarrow> (string \<Rightarrow> 'a option) \<Rightarrow> nat \<Rightarrow> 'a option" where
  "peek_text p f i = (if i < length (p_tokens p) then f (tk_text (p_tokens p ! i)) else None)"

text \<open>The argument of an aggregate in parentheses, and of a scalar function.\<close>

definition function_argument :: "parser \<Rightarrow> bool \<Rightarrow> string \<Rightarrow> (string \<times> string) parse" where
  "function_argument p star_allowed label i =
     require_type p tok_left_paren ''('' (bind_p
       (if star_allowed then if_type p tok_star (return_p ('''', ''*'')) (parse_column_reference p label) else parse_column_reference p label)
       (\<lambda>r. require_type p tok_right_paren '')'' (return_p r))) i"

definition parse_selected :: "parser \<Rightarrow> SelectedColumn parse" where
  "parse_selected p i =
     bind_p (peek_position p) (\<lambda>position.
     bind_p (\<lambda>i. case peek_text p aggregate_from_text i of
         Some agg \<Rightarrow>
           bind_p (function_argument p (agg = agg_count) ''selected column'') (\<lambda>(alias, column).
             return_p (selected_default\<lparr>sc_table_alias := alias, sc_column_name := column, sc_aggregate := agg, sc_position := position\<rparr>)) (Suc i)
       | None \<Rightarrow> (case peek_text p scalar_from_text i of
           Some f \<Rightarrow>
             bind_p (function_argument p False ''selected column'') (\<lambda>(alias, column).
               return_p (selected_default\<lparr>sc_table_alias := alias, sc_column_name := column, sc_scalar_function := f, sc_position := position\<rparr>)) (Suc i)
         | None \<Rightarrow>
             bind_p (parse_column_reference p ''selected column'') (\<lambda>(alias, column).
               bind_p (previous_position p position) (\<lambda>position.
                 return_p (selected_default\<lparr>sc_table_alias := alias, sc_column_name := column, sc_position := position\<rparr>))) i)) (\<lambda>selected.
       if_match p ''AS'' (bind_p (read_identifier p ''column alias'') (\<lambda>a. return_p (selected\<lparr>sc_alias := a\<rparr>))) (return_p selected))) i"

fun select_loop :: "nat \<Rightarrow> parser \<Rightarrow> SelectedColumn list \<Rightarrow> SelectedColumn list parse" where
  "select_loop 0 p cols i = Inl No_fuel"
| "select_loop (Suc n) p cols i =
     bind_p (parse_selected p) (\<lambda>c. if_type p tok_comma (select_loop n p (cols @ [c])) (return_p (cols @ [c]))) i"

definition parse_select_list :: "parser \<Rightarrow> (bool \<times> SelectedColumn list) parse" where
  "parse_select_list p i =
     if_type p tok_star (return_p (True, [])) (bind_p (select_loop (tokens_fuel p) p []) (\<lambda>cols. return_p (False, cols))) i"

definition positioned_column :: "parser \<Rightarrow> string \<Rightarrow> SelectedColumn parse" where
  "positioned_column p label i =
     bind_p (peek_position p) (\<lambda>position.
     bind_p (parse_column_reference p label) (\<lambda>(alias, column).
     bind_p (previous_position p position) (\<lambda>position.
       return_p (selected_default\<lparr>sc_table_alias := alias, sc_column_name := column, sc_position := position\<rparr>)))) i"

fun parse_group_by :: "nat \<Rightarrow> parser \<Rightarrow> SelectedColumn list \<Rightarrow> SelectedColumn list parse" where
  "parse_group_by 0 p cols i = Inl No_fuel"
| "parse_group_by (Suc n) p cols i =
     bind_p (positioned_column p ''group column'') (\<lambda>c.
       if_type p tok_comma (parse_group_by n p (cols @ [c])) (return_p (cols @ [c]))) i"

fun parse_order_by :: "nat \<Rightarrow> parser \<Rightarrow> OrderByColumn list \<Rightarrow> OrderByColumn list parse" where
  "parse_order_by 0 p cols i = Inl No_fuel"
| "parse_order_by (Suc n) p cols i =
     bind_p (positioned_column p ''order column'') (\<lambda>c.
     bind_p (if_match p ''ASC'' (return_p False) (if_match p ''DESC'' (return_p True) (return_p False))) (\<lambda>descending.
       let cols = cols @ [\<lparr>ob_column = c, ob_descending = descending\<rparr>] in
       if_type p tok_comma (parse_order_by n p cols) (return_p cols))) i"

definition parse_limit :: "parser \<Rightarrow> u64 parse" where
  "parse_limit p i =
     if_end p (fail_p ''expected LIMIT count'' '''' (length (p_command p)))
      (bind_p (next_p p) (\<lambda>t.
        if tk_type t \<noteq> tok_number then fail_p ''invalid LIMIT count'' (tk_text t) (tk_position t)
        else case stoull_used (tk_text t) of
          Inl _ \<Rightarrow> fail_p ''invalid LIMIT count'' (tk_text t) (tk_position t)
        | Inr (parsed, used) \<Rightarrow>
            if used \<noteq> length (tk_text t) then fail_p ''invalid LIMIT count'' (tk_text t) (tk_position t) else return_p parsed)) i"

section \<open>Conditions\<close>

definition parse_column_expression :: "parser \<Rightarrow> string \<Rightarrow> QueryExpression parse" where
  "parse_column_expression p label i =
     (case peek_text p aggregate_from_text i of
       Some agg \<Rightarrow>
         bind_p (peek_position p) (\<lambda>position i.
           bind_p (function_argument p (agg = agg_count) label) (\<lambda>(alias, column).
             return_p (QueryExpression ex_aggregate alias column agg '''' None position)) (Suc i)) i
     | None \<Rightarrow>
         bind_p (parse_column_reference p label) (\<lambda>(alias, column).
         bind_p (previous_position p (length (p_command p))) (\<lambda>position.
           return_p (QueryExpression ex_column_reference alias column agg_none '''' None position))) i)"

definition parse_value_expression :: "parser \<Rightarrow> subparser \<Rightarrow> QueryExpression parse" where
  "parse_value_expression p sub i =
     bind_p (next_p p) (\<lambda>t i.
       if tk_type t = tok_left_paren then parse_subquery_expression p sub (i - 1)
       else if tk_type t = tok_word \<and> i < length (p_tokens p) \<and> tk_type (p_tokens p ! i) = tok_dot then
         bind_p (read_identifier p ''column name'') (\<lambda>column.
           return_p (QueryExpression ex_column_reference (tk_text t) column agg_none (tk_text t @ ''.'' @ column) None (tk_position t))) (Suc i)
       else if tk_type t = tok_word \<and> tk_text t \<noteq> ''NULL'' then
         return_p (QueryExpression ex_column_reference '''' (tk_text t) agg_none (tk_text t) None (tk_position t)) i
       else return_p (QueryExpression ex_literal '''' '''' agg_none (tk_text t) None (tk_position t)) i) i"

definition operator_from_text :: "string \<Rightarrow> QueryOperator option" where
  "operator_from_text s =
     (if s = ''='' then Some op_equal else if s = ''!='' then Some op_not_equal else if s = ''>'' then Some op_greater
      else if s = ''<'' then Some op_less else if s = ''>='' then Some op_greater_equal else if s = ''<='' then Some op_less_equal else None)"

definition comparison_node :: "QueryConditionNodeType \<Rightarrow> QueryExpression \<Rightarrow> QueryOperator \<Rightarrow> QueryExpression \<Rightarrow> QueryConditionNode" where
  "comparison_node ty left opr right = QueryConditionNode ty (QueryCondition left opr right [] False) None None"

definition tree_node :: "QueryConditionNodeType \<Rightarrow> QueryConditionNode \<Rightarrow> QueryConditionNode option \<Rightarrow> QueryConditionNode" where
  "tree_node ty left right = QueryConditionNode ty condition_default (Some left) right"

definition exists_node :: "QueryExpression \<Rightarrow> QueryConditionNode" where
  "exists_node subquery = comparison_node cn_exists_subquery expression_default op_equal subquery"

text \<open>The part of \<^verbatim>\<open>parse_comparison\<close> after the expression on the left.\<close>

definition parse_comparison_tail :: "parser \<Rightarrow> subparser \<Rightarrow> QueryExpression \<Rightarrow> QueryConditionNode parse" where
  "parse_comparison_tail p sub left i =
     if_match p ''BETWEEN''
      (bind_p (parse_value_expression p sub) (\<lambda>lower.
       require p ''AND'' (bind_p (parse_value_expression p sub) (\<lambda>upper.
         return_p (tree_node cn_and_node (comparison_node cn_comparison left op_greater_equal lower)
           (Some (comparison_node cn_comparison left op_less_equal upper)))))))
      (if_match p ''NOT''
        (require p ''IN'' (bind_p (parse_subquery_expression p sub) (\<lambda>subquery.
          return_p (tree_node cn_not_node (comparison_node cn_in_subquery left op_equal subquery) None))))
        (if_match p ''IN''
          (bind_p (parse_subquery_expression p sub) (\<lambda>subquery. return_p (comparison_node cn_in_subquery left op_equal subquery)))
          (\<lambda>i. if i \<ge> length (p_tokens p) \<or> tk_type (p_tokens p ! i) \<noteq> tok_op then expected p ''operator'' i
               else bind_p (next_p p) (\<lambda>t.
                 case operator_from_text (tk_text t) of
                   None \<Rightarrow> fail_p ''unknown operator'' (tk_text t) (tk_position t)
                 | Some opr \<Rightarrow>
                     if_match p ''ANY''
                      (bind_p (parse_subquery_expression p sub) (\<lambda>subquery. return_p (comparison_node cn_any_subquery left opr subquery)))
                      (if_match p ''ALL''
                        (bind_p (parse_subquery_expression p sub) (\<lambda>subquery. return_p (comparison_node cn_all_subquery left opr subquery)))
                        (if_end p (fail_p ''expected value'' '''' (length (p_command p)))
                          (bind_p (parse_value_expression p sub) (\<lambda>right. return_p (comparison_node cn_comparison left opr right)))))) i))) i"

function parse_or_expression :: "nat \<Rightarrow> parser \<Rightarrow> subparser \<Rightarrow> QueryConditionNode parse"
  and or_loop :: "nat \<Rightarrow> parser \<Rightarrow> subparser \<Rightarrow> QueryConditionNode \<Rightarrow> QueryConditionNode parse"
  and parse_and_expression :: "nat \<Rightarrow> parser \<Rightarrow> subparser \<Rightarrow> QueryConditionNode parse"
  and and_loop :: "nat \<Rightarrow> parser \<Rightarrow> subparser \<Rightarrow> QueryConditionNode \<Rightarrow> QueryConditionNode parse"
  and parse_comparison :: "nat \<Rightarrow> parser \<Rightarrow> subparser \<Rightarrow> QueryConditionNode parse" where
  "parse_or_expression 0 p sub i = Inl No_fuel"
| "parse_or_expression (Suc n) p sub i = bind_p (parse_and_expression n p sub) (or_loop n p sub) i"
| "or_loop 0 p sub node i = Inl No_fuel"
| "or_loop (Suc n) p sub node i =
     if_match p ''OR''
      (bind_p (parse_and_expression n p sub) (\<lambda>right. or_loop n p sub (tree_node cn_or_node node (Some right))))
      (return_p node) i"
| "parse_and_expression 0 p sub i = Inl No_fuel"
| "parse_and_expression (Suc n) p sub i = bind_p (parse_comparison n p sub) (and_loop n p sub) i"
| "and_loop 0 p sub node i = Inl No_fuel"
| "and_loop (Suc n) p sub node i =
     if_match p ''AND''
      (bind_p (parse_comparison n p sub) (\<lambda>right. and_loop n p sub (tree_node cn_and_node node (Some right))))
      (return_p node) i"
| "parse_comparison 0 p sub i = Inl No_fuel"
| "parse_comparison (Suc n) p sub i =
     if_type p tok_left_paren
      (bind_p (parse_or_expression n p sub) (\<lambda>child. require_type p tok_right_paren '')'' (return_p child)))
      (if_match p ''NOT''
        (if_match p ''EXISTS''
          (bind_p (parse_subquery_expression p sub) (\<lambda>subquery. return_p (tree_node cn_not_node (exists_node subquery) None)))
          (bind_p (parse_comparison n p sub) (\<lambda>child. return_p (tree_node cn_not_node child None))))
        (if_match p ''EXISTS''
          (bind_p (parse_subquery_expression p sub) (\<lambda>subquery. return_p (exists_node subquery)))
          (bind_p (parse_column_expression p ''column name'') (parse_comparison_tail p sub)))) i"
  by pat_completeness auto
termination
  by (relation "measure (\<lambda>x. case x of Inl (Inl (n, _)) \<Rightarrow> n | Inl (Inr (n, _)) \<Rightarrow> n | Inr (Inl (n, _)) \<Rightarrow> n | Inr (Inr (Inl (n, _))) \<Rightarrow> n | Inr (Inr (Inr (n, _))) \<Rightarrow> n)") simp_all

definition parse_condition_expression :: "parser \<Rightarrow> subparser \<Rightarrow> QueryConditionNode parse" where
  "parse_condition_expression p sub i = parse_or_expression (4 * tokens_fuel p) p sub i"

section \<open>Selects\<close>

fun append_join :: "QueryJoin \<Rightarrow> QueryJoin option \<Rightarrow> QueryJoin" where
  "append_join join None = join"
| "append_join join (Some (QueryJoin ty t a c next_join)) = QueryJoin ty t a c (Some (append_join join next_join))"

definition parse_join_target :: "parser \<Rightarrow> subparser \<Rightarrow> QueryJoinType \<Rightarrow> bool \<Rightarrow> QueryJoin parse" where
  "parse_join_target p sub ty on_allowed i =
     bind_p (parse_table_reference p) (\<lambda>(t, a).
       if on_allowed then
         if_match p ''ON''
          (bind_p (parse_condition_expression p sub) (\<lambda>c. return_p (QueryJoin ty t a (Some c) None)))
          (return_p (QueryJoin ty t a None None))
       else return_p (QueryJoin ty t a None None)) i"

fun join_loop :: "nat \<Rightarrow> parser \<Rightarrow> subparser \<Rightarrow> QueryJoin option \<Rightarrow> QueryJoin option parse" where
  "join_loop 0 p sub joins i = Inl No_fuel"
| "join_loop (Suc n) p sub joins i =
     (let more = (\<lambda>join. join_loop n p sub (Some (append_join join joins))) in
      if_type p tok_comma (bind_p (parse_join_target p sub join_cross True) more)
       (if_match p ''LEFT'' (require p ''JOIN'' (bind_p (parse_join_target p sub join_left True) more))
         (if_match p ''RIGHT'' (require p ''JOIN'' (bind_p (parse_join_target p sub join_right True) more))
           (if_match p ''JOIN'' (bind_p (parse_join_target p sub join_inner True) more)
             (if_match p ''NATURAL'' (require p ''JOIN'' (bind_p (parse_join_target p sub join_natural False) more))
               (return_p joins)))))) i"

definition optional_condition :: "parser \<Rightarrow> subparser \<Rightarrow> string \<Rightarrow> QueryConditionNode option parse" where
  "optional_condition p sub keyword i =
     if_match p keyword (bind_p (parse_condition_expression p sub) (\<lambda>c. return_p (Some c))) (return_p None) i"

definition parse_single_select :: "parser \<Rightarrow> subparser \<Rightarrow> ParsedQuery parse" where
  "parse_single_select p sub i =
     bind_p (parse_select_list p) (\<lambda>(all_columns, cols).
     require p ''FROM'' (bind_p (parse_from_source p sub) (\<lambda>(derived, t, a).
     bind_p (join_loop (tokens_fuel p) p sub None) (\<lambda>joins.
     bind_p (optional_condition p sub ''WHERE'') (\<lambda>condition.
     bind_p (if_match p ''GROUP'' (require p ''BY'' (parse_group_by (tokens_fuel p) p [])) (return_p [])) (\<lambda>group_by.
     bind_p (optional_condition p sub ''HAVING'') (\<lambda>having.
     bind_p (if_match p ''ORDER'' (require p ''BY'' (parse_order_by (tokens_fuel p) p [])) (return_p [])) (\<lambda>order_by.
     bind_p (if_match p ''LIMIT'' (bind_p (parse_limit p) (\<lambda>n. return_p (Some n))) (return_p None)) (\<lambda>limit.
       return_p (ParsedQuery (fields_default\<lparr>qf_type := q_select_all, qf_table_name := t, qf_table_alias := a,
           qf_select_all := all_columns, qf_selected_columns := cols, qf_group_by_columns := group_by,
           qf_order_by_columns := order_by, qf_limit_count := limit\<rparr>)
         derived None condition having joins [] None)))))))))) i"

definition set_compound :: "QueryCompoundOperator \<Rightarrow> QuerySetQuantifier \<Rightarrow> ParsedQuery \<Rightarrow> ParsedQuery \<Rightarrow> ParsedQuery" where
  "set_compound opr quantifier q next_query =
     (case q of ParsedQuery f d ins c h j ctes _ \<Rightarrow>
        ParsedQuery (f\<lparr>qf_compound_operator := Some opr, qf_compound_quantifier := quantifier\<rparr>) d ins c h j ctes (Some next_query))"

text \<open>The loop over \<^verbatim>\<open>UNION\<close> and \<^verbatim>\<open>INTERSECT\<close>; \<^verbatim>\<open>current\<close> is the query that gets the next one.\<close>

fun compound_loop :: "nat \<Rightarrow> parser \<Rightarrow> subparser \<Rightarrow> ParsedQuery \<Rightarrow> ParsedQuery parse" where
  "compound_loop 0 p sub current i = Inl No_fuel"
| "compound_loop (Suc n) p sub current i =
     (let more = (\<lambda>opr.
        bind_p (if_match p ''ALL'' (return_p quant_all) (if_match p ''SOME'' (return_p quant_some) (return_p quant_some))) (\<lambda>quantifier.
        require p ''SELECT'' (bind_p (parse_single_select p sub) (\<lambda>next_select.
        bind_p (compound_loop n p sub next_select) (\<lambda>next_query. return_p (set_compound opr quantifier current next_query))))))
      in if_match p ''UNION'' (more union_op) (if_match p ''INTERSECT'' (more intersect_op) (return_p current))) i"

definition parse_select :: "parser \<Rightarrow> subparser \<Rightarrow> ParsedQuery parse" where
  "parse_select p sub i =
     bind_p (parse_single_select p sub) (\<lambda>q. bind_p (compound_loop (tokens_fuel p) p sub q) (end_or_error p)) i"

fun cte_loop :: "nat \<Rightarrow> parser \<Rightarrow> subparser \<Rightarrow> QueryCommonTableExpression list \<Rightarrow> QueryCommonTableExpression list parse" where
  "cte_loop 0 p sub ctes i = Inl No_fuel"
| "cte_loop (Suc n) p sub ctes i =
     bind_p (read_identifier p ''common table expression name'') (\<lambda>name.
     require p ''AS'' (bind_p (parse_subquery_expression p sub) (\<lambda>subquery.
       let ctes = ctes @ [QueryCommonTableExpression name (e_subquery subquery)] in
       if_type p tok_comma (cte_loop n p sub ctes) (return_p ctes)))) i"

definition set_ctes :: "QueryCommonTableExpression list \<Rightarrow> ParsedQuery \<Rightarrow> ParsedQuery" where
  "set_ctes ctes q = (case q of ParsedQuery f d ins c h j _ compound \<Rightarrow> ParsedQuery f d ins c h j ctes compound)"

definition parse_with :: "parser \<Rightarrow> subparser \<Rightarrow> ParsedQuery parse" where
  "parse_with p sub i =
     bind_p (cte_loop (tokens_fuel p) p sub []) (\<lambda>ctes.
     require p ''SELECT'' (bind_p (parse_select p sub) (\<lambda>q. return_p (set_ctes ctes q)))) i"

section \<open>Changes of rows\<close>

fun values_loop :: "nat \<Rightarrow> parser \<Rightarrow> string list \<Rightarrow> string list parse" where
  "values_loop 0 p rows i = Inl No_fuel"
| "values_loop (Suc n) p rows i =
     bind_p (parse_parenthesized_body p) (\<lambda>row.
       if_type p tok_comma (values_loop n p (rows @ [row])) (return_p (rows @ [row]))) i"

definition parse_insert :: "parser \<Rightarrow> subparser \<Rightarrow> ParsedQuery parse" where
  "parse_insert p sub i =
     require p ''INTO'' (bind_p (read_identifier p ''table name'') (\<lambda>t.
     bind_p (if_type p tok_left_paren
         (bind_p (name_loop (tokens_fuel p) p ''column name'' []) (\<lambda>cols. require_type p tok_right_paren '')'' (return_p cols)))
         (return_p [])) (\<lambda>cols.
       let f = fields_default\<lparr>qf_type := q_insert_row, qf_table_name := t, qf_insert_columns := cols\<rparr> in
       if_match p ''SELECT''
        (bind_p (parse_single_select p sub) (\<lambda>q. end_or_error p (ParsedQuery f None (Some q) None None None [] None)))
        (if_match p ''VALUES''
          (bind_p (values_loop (tokens_fuel p) p []) (\<lambda>rows.
            end_or_error p (plain_query (f\<lparr>qf_insert_value_rows := rows, qf_values_text := (if rows \<noteq> [] then hd rows else '''')\<rparr>))))
          (expected p ''VALUES or SELECT''))))) i"

definition parse_delete :: "parser \<Rightarrow> subparser \<Rightarrow> ParsedQuery parse" where
  "parse_delete p sub i =
     require p ''FROM'' (bind_p (read_identifier p ''table name'') (\<lambda>t.
     require p ''WHERE'' (bind_p (parse_condition_expression p sub) (\<lambda>c.
       end_or_error p (ParsedQuery (fields_default\<lparr>qf_type := q_delete_row, qf_table_name := t\<rparr>) None None (Some c) None None [] None))))) i"

fun assignment_loop :: "nat \<Rightarrow> parser \<Rightarrow> (string \<times> string) list \<Rightarrow> (string \<times> string) list parse" where
  "assignment_loop 0 p assignments i = Inl No_fuel"
| "assignment_loop (Suc n) p assignments i =
     bind_p (read_identifier p ''column name'') (\<lambda>column.
     if_type p tok_op
      (\<lambda>i. if tk_text (p_tokens p ! (i - 1)) \<noteq> ''='' then expected p ''='' i
           else bind_p (\<lambda>i.
               if i \<ge> length (p_tokens p) then expected p ''value'' i
               else if tk_type (p_tokens p ! i) \<in> {tok_string, tok_number, tok_word} then Inr (tk_text (p_tokens p ! i), Suc i)
               else if tk_type (p_tokens p ! i) = tok_left_paren then parse_parenthesized_body p i
               else expected p ''value'' i) (\<lambda>v.
             if_type p tok_comma (assignment_loop n p (assignments @ [(column, v)])) (return_p (assignments @ [(column, v)]))) i)
      (expected p ''='')) i"

definition parse_update :: "parser \<Rightarrow> subparser \<Rightarrow> ParsedQuery parse" where
  "parse_update p sub i =
     bind_p (read_identifier p ''table name'') (\<lambda>t.
     require p ''SET''
      (bind_p (if_match p ''VALUES''
          (bind_p (parse_parenthesized_body p) (\<lambda>body. return_p (body, [])))
          (bind_p (assignment_loop (tokens_fuel p) p []) (\<lambda>assignments. return_p ('''', assignments)))) (\<lambda>(values_text, assignments).
       require p ''WHERE'' (bind_p (parse_condition_expression p sub) (\<lambda>c.
         end_or_error p (ParsedQuery (fields_default\<lparr>qf_type := q_update_row, qf_table_name := t, qf_values_text := values_text,
           qf_update_assignments := assignments\<rparr>) None None (Some c) None None [] None)))))) i"

section \<open>Commands\<close>

definition parse_command :: "parser \<Rightarrow> subparser \<Rightarrow> ParsedQuery parse" where
  "parse_command p sub i =
     if_end p (fail_p ''empty query'' '''' 0)
      (\<lambda>i. let first = p_tokens p ! 0 in
        if lowercase_keyword first then fail_p ''keyword must be uppercase'' (tk_text first) (tk_position first) i
        else
          if_match p ''EXIT'' (simple_query p q_exit)
         (if_match p ''QUIT'' (simple_query p q_exit)
         (if_match p ''HELP'' (simple_query p q_help)
         (if_match p ''BEGIN'' (simple_query p q_begin_transaction)
         (if_match p ''COMMIT'' (simple_query p q_commit_transaction)
         (if_match p ''ROLLBACK'' (simple_query p q_rollback_transaction)
         (if_match p ''SHOW'' (parse_show p)
         (if_match p ''CREATE'' (parse_create p)
         (if_match p ''DROP'' (parse_drop p)
         (if_match p ''ALTER'' (parse_alter p)
         (if_match p ''USE'' (parse_use p)
         (if_match p ''DESCRIBE'' (parse_describe p)
         (if_match p ''DESC'' (parse_describe p)
         (if_match p ''INSERT'' (parse_insert p sub)
         (if_match p ''SELECT'' (parse_select p sub)
         (if_match p ''WITH'' (parse_with p sub)
         (if_match p ''DELETE'' (parse_delete p sub)
         (if_match p ''UPDATE'' (parse_update p sub)
           (fail_p ''unknown command'' (tk_text first) (tk_position first))))))))))))))))))) i) i"

fun parse_with_error :: "nat \<Rightarrow> string \<Rightarrow> stop + ParsedQuery" where
  "parse_with_error 0 command = Inl No_fuel"
| "parse_with_error (Suc n) command =
     (case tokenize command of
        (tokens, Some e) \<Rightarrow> Inl (Failed e)
      | (tokens, None) \<Rightarrow>
          (case parse_command \<lparr>p_command = command, p_tokens = tokens\<rparr> (parse_with_error n) 0 of
             Inl stop \<Rightarrow> Inl stop
           | Inr (q, i) \<Rightarrow> Inr q))"

definition parse_query :: "string \<Rightarrow> stop + ParsedQuery" where
  "parse_query command = parse_with_error (Suc (length command)) command"

end
