(* ===== verification/Query_Parsing.thy ===== *)
theory Query_Parsing
  imports Query_Parser
begin

text \<open>
  Properties of the parser of \<^verbatim>\<open>Query_Parser\<close>. \<open>parses p lo k P\<close> says of a function \<open>P\<close> of the parser, started at any index from \<open>lo\<close> on,
  that it does not run out of fuel, that its errors name a part of the command, and that it consumes at least \<open>k\<close> tokens. The rules
  for the combinators carry this to every function of the parser.
\<close>

named_theorems parses_intros "parsers that consume input and report errors with positions"

section \<open>Well-behaved parsers\<close>

text \<open>
  Two messages about foreign keys come with a column name and the position of the parenthesis after it; every other token stands at
  its position.
\<close>

definition reported :: "string \<Rightarrow> ParseError \<Rightarrow> bool" where
  "reported command e \<longleftrightarrow> pe_position e \<le> length command \<and>
     (substr command (pe_position e) (length (pe_token e)) = pe_token e \<or>
      pe_message e = ''foreign key requires one column'' \<or> pe_message e = ''foreign key reference requires one column'')"

definition tokens_ok :: "parser \<Rightarrow> bool" where
  "tokens_ok p \<longleftrightarrow> (\<forall>t\<in>set (p_tokens p). tk_position t < length (p_command p) \<and>
     substr (p_command p) (tk_position t) (length (tk_text t)) = tk_text t \<and> paren_text t)"

definition result_ok :: "parser \<Rightarrow> nat \<Rightarrow> stop + 'a \<times> nat \<Rightarrow> bool" where
  "result_ok p m r =
     (case r of
        Inr (x, j) \<Rightarrow> m \<le> j \<and> j \<le> length (p_tokens p)
      | Inl stop \<Rightarrow> (case stop of Failed e \<Rightarrow> reported (p_command p) e | No_fuel \<Rightarrow> False | Thrown _ \<Rightarrow> True | Past_end \<Rightarrow> True))"

definition parses :: "parser \<Rightarrow> nat \<Rightarrow> nat \<Rightarrow> 'a parse \<Rightarrow> bool" where
  "parses p lo k P \<longleftrightarrow> (\<forall>i. lo \<le> i \<longrightarrow> i \<le> length (p_tokens p) \<longrightarrow> result_ok p (i + k) (P i))"

text \<open>What the parser expects of the call on the text of a subquery.\<close>

definition sub_ok :: "parser \<Rightarrow> subparser \<Rightarrow> bool" where
  "sub_ok p sub \<longleftrightarrow> (\<forall>body. length body < length (p_command p) \<longrightarrow>
     (case sub body of Inr q \<Rightarrow> True
      | Inl stop \<Rightarrow> (case stop of Failed e \<Rightarrow> reported body e | No_fuel \<Rightarrow> False | Thrown _ \<Rightarrow> True | Past_end \<Rightarrow> True)))"

lemma result_ok_simps [simp]:
  "result_ok p m (Inr (x, j)) \<longleftrightarrow> m \<le> j \<and> j \<le> length (p_tokens p)"
  "result_ok p m (Inl (Failed e)) \<longleftrightarrow> reported (p_command p) e" "result_ok p m (Inl (Thrown ex)) \<longleftrightarrow> True"
  "result_ok p m (Inl Past_end) \<longleftrightarrow> True" "\<not> result_ok p m (Inl No_fuel)"
  by (simp_all add: result_ok_def)

lemma result_ok_mono: "result_ok p m r \<Longrightarrow> m' \<le> m \<Longrightarrow> result_ok p m' r"
  by (auto simp: result_ok_def split: sum.splits stop.splits)

lemma parsesD: "parses p lo k P \<Longrightarrow> lo \<le> i \<Longrightarrow> i \<le> length (p_tokens p) \<Longrightarrow> result_ok p (i + k) (P i)"
  by (simp add: parses_def)

lemma parses_mono: "parses p lo k P \<Longrightarrow> lo \<le> lo' \<Longrightarrow> k' \<le> k \<Longrightarrow> parses p lo' k' P"
  unfolding parses_def by (meson add_le_cancel_left le_trans result_ok_mono)

lemma parses_0: "parses p lo 1 P \<Longrightarrow> parses p lo 0 P"
  by (rule parses_mono [of p lo 1]) simp_all

lemma bind_cases:
  assumes "result_ok p m (P i)" "\<And>x j. P i = Inr (x, j) \<Longrightarrow> m \<le> j \<Longrightarrow> j \<le> length (p_tokens p) \<Longrightarrow> result_ok p m' (Q x j)"
  shows "result_ok p m' (bind_p P Q i)"
proof (cases "P i")
  case (Inl s)
  then show ?thesis using assms(1) by (cases s) (simp_all add: bind_p_def)
next
  case (Inr r)
  then show ?thesis using assms by (cases r) (simp add: bind_p_def)
qed

lemma parses_bind:
  assumes "parses p lo k P" "\<And>x. parses p (lo + k) k' (Q x)"
  shows "parses p lo (k + k') (bind_p P Q)"
  unfolding parses_def
proof (intro allI impI)
  fix i assume i: "lo \<le> i" "i \<le> length (p_tokens p)"
  show "result_ok p (i + (k + k')) (bind_p P Q i)"
  proof (rule bind_cases)
    show "result_ok p (i + k) (P i)" by (rule parsesD [OF assms(1) i])
    show "result_ok p (i + (k + k')) (Q x j)" if "i + k \<le> j" "j \<le> length (p_tokens p)" for x j
      using parsesD [OF assms(2), of j x] that i by (auto intro: result_ok_mono)
  qed
qed

lemma parses_bind_rules:
  "parses p lo 0 P \<Longrightarrow> (\<And>x. parses p lo 0 (Q x)) \<Longrightarrow> parses p lo 0 (bind_p P Q)"
  "parses p lo 1 P \<Longrightarrow> (\<And>x. parses p (Suc lo) 0 (Q x)) \<Longrightarrow> parses p lo 1 (bind_p P Q)"
  "parses p lo 0 P \<Longrightarrow> (\<And>x. parses p lo 1 (Q x)) \<Longrightarrow> parses p lo 1 (bind_p P Q)"
  using parses_bind [of p lo 0 P 0 Q] parses_bind [of p lo 1 P 0 Q] parses_bind [of p lo 0 P 1 Q] by simp_all

lemma parses_return [parses_intros]: "parses p lo 0 (return_p x)"
  by (simp add: parses_def return_p_def)

lemma parses_throw [parses_intros]: "parses p lo 0 (throw_p r)"
  by (auto simp: parses_def throw_p_def split: sum.splits)

lemma parsesI: "(\<And>i. lo \<le> i \<Longrightarrow> i \<le> length (p_tokens p) \<Longrightarrow> result_ok p (i + k) (P i)) \<Longrightarrow> parses p lo k P"
  by (simp add: parses_def)

lemma parses_eq: "(\<And>i. P i = Q i) \<Longrightarrow> parses p lo k Q \<Longrightarrow> parses p lo k P"
  by (simp add: parses_def)

lemma parses_test:
  assumes "parses p (Suc lo) 0 A" "parses p lo k B" "k \<le> 1"
  shows "parses p lo k (\<lambda>i. if i < length (p_tokens p) \<and> c i then A (Suc i) else B i)"
proof (rule parsesI)
  fix i assume i: "lo \<le> i" "i \<le> length (p_tokens p)"
  show "result_ok p (i + k) (if i < length (p_tokens p) \<and> c i then A (Suc i) else B i)"
    using parsesD [OF assms(1), of "Suc i"] parsesD [OF assms(2) i] i assms(3) result_ok_mono [of p "Suc i" "A (Suc i)" "i + k"] by auto
qed

lemma parses_match:
  assumes "parses p (Suc lo) 0 A" "parses p lo k B" "k \<le> 1"
  shows "parses p lo k (if_match p s A B)" "parses p lo k (if_type p ty A B)"
  by (rule parses_eq, rule if_match_def, rule parses_test [OF assms]) (rule parses_eq, rule if_type_def, rule parses_test [OF assms])

lemma parses_end: "parses p lo k A \<Longrightarrow> parses p lo k B \<Longrightarrow> parses p lo k (if_end p A B)"
  by (simp add: parses_def if_end_def)

lemma parses_fail:
  "parses p lo k (fail_p m '''' (length (p_command p)))" "parses p lo k (fail_p m '''' 0)"
  "tokens_ok p \<Longrightarrow> t \<in> set (p_tokens p) \<Longrightarrow> parses p lo k (fail_p m (tk_text t) (tk_position t))"
  by (auto simp: parses_def fail_p_def reported_def substr_def tokens_ok_def)

lemma parses_expected: "tokens_ok p \<Longrightarrow> parses p lo k (expected p s)"
proof (rule parsesI)
  fix i assume ok: "tokens_ok p" and i: "lo \<le> i" "i \<le> length (p_tokens p)"
  show "result_ok p (i + k) (expected p s i)"
  proof (cases "i < length (p_tokens p)")
    case True
    then show ?thesis using parsesD [OF parses_fail(3) [OF ok nth_mem [OF True]] i] by (simp add: expected_def)
  next
    case False
    then show ?thesis using parsesD [OF parses_fail(1) i] by (simp add: expected_def)
  qed
qed

lemma parses_require:
  assumes "tokens_ok p" "parses p (Suc lo) 0 A" "k \<le> 1"
  shows "parses p lo k (require p s A)" "parses p lo k (require_type p ty s A)"
  by (rule parses_eq, rule require_def, rule parses_match [OF assms(2) parses_expected [OF assms(1)] assms(3)])
    (rule parses_eq, rule require_type_def, rule parses_match [OF assms(2) parses_expected [OF assms(1)] assms(3)])

lemma parses_next:
  assumes "\<And>t. t \<in> set (p_tokens p) \<Longrightarrow> parses p (Suc lo) 0 (Q t)" "k \<le> 1"
  shows "parses p lo k (bind_p (next_p p) Q)"
proof (rule parsesI)
  fix i assume i: "lo \<le> i" "i \<le> length (p_tokens p)"
  then have "result_ok p (Suc i) (bind_p (next_p p) Q i)"
    using parsesD [OF assms(1) [OF nth_mem [of i]], of "Suc i"] by (auto simp: bind_p_def next_p_def)
  then show "result_ok p (i + k) (bind_p (next_p p) Q i)" by (rule result_ok_mono) (use assms(2) in simp)
qed

lemma parses_positions: "parses p lo 0 (peek_position p)" "parses p lo 0 (previous_position p x)"
  by (simp_all add: parses_def peek_position_def previous_position_def)

lemma parses_if:
  "parses p lo k A \<Longrightarrow> parses p lo k B \<Longrightarrow> parses p lo k (if c then A else B)"
  "parses p lo k A \<Longrightarrow> parses p lo k B \<Longrightarrow> parses p lo k (\<lambda>i. if d i then A i else B i)"
  "(\<And>a b. parses p lo k (f a b)) \<Longrightarrow> parses p lo k (case x of (a, b) \<Rightarrow> f a b)"
  "parses p lo k A \<Longrightarrow> (\<And>y. parses p lo k (g y)) \<Longrightarrow> parses p lo k (case z of None \<Rightarrow> A | Some y \<Rightarrow> g y)"
  "(\<And>e. parses p lo k (h e)) \<Longrightarrow> (\<And>y. parses p lo k (g' y)) \<Longrightarrow> parses p lo k (case w of Inl e \<Rightarrow> h e | Inr y \<Rightarrow> g' y)"
  "parses p lo k (l u) \<Longrightarrow> parses p lo k (let v = u in l v)"
  by (auto simp: parses_def split: prod.splits option.splits sum.splits)

lemma k_le: "0 \<le> (1 :: nat)" "(1 :: nat) \<le> 1" "(0 :: nat) \<le> k"
  by simp_all

lemmas parser_rules = parses_return parses_throw parses_positions parses_fail parses_expected parses_require parses_next parses_match parses_end
  parses_if parses_bind_rules k_le

lemma parses_read_identifier: "tokens_ok p \<Longrightarrow> k \<le> 1 \<Longrightarrow> parses p lo k (read_identifier p label)"
  by (rule parses_eq, rule read_identifier_def) (rule parser_rules | assumption)+

lemma parses_end_or_error: "tokens_ok p \<Longrightarrow> parses p lo 0 (end_or_error p q)"
  by (rule parses_eq, rule end_or_error_def) (rule parser_rules | assumption)+

section \<open>Statements without conditions\<close>

lemmas parser_rules1 = parses_read_identifier parses_end_or_error parser_rules

lemma parses_simple_query: "tokens_ok p \<Longrightarrow> parses p lo 0 (simple_query p ty)"
  by (rule parses_eq, rule simple_query_def) (rule parser_rules1 | assumption)+

lemma parses_show: "tokens_ok p \<Longrightarrow> parses p lo 0 (parse_show p)"
  by (rule parses_eq, rule parse_show_def) (rule parses_simple_query parser_rules1 | assumption)+

lemma parses_create_index: "tokens_ok p \<Longrightarrow> parses p lo 0 (parse_create_index p uniq)"
  by (rule parses_eq, rule parse_create_index_def) (rule parser_rules1 | assumption)+

lemma parses_drop: "tokens_ok p \<Longrightarrow> parses p lo 0 (parse_drop p)"
  by (rule parses_eq, rule parse_drop_def) (rule parser_rules1 | assumption)+

lemma parses_use: "tokens_ok p \<Longrightarrow> parses p lo 0 (parse_use p)"
  by (rule parses_eq, rule parse_use_def) (rule parser_rules1 | assumption)+

lemma parses_describe: "tokens_ok p \<Longrightarrow> parses p lo 0 (parse_describe p)"
  by (rule parses_eq, rule parse_describe_def) (rule parser_rules1 | assumption)+

text \<open>A loop with fuel \<open>n\<close> is well behaved from the index on where at most \<open>n - 1\<close> tokens are left.\<close>

abbreviation fuel_from :: "parser \<Rightarrow> nat \<Rightarrow> nat" where
  "fuel_from p n \<equiv> Suc (length (p_tokens p)) - n"

lemma parses_no_fuel: "parses p (fuel_from p 0) k P"
  by (simp add: parses_def)

lemma parses_start: "parses p (fuel_from p (tokens_fuel p)) k P \<Longrightarrow> parses p lo k P"
  by (rule parses_mono [of p "fuel_from p (tokens_fuel p)" k]) (simp_all add: tokens_fuel_def)

lemma parses_name_loop_from: "tokens_ok p \<Longrightarrow> parses p (fuel_from p n) 1 (name_loop n p label names)"
proof (induction n arbitrary: names)
  case (Suc n)
  have later: "fuel_from p n \<le> lo \<Longrightarrow> parses p lo 0 (name_loop n p label names)" for lo names
    by (rule parses_mono [OF Suc.IH [OF Suc.prems]]) simp_all
  show ?case by (rule parses_eq, rule name_loop.simps) (rule later parser_rules1 | fact Suc.prems | simp)+
qed (rule parses_no_fuel)

lemma parses_name_loop: "tokens_ok p \<Longrightarrow> k \<le> 1 \<Longrightarrow> parses p lo k (name_loop (tokens_fuel p) p label names)"
  by (rule parses_start, rule parses_mono [OF parses_name_loop_from order_refl])

lemma parses_column_list: "tokens_ok p \<Longrightarrow> parses p lo 0 (read_column_list p label)"
  by (rule parses_eq, rule read_column_list_def) (rule parses_name_loop parser_rules1 | assumption)+

lemma check_tokens_le: "snd (check_tokens keep ts) \<le> length ts"
  by (induction ts) (auto split: prod.splits)

lemma parses_check_parts: "tokens_ok p \<Longrightarrow> parses p lo 0 (check_parts p keep)"
proof -
  have "parses p lo 0 (\<lambda>i. case check_tokens keep (drop i (p_tokens p)) of (parts, n) \<Rightarrow> Inr (parts, i + n))" for lo
  proof (rule parsesI)
    fix i assume "lo \<le> i" "i \<le> length (p_tokens p)"
    then show "result_ok p (i + 0) (case check_tokens keep (drop i (p_tokens p)) of (parts, n) \<Rightarrow> Inr (parts, i + n))"
      using check_tokens_le [of keep "drop i (p_tokens p)"] by (auto split: prod.splits)
  qed
  note c = this
  assume "tokens_ok p"
  then show ?thesis by (rule_tac parses_eq, rule_tac check_parts_def) (rule c parser_rules1 | assumption)+
qed

text \<open>The position of the previous token is in the command.\<close>

lemma parses_previous:
  assumes "tokens_ok p" "\<And>x. x \<le> length (p_command p) \<Longrightarrow> parses p lo k (f x)" "y \<le> length (p_command p)"
  shows "parses p lo k (bind_p (previous_position p y) f)"
proof (rule parsesI)
  fix i assume i: "lo \<le> i" "i \<le> length (p_tokens p)"
  have "(if i = 0 then y else tk_position (p_tokens p ! (i - 1))) \<le> length (p_command p)"
    using assms(1,3) i nth_mem [of "i - 1" "p_tokens p"] by (force simp: tokens_ok_def intro: less_imp_le)
  from parsesD [OF assms(2) [OF this] i] show "result_ok p (i + k) (bind_p (previous_position p y) f i)"
    by (simp add: bind_p_def previous_position_def)
qed

lemma parses_foreign_key_fail:
  "x \<le> length (p_command p) \<Longrightarrow> parses p lo k (fail_p ''foreign key requires one column'' c x)"
  "x \<le> length (p_command p) \<Longrightarrow> parses p lo k (fail_p ''foreign key reference requires one column'' c x)"
  by (simp_all add: parses_def fail_p_def reported_def)

lemma parses_table_constraint: "tokens_ok p \<Longrightarrow> parses p lo 0 (parse_table_constraint p cid)"
  by (rule parses_eq, rule parse_table_constraint_def)
    (rule parses_column_list parses_check_parts parses_previous parses_foreign_key_fail parser_rules1 order_refl | assumption)+

lemma parses_alter: "tokens_ok p \<Longrightarrow> parses p lo 0 (parse_alter p)"
  by (rule parses_eq, rule parse_alter_def) (rule parses_table_constraint parser_rules1 | assumption)+

section \<open>Tables\<close>

lemma parses_storage_engine: "tokens_ok p \<Longrightarrow> parses p lo 0 (parse_storage_engine p)"
  by (rule parses_eq, rule parse_storage_engine_def) (rule parser_rules1 | assumption)+

lemma parses_one_size: "tokens_ok p \<Longrightarrow> t \<in> set (p_tokens p) \<Longrightarrow> parses p lo 0 (parse_one_size p name t)"
  by (rule parses_eq, rule parse_one_size_def) (rule parser_rules1 | assumption)+

lemma parses_number_format: "tokens_ok p \<Longrightarrow> t \<in> set (p_tokens p) \<Longrightarrow> parses p lo 0 (parse_number_format p t)"
  by (rule parses_eq, rule parse_number_format_def) (rule parser_rules1 | assumption)+

lemma parses_nullability: "tokens_ok p \<Longrightarrow> parses p lo 0 (parse_nullability p b)"
  by (rule parses_eq, rule parse_nullability_def) (rule parser_rules1 | assumption)+

lemma parses_column_type: "tokens_ok p \<Longrightarrow> t \<in> set (p_tokens p) \<Longrightarrow> parses p lo 0 (parse_column_type p name b t)"
  by (rule parses_eq, rule parse_column_type_def) (rule parses_one_size parses_number_format parser_rules1 | assumption)+

lemma parses_column: "tokens_ok p \<Longrightarrow> k \<le> 1 \<Longrightarrow> parses p lo k (parse_column p)"
  by (rule parses_mono [of p lo 1], rule parses_eq, rule parse_column_def) (rule order_refl parses_column_type parses_nullability parser_rules1 | assumption)+

lemma parses_column_constraints_from: "tokens_ok p \<Longrightarrow> parses p (fuel_from p n) 0 (column_constraints n p column cons cid)"
proof (induction n arbitrary: cons cid)
  case (Suc n)
  have later: "fuel_from p n \<le> lo \<Longrightarrow> parses p lo 0 (column_constraints n p column cons cid)" for lo cons cid
    by (rule parses_mono [OF Suc.IH [OF Suc.prems]]) simp_all
  show ?case by (rule parses_eq, rule column_constraints.simps) (rule later parses_check_parts parser_rules1 | fact Suc.prems | simp)+
qed (rule parses_no_fuel)

lemma parses_column_constraints: "tokens_ok p \<Longrightarrow> parses p lo 0 (column_constraints (tokens_fuel p) p column cons cid)"
  by (rule parses_start, rule parses_column_constraints_from)

lemma parses_column_loop_from: "tokens_ok p \<Longrightarrow> parses p (fuel_from p n) 0 (column_loop n p cols cons cid)"
proof (induction n arbitrary: cols cons cid)
  case (Suc n)
  have later: "fuel_from p n \<le> lo \<Longrightarrow> parses p lo 0 (column_loop n p cols cons cid)" for lo cols cons cid
    by (rule parses_mono [OF Suc.IH [OF Suc.prems]]) simp_all
  show ?case
    by (rule parses_eq, rule column_loop.simps)
      (rule later parses_column parses_column_constraints parses_table_constraint parser_rules1 | fact Suc.prems | simp)+
qed (rule parses_no_fuel)

lemma parses_column_loop: "tokens_ok p \<Longrightarrow> parses p lo 0 (column_loop (tokens_fuel p) p cols cons cid)"
  by (rule parses_start, rule parses_column_loop_from)

text \<open>The parenthesis just read, as the token of an error.\<close>

lemma parses_previous_paren:
  assumes "tokens_ok p" "parses p lo k B" "k \<le> 1"
  shows "parses p lo k (if_type p tok_right_paren (bind_p (previous_position p y) (fail_p m '')'')) B)"
    "parses p lo k (if_type p tok_left_paren (bind_p (previous_position p y) (fail_p m ''('')) B)"
proof -
  have e: "reported (p_command p) \<lparr>pe_message = m, pe_token = ''('', pe_position = tk_position t\<rparr>" if "t \<in> set (p_tokens p)" "tk_type t = tok_left_paren" for t
    using assms(1) that by (force simp: tokens_ok_def paren_text_def reported_def)
  have e2: "reported (p_command p) \<lparr>pe_message = m, pe_token = '')'', pe_position = tk_position t\<rparr>" if "t \<in> set (p_tokens p)" "tk_type t = tok_right_paren" for t
    using assms(1) that by (force simp: tokens_ok_def paren_text_def reported_def)
  show "parses p lo k (if_type p tok_right_paren (bind_p (previous_position p y) (fail_p m '')'')) B)"
    by (rule parsesI) (use parsesD [OF assms(2)] e2 [OF nth_mem] in \<open>auto simp: if_type_def bind_p_def previous_position_def fail_p_def\<close>)
  show "parses p lo k (if_type p tok_left_paren (bind_p (previous_position p y) (fail_p m ''('')) B)"
    by (rule parsesI) (use parsesD [OF assms(2)] e [OF nth_mem] in \<open>auto simp: if_type_def bind_p_def previous_position_def fail_p_def\<close>)
qed

lemma parses_create_table: "tokens_ok p \<Longrightarrow> parses p lo 0 (parse_create_table p)"
  by (rule parses_eq, rule parse_create_table_def)
    (rule parses_previous_paren parses_column_loop parses_storage_engine parser_rules1 | assumption)+

lemma parses_create: "tokens_ok p \<Longrightarrow> parses p lo 0 (parse_create p)"
  by (rule parses_eq, rule parse_create_def) (rule parses_create_index parses_create_table parser_rules1 | assumption)+

section \<open>Subqueries\<close>

lemma closing_paren_le: "closing_paren d ts = Some (n, t) \<Longrightarrow> 0 < n \<and> n \<le> length ts"
  by (induction d ts arbitrary: n t rule: closing_paren.induct) (auto split: if_splits)

lemma reported_shift:
  assumes "reported (substr command start n) e" "start \<le> length command"
  shows "reported command (e\<lparr>pe_position := pe_position e + start\<rparr>)"
proof -
  let ?body = "substr command start n" and ?k = "length (pe_token e)"
  have "take ?k (drop (pe_position e) (take n (drop start command))) = take ?k (take (n - pe_position e) (drop (pe_position e + start) command))"
    by (simp add: drop_take add.commute)
  then have "substr command (pe_position e + start) ?k = pe_token e" if "substr ?body (pe_position e) ?k = pe_token e"
    using that unfolding substr_def by (metis length_take min.absorb4 min.cobounded1 nle_le take_all_iff take_take)
  moreover have "pe_position e + start \<le> length command" using assms by (auto simp: reported_def substr_def)
  ultimately show ?thesis using assms(1) by (auto simp: reported_def)
qed

lemma substr_self: "substr c i (length (substr c i n)) = substr c i n"
  by (simp add: substr_def min_def)

text \<open>The text between parentheses that a subquery is parsed from.\<close>

definition body_of :: "parser \<Rightarrow> nat \<Rightarrow> string \<Rightarrow> bool" where
  "body_of p start body \<longleftrightarrow> start \<le> length (p_command p) \<and> length body < length (p_command p) \<and> (\<exists>n. body = substr (p_command p) start n)"

lemma parses_paren:
  assumes "tokens_ok p" "\<And>start body. body_of p start body \<Longrightarrow> parses p (Suc (Suc lo)) 0 (f start body)" "parses p lo k B" "k \<le> 1"
  shows "parses p lo k (if_type p tok_left_paren (bind_p (paren_body p) (\<lambda>(start, body). f start body)) B)"
proof (rule parsesI)
  fix i assume i: "lo \<le> i" "i \<le> length (p_tokens p)"
  show "result_ok p (i + k) (if_type p tok_left_paren (bind_p (paren_body p) (\<lambda>(start, body). f start body)) B i)"
  proof (cases "i < length (p_tokens p) \<and> tk_type (p_tokens p ! i) = tok_left_paren")
    case True
    let ?t = "p_tokens p ! i"
    have t: "tk_position ?t < length (p_command p)" "substr (p_command p) (tk_position ?t) (length (tk_text ?t)) = tk_text ?t" "tk_text ?t = ''(''"
      using assms(1) True nth_mem [of i "p_tokens p"] by (auto simp: tokens_ok_def paren_text_def)
    have run: "if_type p tok_left_paren (bind_p (paren_body p) (\<lambda>(start, body). f start body)) B i = bind_p (paren_body p) (\<lambda>(start, body). f start body) (Suc i)" using True by (simp add: if_type_def)
    show ?thesis
    proof (cases "closing_paren 1 (drop (Suc i) (p_tokens p))")
      case None
      then show ?thesis unfolding run using t by (simp add: bind_p_def paren_body_def fail_p_def reported_def)
    next
      case (Some r)
      obtain n u where r: "r = (n, u)" by (cases r)
      have n: "0 < n" "Suc i + n \<le> length (p_tokens p)" using closing_paren_le [OF Some [unfolded r]] True by auto
      let ?start = "tk_position ?t + 1"
      let ?body = "substr (p_command p) ?start (tk_position u - ?start)"
      have "body_of p ?start ?body" using t(1) by (auto simp: body_of_def substr_def)
      from parsesD [OF assms(2) [OF this], of "Suc i + n"] n i
      have "result_ok p (i + k) (f ?start ?body (Suc i + n))" using assms(4) by (auto intro: result_ok_mono)
      then show ?thesis unfolding run using Some r by (simp add: bind_p_def paren_body_def Let_def)
    qed
  qed (use parsesD [OF assms(3) i] in \<open>auto simp: if_type_def\<close>)
qed

lemma parses_require_paren:
  assumes "tokens_ok p" "\<And>start body. body_of p start body \<Longrightarrow> parses p (Suc (Suc lo)) 0 (f start body)" "k \<le> 1"
  shows "parses p lo k (require_type p tok_left_paren s (bind_p (paren_body p) (\<lambda>(start, body). f start body)))"
  by (rule parses_eq, rule require_type_def, rule parses_paren) (rule assms parses_expected | assumption)+

lemma parses_run_subparser:
  assumes "sub_ok p sub" "body_of p start body"
  shows "parses p lo 0 (run_subparser sub what start body)"
proof -
  obtain n where b: "body = substr (p_command p) start n" "start \<le> length (p_command p)" "length body < length (p_command p)"
    using assms(2) by (auto simp: body_of_def)
  have "reported (p_command p) \<lparr>pe_message = m, pe_token = body, pe_position = start\<rparr>" for m
    using b by (simp add: reported_def substr_self)
  moreover have "case sub body of Inr q \<Rightarrow> True
      | Inl stop \<Rightarrow> (case stop of Failed e \<Rightarrow> reported body e | No_fuel \<Rightarrow> False | Thrown _ \<Rightarrow> True | Past_end \<Rightarrow> True)"
    using assms(1) b(3) unfolding sub_ok_def by blast
  ultimately show ?thesis using reported_shift [of "p_command p" start n] b
    by (auto simp: parses_def run_subparser_def fail_p_def split: sum.splits stop.splits)
qed

lemma parses_parenthesized_body: "tokens_ok p \<Longrightarrow> k \<le> 1 \<Longrightarrow> parses p lo k (parse_parenthesized_body p)"
  by (rule parses_eq, rule parse_parenthesized_body_def) (rule parses_require_paren parser_rules1 | assumption)+

lemma parses_subquery: "tokens_ok p \<Longrightarrow> sub_ok p sub \<Longrightarrow> k \<le> 1 \<Longrightarrow> parses p lo k (parse_subquery_expression p sub)"
  by (rule parses_eq, rule parse_subquery_expression_def) (rule parses_require_paren parses_run_subparser parser_rules1 | assumption)+

lemma parses_table_reference: "tokens_ok p \<Longrightarrow> parses p lo 0 (parse_table_reference p)"
  by (rule parses_eq, rule parse_table_reference_def) (rule parses_previous_paren parser_rules1 | assumption)+

lemma parses_from_source: "tokens_ok p \<Longrightarrow> sub_ok p sub \<Longrightarrow> parses p lo 0 (parse_from_source p sub)"
  by (rule parses_eq, rule parse_from_source_def)
    (rule parses_paren parses_run_subparser parses_table_reference parser_rules1 | assumption)+

section \<open>Columns of a query\<close>

lemma parses_column_reference: "tokens_ok p \<Longrightarrow> k \<le> 1 \<Longrightarrow> parses p lo k (parse_column_reference p label)"
  by (rule parses_mono [of p lo 1], rule parses_eq, rule parse_column_reference_def) (rule order_refl parser_rules1 | assumption)+

lemma parses_function_argument: "tokens_ok p \<Longrightarrow> parses p lo 0 (function_argument p star label)"
  by (rule parses_eq, rule function_argument_def) (rule parses_column_reference parser_rules1 | assumption)+

lemma parses_peek_text:
  assumes "\<And>x. parses p (Suc lo) 0 (f x)" "parses p lo k B" "k \<le> 1"
  shows "parses p lo k (\<lambda>i. case peek_text p g i of Some x \<Rightarrow> f x (Suc i) | None \<Rightarrow> B i)"
proof (rule parsesI)
  fix i assume i: "lo \<le> i" "i \<le> length (p_tokens p)"
  show "result_ok p (i + k) (case peek_text p g i of Some x \<Rightarrow> f x (Suc i) | None \<Rightarrow> B i)"
  proof (cases "peek_text p g i")
    case (Some x)
    then have "i < length (p_tokens p)" by (simp add: peek_text_def split: if_splits)
    then have "result_ok p (Suc i) (f x (Suc i))" using parsesD [OF assms(1), of "Suc i" x] i by simp
    then show ?thesis using Some assms(3) by (auto intro: result_ok_mono)
  qed (use parsesD [OF assms(2) i] in simp)
qed

lemma parses_selected: "tokens_ok p \<Longrightarrow> k \<le> 1 \<Longrightarrow> parses p lo k (parse_selected p)"
  by (rule parses_mono [of p lo 1], rule parses_eq, rule parse_selected_def, rule parses_bind_rules(3), rule parses_positions, rule parses_bind_rules(2))
    (rule order_refl parses_peek_text parses_function_argument parses_column_reference parser_rules1 | assumption)+

lemma parses_select_loop_from: "tokens_ok p \<Longrightarrow> parses p (fuel_from p n) 0 (select_loop n p cols)"
proof (induction n arbitrary: cols)
  case (Suc n)
  have later: "fuel_from p n \<le> lo \<Longrightarrow> parses p lo 0 (select_loop n p cols)" for lo cols
    by (rule parses_mono [OF Suc.IH [OF Suc.prems]]) simp_all
  show ?case by (rule parses_eq, rule select_loop.simps) (rule later parses_selected parser_rules1 | fact Suc.prems | simp)+
qed (rule parses_no_fuel)

lemma parses_select_list: "tokens_ok p \<Longrightarrow> parses p lo 0 (parse_select_list p)"
  by (rule parses_eq, rule parse_select_list_def) (rule parses_start [OF parses_select_loop_from] parser_rules1 | assumption)+

lemma parses_positioned_column: "tokens_ok p \<Longrightarrow> parses p lo 0 (positioned_column p label)"
  by (rule parses_eq, rule positioned_column_def) (rule parses_column_reference parser_rules1 | assumption)+

lemma parses_group_by_from: "tokens_ok p \<Longrightarrow> parses p (fuel_from p n) 0 (parse_group_by n p cols)"
proof (induction n arbitrary: cols)
  case (Suc n)
  have later: "fuel_from p n \<le> lo \<Longrightarrow> parses p lo 0 (parse_group_by n p cols)" for lo cols
    by (rule parses_mono [OF Suc.IH [OF Suc.prems]]) simp_all
  show ?case by (rule parses_eq, rule parse_group_by.simps) (rule later parses_positioned_column parser_rules1 | fact Suc.prems | simp)+
qed (rule parses_no_fuel)

lemma parses_order_by_from: "tokens_ok p \<Longrightarrow> parses p (fuel_from p n) 0 (parse_order_by n p cols)"
proof (induction n arbitrary: cols)
  case (Suc n)
  have later: "fuel_from p n \<le> lo \<Longrightarrow> parses p lo 0 (parse_order_by n p cols)" for lo cols
    by (rule parses_mono [OF Suc.IH [OF Suc.prems]]) simp_all
  show ?case by (rule parses_eq, rule parse_order_by.simps) (rule later parses_positioned_column parser_rules1 | fact Suc.prems | simp)+
qed (rule parses_no_fuel)

lemma parses_limit: "tokens_ok p \<Longrightarrow> parses p lo 0 (parse_limit p)"
  by (rule parses_eq, rule parse_limit_def) (rule parser_rules1 | assumption)+

section \<open>Conditions\<close>

lemma parses_column_expression: "tokens_ok p \<Longrightarrow> parses p lo 0 (parse_column_expression p label)"
proof -
  assume ok: "tokens_ok p"
  let ?f = "\<lambda>agg i. bind_p (function_argument p (agg = agg_count) label) (\<lambda>(alias, column).
    return_p (QueryExpression ex_aggregate alias column agg '''' None (tk_position (p_tokens p ! (i - 1))))) i"
  let ?B = "bind_p (parse_column_reference p label) (\<lambda>(alias, column).
    bind_p (previous_position p (length (p_command p))) (\<lambda>position. return_p (QueryExpression ex_column_reference alias column agg_none '''' None position)))"
  have eq: "parse_column_expression p label i = (case peek_text p aggregate_from_text i of Some x \<Rightarrow> ?f x (Suc i) | None \<Rightarrow> ?B i)" for i
    by (auto simp: parse_column_expression_def bind_p_def [of "peek_position p"] peek_position_def peek_text_def split: option.splits if_splits)
  have fA: "parses p (Suc lo) 0 (?f agg)" for agg
  proof (rule parsesI)
    fix i assume i: "Suc lo \<le> i" "i \<le> length (p_tokens p)"
    have "parses p (Suc lo) 0 (bind_p (function_argument p (agg = agg_count) label) (\<lambda>(alias, column).
      return_p (QueryExpression ex_aggregate alias column agg '''' None x)))" for x
      by (rule parses_function_argument parser_rules1 ok)+
    from parsesD [OF this i] show "result_ok p (i + 0) (?f agg i)" .
  qed
  have fB: "parses p lo 0 ?B" by (rule parses_column_reference parser_rules1 ok)+
  show ?thesis by (rule parses_eq, rule eq, rule parses_peek_text, rule fA, rule fB, rule k_le)
qed

lemma parses_value_expression: "tokens_ok p \<Longrightarrow> sub_ok p sub \<Longrightarrow> parses p lo 0 (parse_value_expression p sub)"
proof (rule parsesI)
  fix i assume ok: "tokens_ok p" "sub_ok p sub" and i: "lo \<le> i" "i \<le> length (p_tokens p)"
  show "result_ok p (i + 0) (parse_value_expression p sub i)"
  proof (cases "i < length (p_tokens p)")
    case True
    let ?t = "p_tokens p ! i"
    have "result_ok p i (parse_subquery_expression p sub i)" using parsesD [OF parses_subquery [OF ok, of 0 i], of i] True by simp
    moreover have "result_ok p i (bind_p (read_identifier p ''column name'') (\<lambda>column. return_p (g column)) (Suc (Suc i)))" if "Suc i < length (p_tokens p)" for g
    proof -
      have "parses p 0 0 (bind_p (read_identifier p ''column name'') (\<lambda>column. return_p (g column)))" by (rule parser_rules1 ok(1))+
      from parsesD [OF this, of "Suc (Suc i)"] that show ?thesis by (auto intro: result_ok_mono)
    qed
    ultimately show ?thesis using True unfolding parse_value_expression_def bind_p_def [of "next_p p"] next_p_def by (auto simp: return_p_def [of _ "Suc i"])
  qed (simp add: parse_value_expression_def bind_p_def next_p_def)
qed

lemma parses_comparison_tail: "tokens_ok p \<Longrightarrow> sub_ok p sub \<Longrightarrow> parses p lo 0 (parse_comparison_tail p sub left)"
  by (rule parses_eq, rule parse_comparison_tail_def)
    (rule parses_subquery parses_value_expression parser_rules1 | assumption)+

text \<open>
  The fuel of the functions for conditions: each token consumed by a parenthesis, \<^verbatim>\<open>NOT\<close>, \<^verbatim>\<open>AND\<close> or \<^verbatim>\<open>OR\<close> pays for the four calls that
  follow it.
\<close>

abbreviation tokens_left :: "parser \<Rightarrow> nat \<Rightarrow> nat" where
  "tokens_left p lo \<equiv> 4 * (length (p_tokens p) - lo)"

lemma parses_conditions:
  assumes ok: "tokens_ok p" "sub_ok p sub"
  shows "(\<forall>lo. tokens_left p lo + 3 \<le> n \<longrightarrow> parses p lo 0 (parse_or_expression n p sub)) \<and>
    (\<forall>lo node. tokens_left p lo + 2 \<le> n \<longrightarrow> parses p lo 0 (or_loop n p sub node)) \<and>
    (\<forall>lo. tokens_left p lo + 2 \<le> n \<longrightarrow> parses p lo 0 (parse_and_expression n p sub)) \<and>
    (\<forall>lo node. tokens_left p lo + 1 \<le> n \<longrightarrow> parses p lo 0 (and_loop n p sub node)) \<and>
    (\<forall>lo. tokens_left p lo + 1 \<le> n \<longrightarrow> parses p lo 0 (parse_comparison n p sub))"
proof (induction n)
  case (Suc n)
  have IH: "tokens_left p lo + 3 \<le> n \<Longrightarrow> parses p lo 0 (parse_or_expression n p sub)"
    "tokens_left p lo + 2 \<le> n \<Longrightarrow> parses p lo 0 (or_loop n p sub node)"
    "tokens_left p lo + 2 \<le> n \<Longrightarrow> parses p lo 0 (parse_and_expression n p sub)"
    "tokens_left p lo + 1 \<le> n \<Longrightarrow> parses p lo 0 (and_loop n p sub node)"
    "tokens_left p lo + 1 \<le> n \<Longrightarrow> parses p lo 0 (parse_comparison n p sub)" for lo node
    using Suc.IH by blast+
  have empty: "parses p lo 0 P" if "length (p_tokens p) < lo" for lo and P :: "QueryConditionNode parse"
    using that by (simp add: parses_def)
  have less: "parses p (Suc lo) 0 P" if "lo < length (p_tokens p) \<Longrightarrow> parses p (Suc lo) 0 P" for lo and P :: "QueryConditionNode parse"
    using that empty [of "Suc lo" P] by (cases "lo < length (p_tokens p)") auto
  have left_Suc: "tokens_left p (Suc lo) + 4 = tokens_left p lo" if "lo < length (p_tokens p)" for lo using that by simp
  show ?case
  proof (intro conjI allI impI)
    fix lo assume "tokens_left p lo + 3 \<le> Suc n"
    then show "parses p lo 0 (parse_or_expression (Suc n) p sub)"
      by (rule_tac parses_eq, rule_tac parse_or_expression.simps, rule_tac parses_bind_rules) (rule IH, simp)+
  next
    fix lo node assume fuel: "tokens_left p lo + 2 \<le> Suc n"
    show "parses p lo 0 (or_loop (Suc n) p sub node)"
    proof (rule parses_eq, rule or_loop.simps, rule parses_match)
      show "parses p (Suc lo) 0 (bind_p (parse_and_expression n p sub) (\<lambda>right. or_loop n p sub (tree_node cn_or_node node (Some right))))"
      proof (rule less, rule parses_bind_rules)
        assume "lo < length (p_tokens p)"
        note lt = left_Suc [OF this]
        show "parses p (Suc lo) 0 (parse_and_expression n p sub)" by (rule IH) (use fuel lt in linarith)
        show "parses p (Suc lo) 0 (or_loop n p sub (tree_node cn_or_node node (Some right)))" for right by (rule IH) (use fuel lt in linarith)
      qed
    qed (rule parser_rules)+
  next
    fix lo assume "tokens_left p lo + 2 \<le> Suc n"
    then show "parses p lo 0 (parse_and_expression (Suc n) p sub)"
      by (rule_tac parses_eq, rule_tac parse_and_expression.simps, rule_tac parses_bind_rules) (rule IH, simp)+
  next
    fix lo node assume fuel: "tokens_left p lo + 1 \<le> Suc n"
    show "parses p lo 0 (and_loop (Suc n) p sub node)"
    proof (rule parses_eq, rule and_loop.simps, rule parses_match)
      show "parses p (Suc lo) 0 (bind_p (parse_comparison n p sub) (\<lambda>right. and_loop n p sub (tree_node cn_and_node node (Some right))))"
      proof (rule less, rule parses_bind_rules)
        assume "lo < length (p_tokens p)"
        note lt = left_Suc [OF this]
        show "parses p (Suc lo) 0 (parse_comparison n p sub)" by (rule IH) (use fuel lt in linarith)
        show "parses p (Suc lo) 0 (and_loop n p sub (tree_node cn_and_node node (Some right)))" for right by (rule IH) (use fuel lt in linarith)
      qed
    qed (rule parser_rules)+
  next
    fix lo assume fuel: "tokens_left p lo + 1 \<le> Suc n"
    have sub1: "parses p (Suc lo) 0 (parse_or_expression n p sub)" "parses p (Suc lo) 0 (parse_comparison n p sub)"
      by (rule less, rule IH, drule left_Suc, use fuel in linarith)+
    have sub2: "parses p (Suc (Suc lo)) 0 (parse_comparison n p sub)" by (rule parses_mono [OF sub1(2)]) simp_all
    show "parses p lo 0 (parse_comparison (Suc n) p sub)"
      by (rule parses_eq, rule parse_comparison.simps)
        (rule sub1 sub2 parses_subquery parses_comparison_tail parses_column_expression parser_rules1 ok)+
  qed
qed simp

lemma parses_condition: "tokens_ok p \<Longrightarrow> sub_ok p sub \<Longrightarrow> parses p lo 0 (parse_condition_expression p sub)"
  using parses_conditions [of p sub "4 * tokens_fuel p"]
  by (intro parses_eq [OF parse_condition_expression_def]) (auto simp: tokens_fuel_def)

section \<open>Selects and changes of rows\<close>

lemma parses_join_target: "tokens_ok p \<Longrightarrow> sub_ok p sub \<Longrightarrow> parses p lo 0 (parse_join_target p sub ty b)"
  by (rule parses_eq, rule parse_join_target_def) (rule parses_table_reference parses_condition parser_rules1 | assumption)+

lemma parses_join_loop_from: "tokens_ok p \<Longrightarrow> sub_ok p sub \<Longrightarrow> parses p (fuel_from p n) 0 (join_loop n p sub joins)"
proof (induction n arbitrary: joins)
  case (Suc n)
  have later: "fuel_from p n \<le> lo \<Longrightarrow> parses p lo 0 (join_loop n p sub joins)" for lo joins
    by (rule parses_mono [OF Suc.IH [OF Suc.prems]]) simp_all
  show ?case by (rule parses_eq, rule join_loop.simps) (rule later parses_join_target parser_rules1 | fact Suc.prems | simp)+
qed (rule parses_no_fuel)

lemma parses_optional_condition: "tokens_ok p \<Longrightarrow> sub_ok p sub \<Longrightarrow> parses p lo 0 (optional_condition p sub s)"
  by (rule parses_eq, rule optional_condition_def) (rule parses_condition parser_rules1 | assumption)+

lemma parses_single_select: "tokens_ok p \<Longrightarrow> sub_ok p sub \<Longrightarrow> parses p lo 0 (parse_single_select p sub)"
  by (rule parses_eq, rule parse_single_select_def)
    (rule parses_select_list parses_from_source parses_start [OF parses_join_loop_from] parses_optional_condition parses_limit
      parses_start [OF parses_group_by_from] parses_start [OF parses_order_by_from] parser_rules1 | assumption)+

lemma parses_compound_loop_from: "tokens_ok p \<Longrightarrow> sub_ok p sub \<Longrightarrow> parses p (fuel_from p n) 0 (compound_loop n p sub q)"
proof (induction n arbitrary: q)
  case (Suc n)
  have later: "fuel_from p n \<le> lo \<Longrightarrow> parses p lo 0 (compound_loop n p sub q)" for lo q
    by (rule parses_mono [OF Suc.IH [OF Suc.prems]]) simp_all
  show ?case by (rule parses_eq, rule compound_loop.simps) (rule later parses_single_select parser_rules1 | fact Suc.prems | simp)+
qed (rule parses_no_fuel)

lemma parses_select: "tokens_ok p \<Longrightarrow> sub_ok p sub \<Longrightarrow> parses p lo 0 (parse_select p sub)"
  by (rule parses_eq, rule parse_select_def) (rule parses_single_select parses_start [OF parses_compound_loop_from] parser_rules1 | assumption)+

lemma parses_cte_loop_from: "tokens_ok p \<Longrightarrow> sub_ok p sub \<Longrightarrow> parses p (fuel_from p n) 0 (cte_loop n p sub ctes)"
proof (induction n arbitrary: ctes)
  case (Suc n)
  have later: "fuel_from p n \<le> lo \<Longrightarrow> parses p lo 0 (cte_loop n p sub ctes)" for lo ctes
    by (rule parses_mono [OF Suc.IH [OF Suc.prems]]) simp_all
  show ?case by (rule parses_eq, rule cte_loop.simps) (rule later parses_subquery parser_rules1 | fact Suc.prems | simp)+
qed (rule parses_no_fuel)

lemma parses_with: "tokens_ok p \<Longrightarrow> sub_ok p sub \<Longrightarrow> parses p lo 0 (parse_with p sub)"
  by (rule parses_eq, rule parse_with_def) (rule parses_select parses_start [OF parses_cte_loop_from] parser_rules1 | assumption)+

lemma parses_values_loop_from: "tokens_ok p \<Longrightarrow> parses p (fuel_from p n) 0 (values_loop n p rows)"
proof (induction n arbitrary: rows)
  case (Suc n)
  have later: "fuel_from p n \<le> lo \<Longrightarrow> parses p lo 0 (values_loop n p rows)" for lo rows
    by (rule parses_mono [OF Suc.IH [OF Suc.prems]]) simp_all
  show ?case by (rule parses_eq, rule values_loop.simps) (rule later parses_parenthesized_body parser_rules1 | fact Suc.prems | simp)+
qed (rule parses_no_fuel)

lemma parses_insert: "tokens_ok p \<Longrightarrow> sub_ok p sub \<Longrightarrow> parses p lo 0 (parse_insert p sub)"
  by (rule parses_eq, rule parse_insert_def)
    (rule parses_name_loop parses_single_select parses_start [OF parses_values_loop_from] parser_rules1 | assumption)+

lemma parses_delete: "tokens_ok p \<Longrightarrow> sub_ok p sub \<Longrightarrow> parses p lo 0 (parse_delete p sub)"
  by (rule parses_eq, rule parse_delete_def) (rule parses_condition parser_rules1 | assumption)+

lemma parses_assigned_value:
  assumes "tokens_ok p"
  shows "parses p lo 0 (\<lambda>i. if i \<ge> length (p_tokens p) then expected p s i
    else if tk_type (p_tokens p ! i) \<in> {tok_string, tok_number, tok_word} then Inr (tk_text (p_tokens p ! i), Suc i)
    else if tk_type (p_tokens p ! i) = tok_left_paren then parse_parenthesized_body p i else expected p s i)"
proof (rule parsesI)
  fix i assume i: "lo \<le> i" "i \<le> length (p_tokens p)"
  note e = parsesD [OF parses_expected [OF assms, of lo 0 s] i]
  note b = parsesD [OF parses_parenthesized_body [OF assms, of 0 lo]]
  show "result_ok p (i + 0) (if i \<ge> length (p_tokens p) then expected p s i
    else if tk_type (p_tokens p ! i) \<in> {tok_string, tok_number, tok_word} then Inr (tk_text (p_tokens p ! i), Suc i)
    else if tk_type (p_tokens p ! i) = tok_left_paren then parse_parenthesized_body p i else expected p s i)"
    using e b i by auto
qed

lemma parses_assignment_loop_from: "tokens_ok p \<Longrightarrow> parses p (fuel_from p n) 0 (assignment_loop n p assignments)"
proof (induction n arbitrary: assignments)
  case (Suc n)
  have later: "fuel_from p n \<le> lo \<Longrightarrow> parses p lo 0 (assignment_loop n p assignments)" for lo assignments
    by (rule parses_mono [OF Suc.IH [OF Suc.prems]]) simp_all
  show ?case by (rule parses_eq, rule assignment_loop.simps) (rule later parses_assigned_value parser_rules1 | fact Suc.prems | simp)+
qed (rule parses_no_fuel)

lemma parses_update: "tokens_ok p \<Longrightarrow> sub_ok p sub \<Longrightarrow> parses p lo 0 (parse_update p sub)"
  by (rule parses_eq, rule parse_update_def)
    (rule parses_parenthesized_body parses_start [OF parses_assignment_loop_from] parses_condition parser_rules1 | assumption)+

section \<open>Commands\<close>

lemma parses_command:
  assumes "tokens_ok p" "sub_ok p sub"
  shows "result_ok p 0 (parse_command p sub 0)"
proof (cases "p_tokens p")
  case Nil
  then show ?thesis by (simp add: parse_command_def if_end_def fail_p_def reported_def substr_def)
next
  case (Cons t ts)
  then have t: "p_tokens p ! 0 \<in> set (p_tokens p)" by simp
  have "parses p 0 0 (parse_command p sub)"
    by (rule parses_eq, rule parse_command_def, unfold Let_def)
      (rule assms t parses_simple_query parses_show parses_create parses_drop parses_alter parses_use parses_describe parses_insert parses_select
        parses_with parses_delete parses_update parser_rules1)+
  from parsesD [OF this, of 0] show ?thesis by simp
qed

lemma parse_with_error_ok:
  assumes "length command < n"
  shows "case parse_with_error n command of Inr q \<Rightarrow> True
    | Inl stop \<Rightarrow> (case stop of Failed e \<Rightarrow> reported command e | No_fuel \<Rightarrow> False | Thrown _ \<Rightarrow> True | Past_end \<Rightarrow> True)"
  using assms
proof (induction n arbitrary: command)
  case (Suc n)
  obtain ts err where tk: "tokenize command = (ts, err)" by (cases "tokenize command")
  show ?case
  proof (cases err)
    case (Some e)
    then show ?thesis using tk tokenize_error [of command ts e] by (auto simp: located_def reported_def)
  next
    case None
    let ?p = "\<lparr>p_command = command, p_tokens = ts\<rparr>"
    note tok = tokenize_ok [OF tk [unfolded None]]
    have ok: "tokens_ok ?p" using tiled_at [OF tok(1), of command "[]"] tok(3) by (simp add: tokens_ok_def list_all_iff)
    have sub: "sub_ok ?p (parse_with_error n)" unfolding sub_ok_def using Suc by auto
    have "result_ok ?p 0 (parse_command ?p (parse_with_error n) 0)" by (rule parses_command [OF ok sub])
    then show ?thesis using tk None by (auto simp: result_ok_def split: sum.splits stop.splits)
  qed
qed simp

section \<open>Properties\<close>

text \<open>
  C39. A command without lexical error is cut completely into tokens: only white space stands between, before and after them, every
  token stands in the command at its position, and the parentheses are balanced. A lexical error names a character of the command
  at its position.
\<close>

theorem tokenize_covers_command:
  "case tokenize command of
     (ts, None) \<Rightarrow> tiled 0 command ts \<and> balanced 0 ts
   | (ts, Some e) \<Rightarrow> located command e"
proof -
  obtain ts err where tk: "tokenize command = (ts, err)" by (cases "tokenize command")
  show ?thesis
  proof (cases err)
    case None
    then show ?thesis using tokenize_ok [of command ts] tk by simp
  next
    case (Some e)
    then show ?thesis using tokenize_error [of command ts e] tk by simp
  qed
qed

text \<open>
  C40. Parsing a command always ends, however its conditions and subqueries are nested: the parser never runs out of the fuel given by
  the number of tokens and the length of the command. When it reports a parse error, the position is in the command and the token
  of the error stands there; only the two errors about the columns of a foreign key come with another token.
\<close>

theorem parse_query_terminates:
  "case parse_query command of
     Inr q \<Rightarrow> True
   | Inl stop \<Rightarrow> stop \<noteq> No_fuel \<and> (\<forall>e. stop = Failed e \<longrightarrow> reported command e)"
proof -
  have "length command < Suc (length command)" by simp
  from parse_with_error_ok [OF this] show ?thesis
    unfolding parse_query_def by (auto split: sum.splits stop.splits)
qed

theorem parse_query_terminates_witness:
  "case parse_query ''SELECT * FROM t WHERE a = 1 BOGUS'' of
     Inl (Failed e) \<Rightarrow> reported ''SELECT * FROM t WHERE a = 1 BOGUS'' e \<and> pe_position e = 28
   | _ \<Rightarrow> False"
proof -
  have "parse_query ''SELECT * FROM t WHERE a = 1 BOGUS'' =
      Inl (Failed \<lparr>pe_message = ''unexpected token'', pe_token = ''BOGUS'', pe_position = 28\<rparr>)"
    by code_simp
  then show ?thesis using parse_query_terminates [of "''SELECT * FROM t WHERE a = 1 BOGUS''"] by simp
qed

end
