(* ===== verification/Spec2Isabelle.thy ===== *)
theory Spec2Isabelle
  imports Serializer Catalog Wal_Recovery Table_File Index_Search Lock_Manager Query_Parsing
begin

text \<open>
  Scratch DB, a relational database in C++ under \<^verbatim>\<open>src/\<close>: a verification library of its core.

  \<^bold>\<open>The program.\<close> A record is a \<^verbatim>\<open>Row\<close> of \<^verbatim>\<open>Value\<close>s described by a \<^verbatim>\<open>Schema\<close> of \<^verbatim>\<open>Column\<close>s; the serializer turns it
  into bytes. Bytes live in slotted pages (\<^verbatim>\<open>Page\<close>), pages in table files (\<^verbatim>\<open>TableFile\<close>) behind a page cache
  (\<^verbatim>\<open>PageCache\<close>), keys in index files (\<^verbatim>\<open>IndexFile\<close>). Every change of a page is logged first in the write-ahead log
  (\<^verbatim>\<open>WalManager\<close>), which recovery replays after a crash. The catalog keeps the schemas as text, the lock manager serialises
  statements, the database facade joins these parts, and the query parser and executor run SQL on it.

  \<^bold>\<open>Foundations.\<close> \<open>Prelude\<close> has the machine types (\<^verbatim>\<open>uint8_t\<close> to \<^verbatim>\<open>uint64_t\<close> as words), exceptions as values, byte blocks and
  little-endian integers; \<open>Text_Lib\<close> the character and number routines of the C++ library the sources use. \<open>IO\<close> is the
  operating system: files, directories, the synced prefix of each file, and a script of outcomes in which a system call may
  transfer a part, be interrupted or fail. Its lemmas show that the transfer loops end and what their results mean.
  \<open>File_Pages\<close> views a file as pages.

  \<^bold>\<open>Data.\<close> \<open>Column\<close> (\<^verbatim>\<open>catalog/column.cpp\<close>) and \<open>Schema\<close> (\<^verbatim>\<open>catalog/schema.cpp\<close>): constructors and setters accept exactly
  the well-formed columns and schemas, and the texts of constraints and indexes read back. \<open>Date_Time\<close>
  (\<^verbatim>\<open>db_types/date_time.cpp\<close>): day numbers count the calendar, and the texts of dates and times read back. \<open>Value\<close>
  (\<^verbatim>\<open>record/value.cpp\<close>, \<^verbatim>\<open>row.cpp\<close>) and \<open>Serializer\<close> (\<^verbatim>\<open>record/serializer.cpp\<close>): a row is serialized exactly when its values
  match the columns, and deserialization returns it; an index outside a buffer is the value \<open>Out_of_bounds\<close>.

  \<^bold>\<open>Storage.\<close> \<open>Page_Spec\<close> states a page as a list of optional records, \<open>Page\<close> (\<^verbatim>\<open>storage/page.cpp\<close>) shows that the bytes
  implement it: insert, update, remove, read and compaction refine the abstract operations and an insert fails only when
  the free bytes do not suffice. \<open>Wal\<close> (\<^verbatim>\<open>storage/wal_manager.cpp\<close>) has the record format, the log operations and recovery;
  \<open>Wal_Log\<close> shows what a crash leaves of the log, \<open>Wal_Recovery\<close> that recovery restores the page images of committed
  transactions and undoes the others. \<open>Page_Cache\<close> (\<^verbatim>\<open>storage/page_cache.cpp\<close>) keeps its invariant over every sequence of
  operations, is transparent to readers and evicts the least recently used page. \<open>Table_File\<close> (\<^verbatim>\<open>storage/table_file.cpp\<close>)
  refines a map from record ids to records over the cache, the log and the file, scans return every record once, and a
  successful sync leaves all records in the synced file.

  \<^bold>\<open>Indexes.\<close> \<open>Index_File\<close> (\<^verbatim>\<open>storage/index_file.cpp\<close>) has the entries and the tree of pages, \<open>Index_Pages\<close> the page formats,
  \<open>Index_Tree\<close> what \<^verbatim>\<open>write_pages\<close> leaves in the file, and \<open>Index_Search\<close> that insertions, removals and lookups through the
  pages implement a set of entries, with the cases where they do not (many entries of one key, very long keys).

  \<^bold>\<open>Catalog.\<close> \<open>Catalog\<close> (\<^verbatim>\<open>catalog/catalog.cpp\<close>) has the text of a schema, its replacement by a synced temporary file and the
  operations on databases and tables. The text reads back, and the operations refine a map from table names to schemas under
  every failure of a system call.

  \<^bold>\<open>Locks.\<close> \<open>Lock_Manager\<close> (\<^verbatim>\<open>concurrency/lock_manager.cpp\<close>): the table of reference-counted shared mutexes as a step relation
  over threads. Exclusive locks exclude every other lock in all interleavings; the order of releases can lose an unlock.

  \<^bold>\<open>Queries.\<close> \<open>Value_Parser\<close> (\<^verbatim>\<open>query/value_parser.cpp\<close>) turns literals into values: accepted rows match the schema, errors
  name their place, numbers are exact and printed rows read back. \<open>Query_Syntax\<close> (\<^verbatim>\<open>query/query_parser.hpp\<close> and the tokenizer of
  \<^verbatim>\<open>query_parser.cpp\<close>) has the syntax trees and tokens, \<open>Query_Parser\<close> the whole grammar with every message and position, and
  \<open>Query_Parsing\<close> shows that tokens cover the command, that parsing ends and that errors name a part of the command.

  \<^bold>\<open>Fuel.\<close> Loops that end have measures. Fuel bounds the loops of index files that need not end: \<^verbatim>\<open>write_pages\<close> over the
  levels (32 levels are enough when no key is longer than 2038 bytes) and the walks along page numbers, which a damaged file
  can turn into a cycle; \<open>None\<close> stands for a loop still running. In the parser fuel stands for the recursion: one more than the
  number of tokens for loops, four times that for conditions, and one more than the length of the command for nested
  subqueries; \<open>No_fuel\<close> is shown never to be the result.

  \<^bold>\<open>Not modelled.\<close> Descriptors are paths; memory allocation does not fail; a mutex makes a method atomic. The command line,
  the table printer and the HTTP server are input and output around the calls of the database. The database facade and the
  query executor, which connect the parts above, are left out.
\<close>

end
